(* ===== verification/HK_Prelude.thy ===== *)
theory HK_Prelude
  imports Main "HOL-Library.Word"
begin

unbundle bit_operations_syntax

text \<open>
  Shared vocabulary of the development: the fixed width integers of \<open>Kernel/Types.h\<close>, the
  constants of \<open>Kernel/Config.h\<close>, the result type that turns \<open>PANIC\<close>, a failing \<open>ASSERT\<close> and a
  loop that never ends into values, the counting loop every component uses, and the generic
  facts about words, lists and loops that the component theories share.
\<close>

section \<open>Fixed width integers\<close>

type_synonym u8 = "8 word"
type_synonym u16 = "16 word"
type_synonym u32 = "32 word"
type_synonym u64 = "64 word"

named_theorems config_defs \<open>the constants of Types.h and Config.h\<close>
named_theorems word_nat \<open>rewriting word comparisons and arithmetic to natural numbers\<close>

definition KIB :: u64 where [config_defs]: "KIB = 1024"
definition MIB :: u64 where [config_defs]: "MIB = 1024 * KIB"
definition GIB :: u64 where [config_defs]: "GIB = 1024 * MIB"

definition MAX_CORES :: nat where [config_defs]: "MAX_CORES = 8"
definition THREAD_STACK_SIZE :: u64 where [config_defs]: "THREAD_STACK_SIZE = 16 * KIB"
definition KERNEL_STACK_BASE :: u64 where [config_defs]: "KERNEL_STACK_BASE = 0xFFFFC00000000000"
definition SCHEDULER_TICK_MS :: u32 where [config_defs]: "SCHEDULER_TICK_MS = 10"
definition HEAP_LOG2 :: nat where [config_defs]: "HEAP_LOG2 = 24"
definition KERNEL_VMA :: u64 where [config_defs]: "KERNEL_VMA = 0xFFFFFFFF80000000"
definition DIRECT_MAP_BASE :: u64 where [config_defs]: "DIRECT_MAP_BASE = 0xFFFF800000000000"
definition IDENTITY_MAPPED_LIMIT :: u64 where [config_defs]: "IDENTITY_MAPPED_LIMIT = 4 * GIB"
definition EPILOGUE_QUEUE_SIZE :: u32 where [config_defs]: "EPILOGUE_QUEUE_SIZE = 64"
definition KEY_BUFFER_SIZE :: u32 where [config_defs]: "KEY_BUFFER_SIZE = 32"

section \<open>Results\<close>

text \<open>
  \<open>PANIC\<close> and a failing \<open>ASSERT\<close> both end in \<open>Cpu::Die\<close>; they are the left injection of a sum.
  \<open>ASSERT\<close> is the macro of the ordinary build: with \<open>NDEBUG\<close>, which the \<open>-opt\<close> build defines,
  \<open>Debug/Assert.h\<close> compiles it to nothing. An integer division by zero is the machine's divide fault,
  and an instruction the processor refuses is \<open>ProtectionFault\<close>. A loop of the source that never
  leaves its body is the fault \<open>Diverged\<close>, and \<open>System::Reboot\<close>, which does not return, is \<open>Rebooted\<close>.
\<close>

datatype fault = Panicked string | AssertionFailed string | DivideError | ProtectionFault | Diverged | Rebooted

type_synonym 'a result = "fault + 'a"

abbreviation Ok :: "'a \<Rightarrow> 'a result" where "Ok \<equiv> Inr"
abbreviation Err :: "fault \<Rightarrow> 'a result" where "Err \<equiv> Inl"

definition rbind :: "'a result \<Rightarrow> ('a \<Rightarrow> 'b result) \<Rightarrow> 'b result" where
  "rbind r f = (case r of Inl e \<Rightarrow> Inl e | Inr a \<Rightarrow> f a)"

lemma rbind_simps [simp]:
  "rbind (Ok a) f = f a"
  "rbind (Err e) f = Err e"
  by (simp_all add: rbind_def)

lemma rbind_Ok_iff: "rbind r f = Ok b \<longleftrightarrow> (\<exists>a. r = Ok a \<and> f a = Ok b)"
  by (cases r) auto

lemma rbind_cong [fundef_cong]:
  "r = r' \<Longrightarrow> (\<And>a. r' = Ok a \<Longrightarrow> f a = g a) \<Longrightarrow> rbind r f = rbind r' g"
  by (cases r') auto

definition ASSERT :: "string \<Rightarrow> bool \<Rightarrow> unit result" where
  "ASSERT msg b = (if b then Ok () else Err (AssertionFailed msg))"

lemma ASSERT_Ok_iff [simp]: "ASSERT msg b = Ok u \<longleftrightarrow> b"
  by (simp add: ASSERT_def)

definition returned :: "'a option \<Rightarrow> 'a result" where
  "returned r = (case r of None \<Rightarrow> Err Diverged | Some a \<Rightarrow> Ok a)"

lemma returned_simps [simp]:
  "returned (Some a) = Ok a" "returned None = Err Diverged"
  by (simp_all add: returned_def)

section \<open>Words and natural numbers\<close>

lemmas [word_nat] = word_less_nat_alt word_le_nat_alt unat_div unat_mod

lemma unat_Suc_less [word_nat]: "i < n \<Longrightarrow> unat (i + 1) = Suc (unat i)" for i n :: "'a::len word"
proof -
  assume "i < n"
  then have "i \<noteq> - 1" by (metis max_word_max not_less)
  then have "1 + i \<noteq> 0" by (metis max_word_wrap add.commute)
  then show ?thesis by (metis unatSuc add.commute)
qed

lemma unat_bound: "unat w < 2 ^ LENGTH('a)" for w :: "'a::len word"
  by (rule unsigned_less)

lemma unat64_bound: "unat (w :: u64) < 2 ^ 64"
  using unat_bound [of w] by simp

lemma unat32_bound: "unat (w :: u32) < 2 ^ 32"
  using unat_bound [of w] by simp

lemma unat_of_nat_small: "k < 2 ^ LENGTH('a) \<Longrightarrow> unat (of_nat k :: 'a::len word) = k"
  by (simp add: unsigned_of_nat take_bit_nat_eq_self)

lemma unat_of_nat_less: "k < unat n \<Longrightarrow> unat (of_nat k :: 'a word) = k" for n :: "'a::len word"
  by (meson less_trans unat_bound unat_of_nat_small)

lemma unat_ucast_up [simp]: "unat (ucast (w :: u32) :: u64) = unat w"
  using unat32_bound [of w] by (simp add: unsigned_ucast_eq take_bit_nat_eq_self)

lemma unat_add_no_wrap:
  "unat a + unat b < 2 ^ LENGTH('a) \<Longrightarrow> unat (a + b) = unat a + unat b" for a b :: "'a::len word"
  by (simp add: unat_add_lem [THEN iffD1])

lemma unat_mult_no_wrap:
  "unat a * unat b < 2 ^ LENGTH('a) \<Longrightarrow> unat (a * b) = unat a * unat b" for a b :: "'a::len word"
  by (simp add: unat_mult_lem [THEN iffD1])

lemma unat_sub_le: "b \<le> a \<Longrightarrow> unat (a - b) = unat a - unat b" for a b :: "'a::len word"
  by (simp add: unat_sub)

section \<open>The counting loop\<close>

text \<open>\<open>for (i = first; i < last; i++) body(i)\<close> over an unsigned index.\<close>

function for_loop :: "'a::len word \<Rightarrow> 'a word \<Rightarrow> ('a word \<Rightarrow> 's \<Rightarrow> 's) \<Rightarrow> 's \<Rightarrow> 's" where
  "for_loop i n body s = (if i < n then for_loop (i + 1) n body (body i s) else s)"
  by pat_completeness auto
termination
  by (relation "measure (\<lambda>(i, n, body, s). unat n - unat i)") (auto simp: word_nat)

declare for_loop.simps [simp del]

lemma for_loop_done [simp]: "\<not> i < n \<Longrightarrow> for_loop i n body s = s"
  by (simp add: for_loop.simps)

text \<open>The loop is a fold over the indices it visits.\<close>

lemma for_loop_fold:
  "for_loop i n body s = fold body (map of_nat [unat i..<unat n]) s"
proof (induction i n body s rule: for_loop.induct)
  case (1 i n body s)
  show ?case
  proof (cases "i < n")
    case True
    then have "[unat i..<unat n] = unat i # [unat (i + 1)..<unat n]"
      by (simp add: word_nat upt_conv_Cons)
    with 1 True show ?thesis by (simp add: for_loop.simps [of i n])
  qed (simp add: word_nat)
qed

text \<open>The proof rule: an invariant indexed by the loop counter.\<close>

lemma for_loop_rule:
  fixes i n :: "'a::len word"
  assumes "P (unat i) s"
    and "\<And>k s. unat i \<le> k \<Longrightarrow> k < unat n \<Longrightarrow> P k s \<Longrightarrow> P (Suc k) (body (of_nat k) s)"
  shows "P (max (unat i) (unat n)) (for_loop i n body s)"
  using assms
proof (induction i n body s rule: for_loop.induct)
  case (1 i n body s)
  show ?case
  proof (cases "i < n")
    case True
    have "P (unat (i + 1)) (body i s)"
      using 1(3) [of "unat i" s] 1(2) True by (simp add: word_nat)
    then have "P (max (unat (i + 1)) (unat n)) (for_loop (i + 1) n body (body i s))"
      using 1(1) [OF True] 1(3) True by (simp add: word_nat)
    with True show ?thesis by (simp add: for_loop.simps [of i n] word_nat max_def)
  next
    case False
    with 1(2) show ?thesis by (simp add: word_nat max_def)
  qed
qed

section \<open>Loops over an index until a getter fails\<close>

text \<open>
  \<open>for (unsigned i = 0; Get(i, item); i++) body(item)\<close>: \<open>Get\<close> fills \<open>item\<close> and returns true, or
  returns false; it may itself fault. If \<open>Get\<close> accepts every index the counter wraps and the loop
  never ends. \<open>index_loop\<close> folds a state through the body, \<open>index_find\<close> leaves at the first item
  the body accepts.
\<close>

function index_loop :: "(u32 \<Rightarrow> 'a option result) \<Rightarrow> ('a \<Rightarrow> 's \<Rightarrow> 's) \<Rightarrow> u32 \<Rightarrow> 's \<Rightarrow> 's result" where
  "index_loop get body i s =
     rbind (get i) (\<lambda>r. case r of None \<Rightarrow> Ok s
       | Some a \<Rightarrow> if i = - 1 then Err Diverged else index_loop get body (i + 1) (body a s))"
  by pat_completeness auto

lemma index_measure: "i \<noteq> - 1 \<Longrightarrow> 2 ^ 32 - unat (i + 1) < 2 ^ 32 - unat i" for i :: u32
proof -
  assume "i \<noteq> - 1"
  then have "1 + i \<noteq> 0" by (metis max_word_wrap add.commute)
  then have "unat (i + 1) = Suc (unat i)" by (metis unatSuc add.commute)
  then show ?thesis using unat32_bound [of i] by simp
qed

termination index_loop
  by (relation "measure (\<lambda>(get, body, i, s). 2 ^ 32 - unat i)") (simp_all add: index_measure del: power_numeral)

function index_find :: "(u32 \<Rightarrow> 'a option result) \<Rightarrow> ('a \<Rightarrow> 'r option result) \<Rightarrow> u32 \<Rightarrow> 'r option result" where
  "index_find get body i =
     rbind (get i) (\<lambda>r. case r of None \<Rightarrow> Ok None
       | Some a \<Rightarrow> rbind (body a) (\<lambda>b. case b of Some x \<Rightarrow> Ok (Some x)
         | None \<Rightarrow> if i = - 1 then Err Diverged else index_find get body (i + 1)))"
  by pat_completeness auto
termination index_find
  by (relation "measure (\<lambda>(get, body, i). 2 ^ 32 - unat i)") (simp_all add: index_measure del: power_numeral)

declare index_loop.simps [simp del] index_find.simps [simp del]

text \<open>What a getter enumerates, as a list; the loops then are the list functions.\<close>

definition enumerates :: "(u32 \<Rightarrow> 'a option result) \<Rightarrow> 'a list \<Rightarrow> bool" where
  "enumerates get xs \<longleftrightarrow> length xs < 2 ^ 32 \<and> (\<forall>i < length xs. get (of_nat i) = Ok (Some (xs ! i))) \<and>
     get (of_nat (length xs)) = Ok None"

fun find_list :: "('a \<Rightarrow> 'r option result) \<Rightarrow> 'a list \<Rightarrow> 'r option result" where
  "find_list body [] = Ok None"
| "find_list body (x # xs) = rbind (body x) (\<lambda>b. case b of Some r \<Rightarrow> Ok (Some r) | None \<Rightarrow> find_list body xs)"

lemma of_nat_not_max:
  assumes "i < n" "n < 2 ^ 32"
  shows "(of_nat i :: u32) \<noteq> - 1"
proof
  assume "(of_nat i :: u32) = - 1"
  then have "unat (of_nat i :: u32) = unat (- 1 :: u32)" by simp
  moreover have "unat (- 1 :: u32) = 2 ^ 32 - 1" by (simp add: unsigned_minus_1_eq_mask mask_eq_exp_minus_1)
  ultimately show False using assms by (simp add: unat_of_nat_small)
qed

lemma enumerates_next:
  assumes "enumerates get (ys @ x # zs)"
  shows "get (of_nat (length ys)) = Ok (Some x)" "(of_nat (length ys) :: u32) \<noteq> - 1"
    "(of_nat (length ys) + 1 :: u32) = of_nat (length (ys @ [x]))"
proof -
  have "length ys < length (ys @ x # zs)" by simp
  with assms of_nat_not_max [OF this] show "get (of_nat (length ys)) = Ok (Some x)"
    "(of_nat (length ys) :: u32) \<noteq> - 1"
    unfolding enumerates_def by (metis nth_append_length, metis)
qed simp

lemma index_loop_list:
  assumes "enumerates get xs"
  shows "index_loop get body 0 s = Ok (fold body xs s)"
proof -
  have "enumerates get (ys @ zs) \<Longrightarrow> index_loop get body (of_nat (length ys)) s = Ok (fold body zs s)" for ys zs
  proof (induction zs arbitrary: ys s)
    case Nil
    then show ?case by (simp add: enumerates_def index_loop.simps)
  next
    case (Cons x zs)
    show ?case
      using enumerates_next [OF Cons.prems] Cons.IH [of "ys @ [x]"] Cons.prems
      by (simp add: index_loop.simps [of _ _ "of_nat (length ys)"] add.commute)
  qed
  from this [of "[]"] assms show ?thesis by simp
qed

lemma index_find_list:
  assumes "enumerates get xs"
  shows "index_find get body 0 = find_list body xs"
proof -
  have "enumerates get (ys @ zs) \<Longrightarrow> index_find get body (of_nat (length ys)) = find_list body zs" for ys zs
  proof (induction zs arbitrary: ys)
    case Nil
    then show ?case by (simp add: enumerates_def index_find.simps)
  next
    case (Cons x zs)
    show ?case
      using enumerates_next [OF Cons.prems] Cons.IH [of "ys @ [x]"] Cons.prems
      by (simp add: index_find.simps [of _ _ "of_nat (length ys)"] add.commute)
  qed
  from this [of "[]"] assms show ?thesis by simp
qed

end
