(* ===== verification/HK_Fifo.thy ===== *)
theory HK_Fifo
  imports HK_Prelude
begin

text \<open>
  The contract both queues of \<open>Kernel/Lib\<close> keep: a first-in first-out container seen through
  a representation relation to lists. The intrusive queue and the ring buffer are its two
  providers; what their clients need (nothing is lost, duplicated or reordered over any
  sequence of operations) is proved here once.
\<close>

datatype 'a fifo_op = Put 'a | Get

text \<open>A run returns the elements it accepted, the elements it delivered and the final state.\<close>

fun fifo_run ::
    "('a \<Rightarrow> 's \<Rightarrow> bool \<times> 's) \<Rightarrow> ('s \<Rightarrow> 'a option \<times> 's) \<Rightarrow> 'a fifo_op list \<Rightarrow> 's
      \<Rightarrow> 'a list \<times> 'a list \<times> 's" where
  "fifo_run put get [] s = ([], [], s)"
| "fifo_run put get (Put x # ops) s =
     (case put x s of (ok, s1) \<Rightarrow>
        case fifo_run put get ops s1 of (ins, outs, s2) \<Rightarrow> (if ok then x # ins else ins, outs, s2))"
| "fifo_run put get (Get # ops) s =
     (case get s of (r, s1) \<Rightarrow>
        case fifo_run put get ops s1 of (ins, outs, s2) \<Rightarrow>
          (ins, case r of None \<Rightarrow> outs | Some x \<Rightarrow> x # outs, s2))"

locale fifo =
  fixes rep :: "'s \<Rightarrow> 'a list \<Rightarrow> bool"
    and put :: "'a \<Rightarrow> 's \<Rightarrow> bool \<times> 's"
    and get :: "'s \<Rightarrow> 'a option \<times> 's"
    and room :: "'a \<Rightarrow> 'a list \<Rightarrow> bool"
  assumes put_room: "rep s xs \<Longrightarrow> room x xs \<Longrightarrow> \<exists>s'. put x s = (True, s') \<and> rep s' (xs @ [x])"
    and put_full: "rep s xs \<Longrightarrow> \<not> room x xs \<Longrightarrow> put x s = (False, s)"
    and get_empty: "rep s [] \<Longrightarrow> get s = (None, s)"
    and get_first: "rep s (x # xs) \<Longrightarrow> \<exists>s'. get s = (Some x, s') \<and> rep s' xs"
begin

lemma put_cases:
  assumes "rep s xs"
  obtains s' where "room x xs" "put x s = (True, s')" "rep s' (xs @ [x])"
        | "\<not> room x xs" "put x s = (False, s)"
  using put_room put_full assms by metis

lemma get_cases:
  assumes "rep s xs"
  obtains "xs = []" "get s = (None, s)"
        | x ys s' where "xs = x # ys" "get s = (Some x, s')" "rep s' ys"
  using get_empty get_first assms by (metis list.exhaust)

lemma run_fifo:
  assumes "rep s xs" "fifo_run put get ops s = (ins, outs, s')"
  shows "\<exists>rest. rep s' rest \<and> xs @ ins = outs @ rest"
  using assms
proof (induction ops arbitrary: s xs ins outs)
  case Nil
  then show ?case by auto
next
  case (Cons a ops)
  show ?case
  proof (cases a)
    case (Put x)
    show ?thesis
      using Cons.prems(1)
    proof (cases rule: put_cases [where x = x])
      case (1 t)
      then obtain ins1 where r: "fifo_run put get ops t = (ins1, outs, s')" "ins = x # ins1"
        using Cons.prems(2) Put by (auto split: prod.splits)
      from Cons.IH [OF 1(3) r(1)] r(2) show ?thesis by auto
    next
      case 2
      then have "fifo_run put get ops s = (ins, outs, s')"
        using Cons.prems(2) Put by (auto split: prod.splits)
      then show ?thesis by (rule Cons.IH [OF Cons.prems(1)])
    qed
  next
    case Get
    show ?thesis
      using Cons.prems(1)
    proof (cases rule: get_cases)
      case 1
      then have "fifo_run put get ops s = (ins, outs, s')"
        using Cons.prems(2) Get by (auto split: prod.splits)
      then show ?thesis by (rule Cons.IH [OF Cons.prems(1)])
    next
      case (2 x ys t)
      then obtain outs1 where r: "fifo_run put get ops t = (ins, outs1, s')" "outs = x # outs1"
        using Cons.prems(2) Get by (auto split: prod.splits)
      from Cons.IH [OF 2(3) r(1)] r(2) 2(1) show ?thesis by auto
    qed
  qed
qed

text \<open>Started empty, the elements delivered are a prefix of the elements accepted.\<close>

lemma run_prefix:
  assumes "rep s []" "fifo_run put get ops s = (ins, outs, s')"
  shows "\<exists>rest. rep s' rest \<and> ins = outs @ rest"
  using run_fifo [OF assms] by simp

end

end
