(* ===== verification/HK_Queue.thy ===== *)
theory HK_Queue
  imports HK_Fifo
begin

text \<open>
  \<open>Kernel/Lib/Queue.h\<close>: the intrusive singly linked FIFO. The link member lives in the
  elements, so the model keeps it in a store \<open>'a \<Rightarrow> 'a option\<close> from element addresses to the
  link pointer (\<open>None\<close> is \<open>nullptr\<close>); the queue object itself is its two pointers. Several
  queues may share one store, as the ready queue and the semaphores do. The theory shows that
  each operation implements the corresponding operation on lists.
\<close>

section \<open>The model\<close>

type_synonym 'a links = "'a \<Rightarrow> 'a option"

record 'a queue =
  m_Head :: "'a option"
  m_Tail :: "'a option"

definition Queue_empty :: "'a queue" where
  "Queue_empty = \<lparr>m_Head = None, m_Tail = None\<rparr>"

definition Queue_IsEmpty :: "'a queue \<Rightarrow> bool" where
  "Queue_IsEmpty q = (m_Head q = None)"

definition Queue_First :: "'a queue \<Rightarrow> 'a option" where
  "Queue_First q = m_Head q"

definition Queue_Last :: "'a queue \<Rightarrow> 'a option" where
  "Queue_Last q = m_Tail q"

definition Queue_Next :: "'a links \<Rightarrow> 'a \<Rightarrow> 'a option" where
  "Queue_Next lk x = lk x"

definition Queue_Contains :: "'a links \<Rightarrow> 'a queue \<Rightarrow> 'a \<Rightarrow> bool" where
  "Queue_Contains lk q x = (m_Head q \<noteq> None \<and> (lk x \<noteq> None \<or> m_Tail q = Some x))"

definition Queue_Append :: "'a links \<Rightarrow> 'a queue \<Rightarrow> 'a \<Rightarrow> bool \<times> 'a links \<times> 'a queue" where
  "Queue_Append lk q x =
     (if Queue_Contains lk q x then (False, lk, q)
      else
        let lk1 = lk(x := None) in
        if m_Head q = None
        then (True, lk1, q\<lparr>m_Head := Some x, m_Tail := Some x\<rparr>)
        else (True, lk1(the (m_Tail q) := Some x), q\<lparr>m_Tail := Some x\<rparr>))"

definition Queue_Prepend :: "'a links \<Rightarrow> 'a queue \<Rightarrow> 'a \<Rightarrow> bool \<times> 'a links \<times> 'a queue" where
  "Queue_Prepend lk q x =
     (if Queue_Contains lk q x then (False, lk, q)
      else
        (True, lk(x := m_Head q),
         q\<lparr>m_Head := Some x, m_Tail := (if m_Tail q = None then Some x else m_Tail q)\<rparr>))"

definition Queue_InsertAfter ::
    "'a links \<Rightarrow> 'a queue \<Rightarrow> 'a \<Rightarrow> 'a \<Rightarrow> bool \<times> 'a links \<times> 'a queue" where
  "Queue_InsertAfter lk q after x =
     (if \<not> Queue_Contains lk q after \<or> Queue_Contains lk q x then (False, lk, q)
      else if m_Tail q = Some after then Queue_Append lk q x
      else (True, (lk(x := lk after))(after := Some x), q))"

definition Queue_Dequeue :: "'a links \<Rightarrow> 'a queue \<Rightarrow> 'a option \<times> 'a links \<times> 'a queue" where
  "Queue_Dequeue lk q =
     (case m_Head q of
        None \<Rightarrow> (None, lk, q)
      | Some x \<Rightarrow>
          (Some x, lk(x := None),
           q\<lparr>m_Head := lk x, m_Tail := (if lk x = None then None else m_Tail q)\<rparr>))"

text \<open>
  The scan of \<open>Remove\<close> for the predecessor of an element follows links until it meets
  \<open>nullptr\<close>. On a store with a cycle it would not end: \<open>None\<close> is "does not return".
\<close>

partial_function (option) Queue_FindPrevious ::
    "'a links \<Rightarrow> 'a option \<Rightarrow> 'a \<Rightarrow> 'a option option" where
  "Queue_FindPrevious lk current x =
     (case current of
        None \<Rightarrow> Some None
      | Some c \<Rightarrow> if lk c = Some x then Some (Some c) else Queue_FindPrevious lk (lk c) x)"

definition Queue_Remove :: "'a links \<Rightarrow> 'a queue \<Rightarrow> 'a \<Rightarrow> (bool \<times> 'a links \<times> 'a queue) option" where
  "Queue_Remove lk q x =
     (if \<not> Queue_Contains lk q x then Some (False, lk, q)
      else if m_Head q = Some x
      then (case Queue_Dequeue lk q of (_, lk', q') \<Rightarrow> Some (True, lk', q'))
      else
        (case Queue_FindPrevious lk (m_Head q) x of
           None \<Rightarrow> None
         | Some None \<Rightarrow> Some (False, lk, q)
         | Some (Some c) \<Rightarrow>
             Some (True, (lk(c := lk x))(x := None),
                   if m_Tail q = Some x then q\<lparr>m_Tail := Some c\<rparr> else q)))"

section \<open>Abstraction to lists\<close>

fun qpath :: "'a links \<Rightarrow> 'a option \<Rightarrow> 'a list \<Rightarrow> 'a option \<Rightarrow> bool" where
  "qpath lk p [] r = (p = r)"
| "qpath lk p (x # xs) r = (p = Some x \<and> qpath lk (lk x) xs r)"

definition qrep :: "'a links \<Rightarrow> 'a queue \<Rightarrow> 'a list \<Rightarrow> bool" where
  "qrep lk q xs \<longleftrightarrow>
     qpath lk (m_Head q) xs None \<and> distinct xs \<and> m_Tail q = (if xs = [] then None else Some (last xs))"

lemma qpath_append [simp]: "qpath lk p (xs @ ys) r \<longleftrightarrow> (\<exists>m. qpath lk p xs m \<and> qpath lk m ys r)"
  by (induction xs arbitrary: p) auto

lemma qpath_upd [simp]: "x \<notin> set xs \<Longrightarrow> qpath (lk(x := v)) p xs r = qpath lk p xs r"
  by (induction xs arbitrary: p) auto

lemma qpath_cong: "(\<And>x. x \<in> set xs \<Longrightarrow> lk x = lk' x) \<Longrightarrow> qpath lk p xs r = qpath lk' p xs r"
  by (induction xs arbitrary: p) auto

lemma qpath_head: "qpath lk p xs None \<Longrightarrow> p = (if xs = [] then None else Some (hd xs))"
  by (cases xs) auto

lemma qpath_None [simp]: "qpath lk None xs None \<longleftrightarrow> xs = []"
  by (cases xs) auto

lemma qpath_last: "qpath lk p xs None \<Longrightarrow> xs \<noteq> [] \<Longrightarrow> lk (last xs) = None"
  by (induction xs arbitrary: p) auto

lemma qpath_link:
  "qpath lk p (xs @ x # y # ys) None \<Longrightarrow> lk x = Some y"
  by (induction xs arbitrary: p) auto

lemma qpath_link_iff:
  assumes "qpath lk p xs None" "distinct xs" "x \<in> set xs"
  shows "lk x = None \<longleftrightarrow> x = last xs"
proof -
  obtain as bs where xs: "xs = as @ x # bs" by (meson assms(3) split_list)
  show ?thesis
  proof (cases bs)
    case Nil
    with xs assms(1) show ?thesis by (auto dest: qpath_last)
  next
    case (Cons b cs)
    with xs assms have "lk x = Some b" "x \<noteq> last xs" by (auto dest: qpath_link)
    then show ?thesis by simp
  qed
qed

lemma qrep_empty: "qrep lk Queue_empty []"
  by (simp add: qrep_def Queue_empty_def)

lemma qrep_IsEmpty: "qrep lk q xs \<Longrightarrow> Queue_IsEmpty q \<longleftrightarrow> xs = []"
  by (auto simp: qrep_def Queue_IsEmpty_def dest: qpath_head)

lemma qrep_First: "qrep lk q xs \<Longrightarrow> Queue_First q = (if xs = [] then None else Some (hd xs))"
  by (auto simp: qrep_def Queue_First_def dest: qpath_head)

lemma qrep_frame: "(\<And>x. x \<in> set xs \<Longrightarrow> lk x = lk' x) \<Longrightarrow> qrep lk q xs = qrep lk' q xs"
  unfolding qrep_def using qpath_cong [of xs lk lk'] by simp

text \<open>
  \<open>Contains\<close> reads the element's own link, so it answers for "queued anywhere": it is exact
  only for elements that are in this queue or in none.
\<close>

lemma Contains_member: "qrep lk q xs \<Longrightarrow> x \<in> set xs \<Longrightarrow> Queue_Contains lk q x"
  unfolding qrep_def Queue_Contains_def using qpath_link_iff [of lk "m_Head q" xs x]
  by (cases xs) auto

lemma Contains_unlinked: "qrep lk q xs \<Longrightarrow> x \<notin> set xs \<Longrightarrow> lk x = None \<Longrightarrow> \<not> Queue_Contains lk q x"
  by (auto simp: qrep_def Queue_Contains_def split: if_splits)


section \<open>The operations implement the list operations\<close>

lemma Append_new:
  assumes "qrep lk q xs" "x \<notin> set xs" "lk x = None"
  shows "\<exists>lk' q'. Queue_Append lk q x = (True, lk', q') \<and> qrep lk' q' (xs @ [x]) \<and>
    (\<forall>y. y \<notin> set (xs @ [x]) \<longrightarrow> lk' y = lk y)"
proof (cases "xs = []")
  case True
  with assms Contains_unlinked [OF assms] show ?thesis
    by (simp add: Queue_Append_def qrep_def)
next
  case False
  then obtain ys z where xs: "xs = ys @ [z]" by (metis rev_exhaust)
  moreover have "m_Head q \<noteq> None" using assms False by (cases xs) (auto simp: qrep_def)
  ultimately show ?thesis
    using assms Contains_unlinked [OF assms] by (auto simp: Queue_Append_def qrep_def Let_def)
qed

lemma Append_queued: "qrep lk q xs \<Longrightarrow> x \<in> set xs \<Longrightarrow> Queue_Append lk q x = (False, lk, q)"
  by (simp add: Queue_Append_def Contains_member)

lemma Prepend_new:
  assumes "qrep lk q xs" "x \<notin> set xs" "lk x = None"
  shows "\<exists>lk' q'. Queue_Prepend lk q x = (True, lk', q') \<and> qrep lk' q' (x # xs) \<and>
    (\<forall>y. y \<noteq> x \<longrightarrow> lk' y = lk y)"
  using assms Contains_unlinked [OF assms] by (simp add: Queue_Prepend_def qrep_def)

lemma InsertAfter_new:
  assumes "qrep lk q (xs @ a # ys)" "x \<notin> set (xs @ a # ys)" "lk x = None"
  shows "\<exists>lk' q'. Queue_InsertAfter lk q a x = (True, lk', q') \<and> qrep lk' q' (xs @ a # x # ys) \<and>
    (\<forall>y. y \<notin> set (xs @ a # x # ys) \<longrightarrow> lk' y = lk y)"
proof (cases ys)
  case Nil
  with Append_new [OF assms] assms Contains_unlinked [OF assms] Contains_member [OF assms(1), of a]
  show ?thesis by (auto simp: Queue_InsertAfter_def qrep_def)
next
  case (Cons b bs)
  with assms Contains_unlinked [OF assms] Contains_member [OF assms(1), of a]
  show ?thesis by (auto simp: Queue_InsertAfter_def qrep_def)
qed

lemma Dequeue_empty: "qrep lk q [] \<Longrightarrow> Queue_Dequeue lk q = (None, lk, q)"
  by (simp add: Queue_Dequeue_def qrep_def)

lemma Dequeue_first:
  assumes "qrep lk q (x # xs)"
  shows "\<exists>lk' q'. Queue_Dequeue lk q = (Some x, lk', q') \<and> qrep lk' q' xs \<and> lk' = lk(x := None)"
  using assms by (cases xs) (auto simp: Queue_Dequeue_def qrep_def)

lemma FindPrevious_found:
  assumes "qpath lk p (xs @ a # x # ys) None" "distinct (xs @ a # x # ys)"
  shows "Queue_FindPrevious lk p x = Some (Some a)"
  using assms
proof (induction xs arbitrary: p)
  case Nil
  then show ?case by (simp add: Queue_FindPrevious.simps)
next
  case (Cons y xs)
  then have "lk y \<noteq> Some x" by (cases xs) auto
  with Cons show ?case by (simp add: Queue_FindPrevious.simps [of _ "Some y"])
qed

lemma FindPrevious_absent:
  assumes "qpath lk p xs None" "x \<notin> set xs"
  shows "Queue_FindPrevious lk p x = Some None"
  using assms
proof (induction xs arbitrary: p)
  case Nil
  then show ?case by (simp add: Queue_FindPrevious.simps)
next
  case (Cons y xs)
  then have "lk y \<noteq> Some x" by (cases xs) auto
  with Cons show ?case by (simp add: Queue_FindPrevious.simps [of _ "Some y"])
qed

lemma Remove_member:
  assumes "qrep lk q (xs @ x # ys)"
  shows "\<exists>lk' q'. Queue_Remove lk q x = Some (True, lk', q') \<and> qrep lk' q' (xs @ ys) \<and> lk' x = None \<and>
    (\<forall>y. y \<notin> set (xs @ x # ys) \<longrightarrow> lk' y = lk y)"
proof (cases xs rule: rev_cases)
  case Nil
  with Dequeue_first [of lk q x ys] assms Contains_member [OF assms, of x]
  show ?thesis by (auto simp: Queue_Remove_def qrep_def)
next
  case (snoc zs a)
  have "Queue_FindPrevious lk (m_Head q) x = Some (Some a)"
    using assms snoc by (intro FindPrevious_found [of _ _ zs a x ys]) (auto simp: qrep_def)
  moreover have "m_Head q \<noteq> Some x"
    using assms snoc by (cases zs) (auto simp: qrep_def)
  ultimately show ?thesis
    using assms snoc Contains_member [OF assms, of x]
    by (cases ys) (auto simp: Queue_Remove_def qrep_def)
qed

text \<open>
  Removing an element that is not in this queue changes nothing and returns, whatever its
  link says (it may be queued elsewhere).
\<close>

lemma Remove_absent:
  assumes "qrep lk q xs" "x \<notin> set xs"
  shows "Queue_Remove lk q x = Some (False, lk, q)"
proof -
  have "Queue_FindPrevious lk (m_Head q) x = Some None"
    using assms FindPrevious_absent by (auto simp: qrep_def)
  moreover have "m_Head q \<noteq> Some x"
    using assms by (cases xs) (auto simp: qrep_def)
  ultimately show ?thesis by (simp add: Queue_Remove_def)
qed

section \<open>The queue as a FIFO\<close>

text \<open>A queue that owns its link store: every element outside the queue has a null link.\<close>

definition owned_rep :: "'a links \<times> 'a queue \<Rightarrow> 'a list \<Rightarrow> bool" where
  "owned_rep s xs \<longleftrightarrow> qrep (fst s) (snd s) xs \<and> (\<forall>x. x \<notin> set xs \<longrightarrow> fst s x = None)"

definition queue_put :: "'a \<Rightarrow> 'a links \<times> 'a queue \<Rightarrow> bool \<times> 'a links \<times> 'a queue" where
  "queue_put x s = Queue_Append (fst s) (snd s) x"

definition queue_get :: "'a links \<times> 'a queue \<Rightarrow> 'a option \<times> 'a links \<times> 'a queue" where
  "queue_get s = Queue_Dequeue (fst s) (snd s)"

interpretation intrusive: fifo owned_rep queue_put queue_get "\<lambda>x xs. x \<notin> set xs"
proof (unfold_locales, goal_cases)
  case (1 s xs x)
  with Append_new [of "fst s" "snd s" xs x] show ?case
    by (fastforce simp: owned_rep_def queue_put_def)
next
  case (2 s xs x)
  then show ?case by (cases s) (auto simp: owned_rep_def queue_put_def intro: Append_queued)
next
  case (3 s)
  then show ?case by (cases s) (simp add: owned_rep_def queue_get_def Dequeue_empty)
next
  case (4 s x xs)
  with Dequeue_first [of "fst s" "snd s" x xs] show ?case
    by (auto simp: owned_rep_def queue_get_def)
qed

section \<open>Properties\<close>

text \<open>
  C16: Over any sequence of \<open>Append\<close> and \<open>Dequeue\<close> calls on an intrusive queue that starts as the
  list \<open>xs\<close>, the elements delivered followed by the elements still queued are exactly the initial
  elements followed by the accepted ones, in order: nothing is lost, duplicated or reordered.
\<close>

theorem Queue_run_fifo:
  assumes "owned_rep s xs" "fifo_run queue_put queue_get ops s = (ins, outs, s')"
  shows "\<exists>rest. owned_rep s' rest \<and> xs @ ins = outs @ rest"
  by (rule intrusive.run_fifo [OF assms])

theorem Queue_run_fifo_witness:
  "\<exists>rest. owned_rep (snd (snd (fifo_run queue_put queue_get [Put 1, Put 2, Put 1, Get, Put 3, Get] (\<lambda>_. None, Queue_empty)))) rest
     \<and> [] @ [1, 2, 3] = [1, 2] @ (rest :: nat list)"
proof (rule Queue_run_fifo [where s = "(\<lambda>_. None, Queue_empty)"
      and ops = "[Put 1, Put 2, Put 1, Get, Put 3, Get]"])
  show "owned_rep (\<lambda>_. None, Queue_empty) []"
    by (simp add: owned_rep_def qrep_empty)
qed (simp add: queue_put_def queue_get_def Queue_Append_def Queue_Dequeue_def Queue_empty_def Queue_Contains_def)

text \<open>
  C17: \<open>Remove\<close> takes exactly the given element out of a queue, wherever it stands: it returns true,
  the remaining elements keep their order, the element's link is cleared, and no link of an element
  outside the queue changes. The scan for the predecessor terminates.
\<close>

theorem Queue_Remove_correct:
  assumes "qrep lk q (xs @ x # ys)"
  shows "\<exists>lk' q'. Queue_Remove lk q x = Some (True, lk', q') \<and> qrep lk' q' (xs @ ys) \<and> lk' x = None \<and>
    (\<forall>y. y \<notin> set (xs @ x # ys) \<longrightarrow> lk' y = lk y)"
  by (rule Remove_member [OF assms])

theorem Queue_Remove_correct_witness:
  "\<exists>lk' q'. Queue_Remove (\<lambda>n :: nat. if n = 1 then Some 2 else if n = 2 then Some 3 else None)
       \<lparr>m_Head = Some 1, m_Tail = Some 3\<rparr> 2 = Some (True, lk', q') \<and> qrep lk' q' ([1] @ [3]) \<and> lk' 2 = None \<and>
    (\<forall>y. y \<notin> set ([1] @ 2 # [3]) \<longrightarrow> lk' y = (if y = 1 then Some 2 else if y = 2 then Some 3 else None))"
  by (rule Queue_Remove_correct) (simp add: qrep_def)

end
