(* ===== verification/HK_RingBuffer.thy ===== *)
theory HK_RingBuffer
  imports HK_Fifo
begin

text \<open>
  \<open>Kernel/Lib/RingBuffer.h\<close>: the fixed capacity circular buffer. The template parameter
  \<open>CAPACITY\<close> is an argument of the operations. The buffer implements a FIFO that holds at most
  \<open>CAPACITY - 1\<close> elements: one slot stays empty to tell full from empty.
\<close>

section \<open>The model\<close>

record 'a ring =
  m_Data :: "'a list"
  m_Write :: u32
  m_Read :: u32

definition Ring_init :: "u32 \<Rightarrow> 'a \<Rightarrow> 'a ring" where
  "Ring_init CAPACITY dflt = \<lparr>m_Data = replicate (unat CAPACITY) dflt, m_Write = 0, m_Read = 0\<rparr>"

definition Ring_Produce :: "u32 \<Rightarrow> 'a ring \<Rightarrow> 'a \<Rightarrow> bool \<times> 'a ring" where
  "Ring_Produce CAPACITY rb v =
     (let nextWrite = (m_Write rb + 1) mod CAPACITY in
      if nextWrite = m_Read rb then (False, rb)
      else (True, rb\<lparr>m_Data := (m_Data rb)[unat (m_Write rb) := v], m_Write := nextWrite\<rparr>))"

definition Ring_IsEmpty :: "'a ring \<Rightarrow> bool" where
  "Ring_IsEmpty rb = (m_Read rb = m_Write rb)"

definition Ring_Consume :: "u32 \<Rightarrow> 'a ring \<Rightarrow> 'a option \<times> 'a ring" where
  "Ring_Consume CAPACITY rb =
     (if Ring_IsEmpty rb then (None, rb)
      else (Some (m_Data rb ! unat (m_Read rb)), rb\<lparr>m_Read := (m_Read rb + 1) mod CAPACITY\<rparr>))"

definition Ring_Count :: "u32 \<Rightarrow> 'a ring \<Rightarrow> u32" where
  "Ring_Count CAPACITY rb =
     (if m_Write rb \<ge> m_Read rb then m_Write rb - m_Read rb
      else CAPACITY - m_Read rb + m_Write rb)"

definition Ring_Capacity :: "u32 \<Rightarrow> u32" where
  "Ring_Capacity CAPACITY = CAPACITY - 1"

section \<open>Abstraction to lists\<close>

definition ring_len :: "nat \<Rightarrow> nat \<Rightarrow> nat \<Rightarrow> nat" where
  "ring_len n w r = (if r \<le> w then w - r else n - r + w)"

definition ring_rep :: "u32 \<Rightarrow> 'a ring \<Rightarrow> 'a list \<Rightarrow> bool" where
  "ring_rep CAPACITY rb xs \<longleftrightarrow>
     1 < CAPACITY \<and> length (m_Data rb) = unat CAPACITY \<and> m_Write rb < CAPACITY \<and> m_Read rb < CAPACITY \<and>
     length xs = ring_len (unat CAPACITY) (unat (m_Write rb)) (unat (m_Read rb)) \<and>
     (\<forall>k < length xs. xs ! k = m_Data rb ! ((unat (m_Read rb) + k) mod unat CAPACITY))"

lemma unat_next:
  fixes i c :: u32
  assumes "i < c"
  shows "unat ((i + 1) mod c) = (unat i + 1) mod unat c"
  using assms by (simp add: unat_mod unat_Suc_less)

lemma next_less: "1 < c \<Longrightarrow> (i + 1) mod c < c" for i c :: u32
  by (rule word_mod_less_divisor) (auto simp: word_nat)

lemma mod_next: "i < n \<Longrightarrow> (i + 1) mod n = (if i + 1 = n then 0 else i + 1)" for i n :: nat
  by auto

lemma mod_wrap: "r < n \<Longrightarrow> k < n \<Longrightarrow> (r + k) mod n = (if r + k < n then r + k else r + k - n)" for r k n :: nat
  by (auto simp: mod_if)

lemma ring_len_less: "w < n \<Longrightarrow> r < n \<Longrightarrow> ring_len n w r < n"
  by (auto simp: ring_len_def)

lemma ring_len_full: "w < n \<Longrightarrow> r < n \<Longrightarrow> (w + 1) mod n = r \<longleftrightarrow> ring_len n w r = n - 1"
  by (subst mod_next) (auto simp: ring_len_def)

lemma ring_len_put:
  "w < n \<Longrightarrow> r < n \<Longrightarrow> ring_len n w r < n - 1 \<Longrightarrow> ring_len n ((w + 1) mod n) r = Suc (ring_len n w r)"
  by (subst mod_next) (auto simp: ring_len_def split: if_splits)

lemma ring_len_get:
  "w < n \<Longrightarrow> r < n \<Longrightarrow> ring_len n w r = Suc m \<Longrightarrow> ring_len n w ((r + 1) mod n) = m"
  by (subst mod_next) (auto simp: ring_len_def split: if_splits)

lemma ring_len_slot: "w < n \<Longrightarrow> r < n \<Longrightarrow> (r + ring_len n w r) mod n = w"
  using ring_len_less [of w n r] by (subst mod_wrap) (auto simp: ring_len_def)

lemma ring_len_other: "w < n \<Longrightarrow> r < n \<Longrightarrow> k < ring_len n w r \<Longrightarrow> (r + k) mod n \<noteq> w"
  using ring_len_less [of w n r] by (subst mod_wrap) (auto simp: ring_len_def split: if_splits)

lemma ring_rep_init: "1 < CAPACITY \<Longrightarrow> ring_rep CAPACITY (Ring_init CAPACITY d) []"
  by (auto simp: ring_rep_def Ring_init_def ring_len_def word_nat)

lemma ring_rep_length: "ring_rep CAPACITY rb xs \<Longrightarrow> length xs < unat CAPACITY"
  by (auto simp: ring_rep_def ring_len_def word_nat)

lemma ring_rep_IsEmpty: "ring_rep CAPACITY rb xs \<Longrightarrow> Ring_IsEmpty rb \<longleftrightarrow> xs = []"
  by (auto simp: ring_rep_def ring_len_def Ring_IsEmpty_def word_nat word_unat_eq_iff split: if_splits)

lemma ring_rep_Count:
  assumes "ring_rep CAPACITY rb xs"
  shows "unat (Ring_Count CAPACITY rb) = length xs"
proof -
  have c: "unat (CAPACITY - m_Read rb) = unat CAPACITY - unat (m_Read rb)"
    using assms by (intro unat_sub_le) (auto simp: ring_rep_def)
  have "unat CAPACITY - unat (m_Read rb) + unat (m_Write rb) < 2 ^ 32" if "m_Write rb < m_Read rb"
    using that assms unat_bound [of CAPACITY] by (auto simp: ring_rep_def word_nat)
  then show ?thesis
    using assms c unat_add_no_wrap [of "CAPACITY - m_Read rb" "m_Write rb"]
    by (auto simp: Ring_Count_def ring_rep_def ring_len_def unat_sub_le word_nat)
qed

lemma Produce_full:
  assumes "ring_rep CAPACITY rb xs"
  shows "(m_Write rb + 1) mod CAPACITY = m_Read rb \<longleftrightarrow> length xs = unat CAPACITY - 1"
proof -
  have "unat (m_Write rb) < unat CAPACITY" "unat (m_Read rb) < unat CAPACITY"
    using assms by (auto simp: ring_rep_def word_nat)
  from ring_len_full [OF this] show ?thesis
    using assms unat_next [of "m_Write rb" CAPACITY] by (simp add: ring_rep_def word_unat_eq_iff)
qed

lemma Produce_room:
  assumes rep: "ring_rep CAPACITY rb xs" and room: "length xs < unat CAPACITY - 1"
  shows "\<exists>rb'. Ring_Produce CAPACITY rb x = (True, rb') \<and> ring_rep CAPACITY rb' (xs @ [x])"
proof -
  let ?n = "unat CAPACITY" and ?w = "unat (m_Write rb)" and ?r = "unat (m_Read rb)"
  let ?rb = "rb\<lparr>m_Data := (m_Data rb)[?w := x], m_Write := (m_Write rb + 1) mod CAPACITY\<rparr>"
  have b: "?w < ?n" "?r < ?n" "1 < ?n" "length (m_Data rb) = ?n" "length xs = ring_len ?n ?w ?r"
    using rep by (auto simp: ring_rep_def word_nat)
  have len: "ring_len ?n (unat ((m_Write rb + 1) mod CAPACITY)) ?r = Suc (length xs)"
    using ring_len_put [OF b(1,2)] rep unat_next [of "m_Write rb" CAPACITY] b(5) room
    by (simp add: ring_rep_def)
  have "(xs @ [x]) ! k = (m_Data rb)[?w := x] ! ((?r + k) mod ?n)" if "k < Suc (length xs)" for k
  proof (cases "k = length xs")
    case True
    then have "(?r + k) mod ?n = ?w"
      using ring_len_slot [OF b(1,2)] b(5) by simp
    with True b(1,4) show ?thesis by (simp add: nth_append)
  next
    case False
    with that have k: "k < length xs" by simp
    then have "(?r + k) mod ?n \<noteq> ?w"
      using ring_len_other [OF b(1,2)] b(5) by simp
    with k rep show ?thesis by (simp add: nth_append ring_rep_def)
  qed
  then have "ring_rep CAPACITY ?rb (xs @ [x])"
    using rep len by (simp add: ring_rep_def next_less)
  moreover have "Ring_Produce CAPACITY rb x = (True, ?rb)"
    using Produce_full [OF rep] room by (simp add: Ring_Produce_def Let_def)
  ultimately show ?thesis by blast
qed

lemma Consume_first:
  assumes rep: "ring_rep CAPACITY rb (x # xs)"
  shows "\<exists>rb'. Ring_Consume CAPACITY rb = (Some x, rb') \<and> ring_rep CAPACITY rb' xs"
proof -
  let ?n = "unat CAPACITY" and ?w = "unat (m_Write rb)" and ?r = "unat (m_Read rb)"
  let ?rb = "rb\<lparr>m_Read := (m_Read rb + 1) mod CAPACITY\<rparr>"
  have b: "?w < ?n" "?r < ?n" "1 < ?n" "Suc (length xs) = ring_len ?n ?w ?r"
    and el: "\<And>k. k < Suc (length xs) \<Longrightarrow> (x # xs) ! k = m_Data rb ! ((?r + k) mod ?n)"
    using rep by (auto simp: ring_rep_def word_nat)
  have nr: "unat ((m_Read rb + 1) mod CAPACITY) = (?r + 1) mod ?n"
    using rep unat_next [of "m_Read rb" CAPACITY] by (simp add: ring_rep_def)
  have len: "ring_len ?n ?w (unat ((m_Read rb + 1) mod CAPACITY)) = length xs"
    using ring_len_get [OF b(1,2)] b(4) nr by simp
  have "xs ! k = m_Data rb ! ((unat ((m_Read rb + 1) mod CAPACITY) + k) mod ?n)" if "k < length xs" for k
  proof -
    have "(?r + Suc k) mod ?n = (unat ((m_Read rb + 1) mod CAPACITY) + k) mod ?n"
      by (simp add: nr mod_add_left_eq)
    with el [of "Suc k"] that show ?thesis by simp
  qed
  then have "ring_rep CAPACITY ?rb xs"
    using rep len by (simp add: ring_rep_def next_less)
  moreover have "Ring_Consume CAPACITY rb = (Some x, ?rb)"
    using ring_rep_IsEmpty [OF rep] el [of 0] b by (simp add: Ring_Consume_def)
  ultimately show ?thesis by blast
qed

section \<open>The ring buffer as a FIFO\<close>

interpretation ring: fifo "ring_rep CAPACITY" "\<lambda>x rb. Ring_Produce CAPACITY rb x" "Ring_Consume CAPACITY"
    "\<lambda>x xs. length xs < unat (Ring_Capacity CAPACITY)" for CAPACITY
proof (unfold_locales, goal_cases)
  case (1 s xs x)
  then have "unat (Ring_Capacity CAPACITY) = unat CAPACITY - 1"
    by (simp add: Ring_Capacity_def ring_rep_def unat_sub_le order_less_imp_le)
  with 1 Produce_room show ?case by simp
next
  case (2 s xs x)
  then have "unat (Ring_Capacity CAPACITY) = unat CAPACITY - 1"
    by (simp add: Ring_Capacity_def ring_rep_def unat_sub_le order_less_imp_le)
  with 2 ring_rep_length [OF 2(1)] have "length xs = unat CAPACITY - 1" by simp
  with 2 Produce_full [OF 2(1)] show ?case by (simp add: Ring_Produce_def)
next
  case (3 s)
  then show ?case by (simp add: Ring_Consume_def ring_rep_IsEmpty)
next
  case (4 s x xs)
  then show ?case by (rule Consume_first)
qed

section \<open>Properties\<close>

text \<open>
  C18: Over any sequence of \<open>Produce\<close> and \<open>Consume\<close> calls on a ring buffer that holds \<open>xs\<close>, what is
  delivered followed by what the buffer still holds is \<open>xs\<close> followed by the accepted elements in
  order, and \<open>Count\<close> is the number of elements held, which never exceeds \<open>Capacity\<close>.
\<close>

theorem Ring_run_fifo:
  assumes "ring_rep CAPACITY s xs"
    and "fifo_run (\<lambda>x rb. Ring_Produce CAPACITY rb x) (Ring_Consume CAPACITY) ops s = (ins, outs, s')"
  shows "\<exists>rest. ring_rep CAPACITY s' rest \<and> xs @ ins = outs @ rest \<and>
    unat (Ring_Count CAPACITY s') = length rest \<and> Ring_Count CAPACITY s' \<le> Ring_Capacity CAPACITY"
proof -
  obtain rest where r: "ring_rep CAPACITY s' rest" "xs @ ins = outs @ rest"
    using ring.run_fifo [OF assms] by blast
  have "1 < CAPACITY" using r(1) by (simp add: ring_rep_def)
  then have "unat (Ring_Capacity CAPACITY) = unat CAPACITY - 1"
    by (simp add: Ring_Capacity_def unat_sub_le word_nat)
  with r ring_rep_Count [OF r(1)] ring_rep_length [OF r(1)] show ?thesis
    by (auto simp: word_nat)
qed

theorem Ring_run_fifo_witness:
  "\<exists>rest. ring_rep 3 (snd (snd (fifo_run (\<lambda>x rb. Ring_Produce 3 rb x) (Ring_Consume 3)
        [Put 7, Put 8, Put 9, Get, Put 10] (Ring_init 3 0)))) rest \<and> [] @ [7, 8, 10 :: nat] = [7] @ rest \<and>
    unat (Ring_Count 3 (snd (snd (fifo_run (\<lambda>x rb. Ring_Produce 3 rb x) (Ring_Consume 3)
        [Put 7, Put 8, Put 9, Get, Put 10] (Ring_init 3 (0 :: nat)))))) = length rest \<and>
    Ring_Count 3 (snd (snd (fifo_run (\<lambda>x rb. Ring_Produce 3 rb x) (Ring_Consume 3)
        [Put 7, Put 8, Put 9, Get, Put 10] (Ring_init 3 (0 :: nat))))) \<le> Ring_Capacity 3"
proof (rule Ring_run_fifo [where s = "Ring_init 3 0" and ops = "[Put 7, Put 8, Put 9, Get, Put 10]"])
  show "ring_rep 3 (Ring_init 3 0) ([] :: nat list)" by (rule ring_rep_init) simp
qed code_simp

end
