(* ===== verification/HK_Math.thy ===== *)
theory HK_Math
  imports HK_Prelude
begin

text \<open>
  \<open>Kernel/Lib/Math.h\<close>, at the width its callers use, and the alignment facts the memory
  components need. Every alignment in the kernel is a power of two; the page and frame size is
  4 KiB.
\<close>

definition Math_Min :: "u64 \<Rightarrow> u64 \<Rightarrow> u64" where
  "Math_Min l r = (if l > r then r else l)"

definition Math_Max :: "u64 \<Rightarrow> u64 \<Rightarrow> u64" where
  "Math_Max l r = (if l > r then l else r)"

definition Math_AlignUp :: "u64 \<Rightarrow> u64 \<Rightarrow> u64" where
  "Math_AlignUp v a = (v + a - 1) div a * a"

definition Math_AlignDown :: "u64 \<Rightarrow> u64 \<Rightarrow> u64" where
  "Math_AlignDown v a = v div a * a"

lemma Math_Min_min: "Math_Min l r = min l r"
  by (auto simp: Math_Min_def min_def)

lemma Math_Max_max: "Math_Max l r = max l r"
  by (auto simp: Math_Max_def max_def)

lemma unat_Math_Min: "unat (Math_Min l r) = min (unat l) (unat r)"
  by (auto simp: Math_Min_def word_nat)

lemma unat_Math_Max: "unat (Math_Max l r) = max (unat l) (unat r)"
  by (auto simp: Math_Max_def word_nat)

lemma unat_AlignDown: "unat (Math_AlignDown v a) = unat v div unat a * unat a"
proof -
  have "unat v div unat a * unat a \<le> unat v" by simp
  then have "unat (v div a) * unat a < 2 ^ 64"
    using le_less_trans [OF _ unat_bound [of v]] by (simp add: word_nat)
  then show ?thesis by (simp add: Math_AlignDown_def unat_mult_no_wrap word_nat)
qed

lemma unat_AlignUp:
  assumes "0 < a" "unat v + unat a \<le> 2 ^ 64"
  shows "unat (Math_AlignUp v a) = (unat v + unat a - 1) div unat a * unat a"
proof -
  have a: "0 < unat a" using assms by (simp add: word_nat)
  have "unat (v + (a - 1)) = unat v + (unat a - 1)"
    using assms a by (subst unat_add_no_wrap) (auto simp: unat_sub_le word_nat unat_minus_one)
  then have s: "unat (v + a - 1) = unat v + unat a - 1"
    using a by (simp add: algebra_simps)
  show ?thesis
    using unat_AlignDown [of "v + a - 1" a] s by (simp add: Math_AlignUp_def Math_AlignDown_def)
qed

lemma AlignUp_bounds:
  assumes "0 < a" "unat v + unat a \<le> 2 ^ 64"
  shows "unat v \<le> unat (Math_AlignUp v a)" "unat (Math_AlignUp v a) < unat v + unat a"
    "unat a dvd unat (Math_AlignUp v a)"
proof -
  let ?k = "unat v + unat a - 1"
  have a: "0 < unat a" using assms by (simp add: word_nat)
  have "?k div unat a * unat a + ?k mod unat a = ?k" "?k mod unat a < unat a"
    using a by simp_all
  with unat_AlignUp [OF assms] a
  show "unat v \<le> unat (Math_AlignUp v a)" "unat (Math_AlignUp v a) < unat v + unat a" by linarith+
  show "unat a dvd unat (Math_AlignUp v a)" using unat_AlignUp [OF assms] by simp
qed

section \<open>Masking to a page\<close>

lemma and_not_mask_nat: "unat (x AND NOT (mask n)) = unat x div 2 ^ n * 2 ^ n" for x :: "'a::len word"
proof -
  have "x AND NOT (mask n) = push_bit n (drop_bit n x)"
    by (rule bit_word_eqI) (auto simp: bit_simps)
  then have "unat (x AND NOT (mask n)) = take_bit LENGTH('a) (push_bit n (drop_bit n (unat x)))"
    by (simp add: unsigned_push_bit_eq unsigned_drop_bit_eq take_bit_nat_eq_self unat_bound)
  also have "push_bit n (drop_bit n (unat x)) = unat x div 2 ^ n * 2 ^ n"
    by (simp add: push_bit_eq_mult drop_bit_eq_div)
  also have "take_bit LENGTH('a) (unat x div 2 ^ n * 2 ^ n) = unat x div 2 ^ n * 2 ^ n"
    using unat_bound [of x] by (intro take_bit_nat_eq_self) (meson div_times_less_eq_dividend le_less_trans)
  finally show ?thesis .
qed

lemma and_mask_nat: "unat (x AND mask n) = unat x mod 2 ^ n" for x :: "'a::len word"
  by (metis take_bit_eq_mask take_bit_eq_mod unsigned_take_bit_eq)

lemma page_mask: "0xFFF = (mask 12 :: u64)" "NOT 0xFFF = (NOT (mask 12) :: u64)"
  by (simp_all add: mask_eq_exp_minus_1)

end
