(* ===== verification/HK_String.thy ===== *)
theory HK_String
  imports HK_Math
begin

text \<open>
  \<open>Kernel/Lib/String.cpp\<close> over byte addressed memory, and the little-endian loads every reader of
  firmware tables uses. A pointer is its 64-bit address and the null pointer is 0; \<open>char\<close> is signed
  on this target, so a character is promoted to \<open>int\<close> by sign extension. The loops that stop at a
  terminating zero return \<open>None\<close> when there is none.
\<close>

type_synonym memory = "u64 \<Rightarrow> u8"

definition peek16 :: "memory \<Rightarrow> u64 \<Rightarrow> u16" where
  "peek16 m a = ucast (m a) OR push_bit 8 (ucast (m (a + 1)))"

definition peek32 :: "memory \<Rightarrow> u64 \<Rightarrow> u32" where
  "peek32 m a = ucast (peek16 m a) OR push_bit 16 (ucast (peek16 m (a + 2)))"

definition peek64 :: "memory \<Rightarrow> u64 \<Rightarrow> u64" where
  "peek64 m a = ucast (peek32 m a) OR push_bit 32 (ucast (peek32 m (a + 4)))"

definition char_to_int :: "u8 \<Rightarrow> u32" where
  "char_to_int c = scast c"

section \<open>Strings\<close>

partial_function (option) strchrnul_scan :: "memory \<Rightarrow> u64 \<Rightarrow> u32 \<Rightarrow> u64 option" where
  "strchrnul_scan m InString InChar =
     (if m InString \<noteq> 0 \<and> char_to_int (m InString) \<noteq> InChar
      then strchrnul_scan m (InString + 1) InChar else Some InString)"

definition strchrnul :: "memory \<Rightarrow> u64 \<Rightarrow> u32 \<Rightarrow> u64 option" where
  "strchrnul m InString InChar =
     (if InString \<noteq> 0 then strchrnul_scan m InString InChar else Some InString)"

definition strchr :: "memory \<Rightarrow> u64 \<Rightarrow> u32 \<Rightarrow> u64 option" where
  "strchr m InString InChar =
     (if InString \<noteq> 0
      then case strchrnul m InString InChar of None \<Rightarrow> None
        | Some found \<Rightarrow> Some (if char_to_int (m found) = InChar then found else 0)
      else Some 0)"

partial_function (option) strcmp_scan :: "memory \<Rightarrow> u64 \<Rightarrow> u64 \<Rightarrow> u32 option" where
  "strcmp_scan m InLeft InRight =
     (if m InLeft = m InRight \<and> m InLeft \<noteq> 0
      then strcmp_scan m (InLeft + 1) (InRight + 1)
      else Some (char_to_int (m InLeft) - char_to_int (m InRight)))"

definition strcmp :: "memory \<Rightarrow> u64 \<Rightarrow> u64 \<Rightarrow> u32 option" where
  "strcmp m InLeft InRight =
     (if InLeft = 0 \<or> InRight = 0 then Some 0 else strcmp_scan m InLeft InRight)"

function strncmp_from :: "memory \<Rightarrow> u64 \<Rightarrow> u64 \<Rightarrow> u64 \<Rightarrow> u64 \<Rightarrow> u32" where
  "strncmp_from m InLeft InRight InCount i =
     (if i < InCount then
        if m (InLeft + i) \<noteq> m (InRight + i)
        then char_to_int (m (InLeft + i)) - char_to_int (m (InRight + i))
        else if m (InLeft + i) = 0 then 0
        else strncmp_from m InLeft InRight InCount (i + 1)
      else 0)"
  by auto
termination
  by (relation "measure (\<lambda>(m, l, r, n, i). unat n - unat i)")
    (auto simp: word_nat unat_Suc_less)

definition strncmp :: "memory \<Rightarrow> u64 \<Rightarrow> u64 \<Rightarrow> u64 \<Rightarrow> u32" where
  "strncmp m InLeft InRight InCount =
     (if InLeft = 0 \<or> InRight = 0 then 0 else strncmp_from m InLeft InRight InCount 0)"

partial_function (option) strlen_from :: "memory \<Rightarrow> u64 \<Rightarrow> u64 \<Rightarrow> u64 option" where
  "strlen_from m InString len =
     (if m (InString + len) \<noteq> 0 then strlen_from m InString (len + 1) else Some len)"

definition strlen :: "memory \<Rightarrow> u64 \<Rightarrow> u64 option" where
  "strlen m InString = (if InString \<noteq> 0 then strlen_from m InString 0 else Some 0)"

partial_function (option) strcpy_loop :: "memory \<Rightarrow> u64 \<Rightarrow> u64 \<Rightarrow> memory option" where
  "strcpy_loop m OutDest InSource =
     (let c = m InSource; m' = m(OutDest := c) in
      if c \<noteq> 0 then strcpy_loop m' (OutDest + 1) (InSource + 1) else Some m')"

definition strcpy :: "memory \<Rightarrow> u64 \<Rightarrow> u64 \<Rightarrow> memory option" where
  "strcpy m OutDest InSource =
     (if OutDest \<noteq> 0 \<and> InSource \<noteq> 0 then strcpy_loop m OutDest InSource else Some m)"

function strncpy_loop :: "memory \<Rightarrow> u64 \<Rightarrow> u64 \<Rightarrow> u64 \<Rightarrow> memory" where
  "strncpy_loop m OutDest InSource InCount =
     (if InCount \<noteq> 0 then
        let c = m InSource; m' = m(OutDest := c) in
        if c \<noteq> 0 then strncpy_loop m' (OutDest + 1) (InSource + 1) (InCount - 1) else m'
      else m)"
  by auto
termination
  by (relation "measure (\<lambda>(m, d, s, n). unat n)") (auto simp: unat_minus_one unat_gt_0)

definition strncpy :: "memory \<Rightarrow> u64 \<Rightarrow> u64 \<Rightarrow> u64 \<Rightarrow> memory" where
  "strncpy m OutDest InSource InCount =
     (if OutDest \<noteq> 0 \<and> InSource \<noteq> 0 then strncpy_loop m OutDest InSource InCount else m)"

declare strncmp_from.simps [simp del] strncpy_loop.simps [simp del]

section \<open>Blocks of memory\<close>

definition memcpy :: "memory \<Rightarrow> u64 \<Rightarrow> u64 \<Rightarrow> u64 \<Rightarrow> memory" where
  "memcpy m OutDest InSource InSize =
     for_loop 0 InSize (\<lambda>i m. m(OutDest + i := m (InSource + i))) m"

function memmove_down :: "memory \<Rightarrow> u64 \<Rightarrow> u64 \<Rightarrow> u64 \<Rightarrow> memory" where
  "memmove_down m OutDest InSource i =
     (if i \<noteq> 0 then memmove_down (m(OutDest + (i - 1) := m (InSource + (i - 1)))) OutDest InSource (i - 1)
      else m)"
  by auto
termination
  by (relation "measure (\<lambda>(m, d, s, i). unat i)") (auto simp: unat_minus_one unat_gt_0)

declare memmove_down.simps [simp del]

definition memmove :: "memory \<Rightarrow> u64 \<Rightarrow> u64 \<Rightarrow> u64 \<Rightarrow> memory" where
  "memmove m OutDest InSource InSize =
     (if InSource > OutDest
      then for_loop 0 InSize (\<lambda>i m. m(OutDest + i := m (InSource + i))) m
      else memmove_down m OutDest InSource InSize)"

definition memset :: "memory \<Rightarrow> u64 \<Rightarrow> u32 \<Rightarrow> u64 \<Rightarrow> memory" where
  "memset m OutDest InPattern InSize = for_loop 0 InSize (\<lambda>i m. m(OutDest + i := ucast InPattern)) m"

function memcmp_from :: "memory \<Rightarrow> u64 \<Rightarrow> u64 \<Rightarrow> u64 \<Rightarrow> u64 \<Rightarrow> u32" where
  "memcmp_from m InLeft InRight InSize i =
     (if i < InSize then
        if m (InLeft + i) \<noteq> m (InRight + i)
        then ucast (m (InLeft + i)) - ucast (m (InRight + i))
        else memcmp_from m InLeft InRight InSize (i + 1)
      else 0)"
  by auto
termination
  by (relation "measure (\<lambda>(m, l, r, n, i). unat n - unat i)")
    (auto simp: word_nat unat_Suc_less)

declare memcmp_from.simps [simp del]

definition memcmp :: "memory \<Rightarrow> u64 \<Rightarrow> u64 \<Rightarrow> u64 \<Rightarrow> u32" where
  "memcmp m InLeft InRight InSize = memcmp_from m InLeft InRight InSize 0"


section \<open>What the routines compute\<close>

lemma offset_eq: "unat (a - d) = k \<longleftrightarrow> a = d + of_nat k" if "k < 2 ^ 64" for a d :: u64
proof -
  have "unat (of_nat k :: u64) = k" using that by (simp add: unat_of_nat_small)
  then have "unat (a - d) = k \<longleftrightarrow> a - d = of_nat k" by (metis word_unat_eq_iff)
  then show ?thesis by (auto simp: algebra_simps)
qed

lemma copy_up:
  fixes m :: memory
  assumes "unat InSource + unat n \<le> 2 ^ 64" "InSource > OutDest"
  shows "for_loop 0 n (\<lambda>i m. m(OutDest + i := m (InSource + i))) m a =
    (if a - OutDest < n then m (InSource + (a - OutDest)) else m a)"
proof -
  let ?d = OutDest and ?s = InSource
  let ?P = "\<lambda>k M. \<forall>a. M a = (if unat (a - ?d) < k then m (?s + (a - ?d)) else m a)"
  have "?P (max (unat (0 :: u64)) (unat n)) (for_loop 0 n (\<lambda>i m. m(?d + i := m (?s + i))) m)"
  proof (rule for_loop_rule [where P = ?P])
    fix k M
    assume k: "k < unat n" and P: "?P k M"
    have k64: "k < 2 ^ 64" using k unat64_bound by (rule less_trans)
    have u: "unat (of_nat k :: u64) = k" using k by (rule unat_of_nat_less)
    have "unat (?s + of_nat k - ?d) = unat ?s + k - unat ?d"
      using assms k u by (subst unat_sub_le) (auto simp: unat_add_no_wrap word_nat)
    then have "\<not> unat (?s + of_nat k - ?d) < k" using assms(2) by (simp add: word_nat)
    then have src: "M (?s + of_nat k) = m (?s + of_nat k)"
      using P by (simp only: if_False)
    show "?P (Suc k) (M(?d + of_nat k := M (?s + of_nat k)))"
    proof
      fix a
      show "(M(?d + of_nat k := M (?s + of_nat k))) a =
          (if unat (a - ?d) < Suc k then m (?s + (a - ?d)) else m a)"
        using P src u offset_eq [OF k64, of a ?d] by (auto simp: less_Suc_eq)
    qed
  qed simp
  then show ?thesis by (simp add: word_nat)
qed

lemma copy_down:
  assumes "unat InSource + unat i \<le> 2 ^ 64" "unat OutDest + unat i \<le> 2 ^ 64" "InSource \<le> OutDest"
  shows "memmove_down m OutDest InSource i a =
    (if a - OutDest < i then m (InSource + (a - OutDest)) else m a)"
  using assms
proof (induction m OutDest InSource i rule: memmove_down.induct)
  case (1 m d s i)
  show ?case
  proof (cases "i = 0")
    case False
    let ?M = "m(d + (i - 1) := m (s + (i - 1)))"
    have i1: "unat (i - 1) = unat i - 1" "0 < unat i"
      using False by (auto simp: unat_minus_one unat_gt_0)
    have IH: "memmove_down ?M d s (i - 1) a = (if a - d < i - 1 then ?M (s + (a - d)) else ?M a)"
      using 1(2-4) i1 by (intro 1(1) False) auto
    have src: "?M (s + (a - d)) = m (s + (a - d))" if "a - d < i - 1"
    proof -
      have "unat (s + (a - d)) = unat s + unat (a - d)" "unat (d + (i - 1)) = unat d + (unat i - 1)"
        using 1(2,3) i1 that by (auto simp: unat_add_no_wrap word_nat)
      then have "unat (s + (a - d)) < unat (d + (i - 1))"
        using 1(4) i1 that by (simp add: word_nat)
      then have "s + (a - d) \<noteq> d + (i - 1)" by (metis less_irrefl)
      then show ?thesis by simp
    qed
    have last: "a = d + (i - 1) \<longleftrightarrow> unat (a - d) = unat i - 1"
      using offset_eq [of "unat (i - 1)" a d] i1 unat_bound [of "i - 1"] by simp
    have le: "a - d < i - 1 \<longleftrightarrow> unat (a - d) < unat i - 1" "a - d < i \<longleftrightarrow> unat (a - d) < unat i"
      using i1 by (auto simp: word_nat)
    have "memmove_down m d s i a = memmove_down ?M d s (i - 1) a"
      using False by (simp add: memmove_down.simps [of m d s i])
    also have "\<dots> = (if a - d < i then m (s + (a - d)) else m a)"
      unfolding IH using src last le i1 by auto
    finally show ?thesis .
  qed (simp add: memmove_down.simps)
qed

lemma strlen_from_zero:
  assumes "m (s + len + of_nat k) = 0" "\<And>j. j < k \<Longrightarrow> m (s + len + of_nat j) \<noteq> 0"
  shows "strlen_from m s len = Some (len + of_nat k)"
  using assms
proof (induction k arbitrary: len)
  case 0
  then show ?case by (simp add: strlen_from.simps)
next
  case (Suc k)
  have "m (s + len) \<noteq> 0" using Suc.prems(2) [of 0] by simp
  moreover have "strlen_from m s (len + 1) = Some (len + 1 + of_nat k)"
    using Suc.prems(1) Suc.prems(2) [of "Suc _"] by (intro Suc.IH) (simp_all add: algebra_simps)
  ultimately show ?case by (simp add: strlen_from.simps [of m s len] algebra_simps)
qed

lemma strlen_terminated:
  assumes "s \<noteq> 0" "m (s + of_nat k) = 0" "\<And>j. j < k \<Longrightarrow> m (s + of_nat j) \<noteq> 0"
  shows "strlen m s = Some (of_nat k)"
  using strlen_from_zero [of m s 0 k] assms by (simp add: strlen_def)

lemma memset_block:
  fixes m :: memory
  shows "memset m OutDest InPattern InSize a = (if a - OutDest < InSize then ucast InPattern else m a)"
proof -
  let ?d = OutDest
  let ?P = "\<lambda>k M. \<forall>a. M a = (if unat (a - ?d) < k then ucast InPattern else m a)"
  have "?P (max (unat (0 :: u64)) (unat InSize)) (for_loop 0 InSize (\<lambda>i m. m(?d + i := ucast InPattern)) m)"
  proof (rule for_loop_rule [where P = ?P])
    fix k and M :: memory
    assume k: "k < unat InSize" and P: "?P k M"
    have k64: "k < 2 ^ 64" using k unat64_bound by (rule less_trans)
    show "?P (Suc k) (M(?d + of_nat k := ucast InPattern))"
      using P offset_eq [OF k64, of _ ?d] by (auto simp: less_Suc_eq)
  qed simp
  then show ?thesis by (simp add: memset_def word_nat)
qed

section \<open>Properties\<close>

text \<open>
  C22: \<open>memmove\<close> copies the source block as it was before the call, also when the two blocks
  overlap in either direction, and changes no byte outside the destination block.
\<close>

theorem memmove_correct:
  assumes "unat InSource + unat InSize \<le> 2 ^ 64" "unat OutDest + unat InSize \<le> 2 ^ 64"
  shows "memmove m OutDest InSource InSize a =
    (if a - OutDest < InSize then m (InSource + (a - OutDest)) else m a)"
  using assms copy_up [of InSource InSize OutDest m a] copy_down [of InSource InSize OutDest m a]
  by (auto simp: memmove_def not_less)

theorem memmove_correct_witness:
  "unat (0x1000 :: u64) + unat (8 :: u64) \<le> 2 ^ 64 \<and>
   memmove (\<lambda>a. ucast a) 0x1002 0x1000 8 0x1005 = 3"
  using memmove_correct [of "0x1000" 8 "0x1002" ucast "0x1005"] by simp

end
