(* ===== verification/HK_Multiboot.thy ===== *)
theory HK_Multiboot
  imports HK_String
begin

text \<open>
  \<open>Kernel/Boot/Multiboot.cpp\<close>: the boot loader handover. The module statics are the record
  \<open>multiboot\<close>, its structures are read from byte memory at the direct map, and a structure's
  fields are the loads at their packed offsets. The tag walk is a loop that may not end; a zero
  entry size is the divide fault it is on the machine.
\<close>

section \<open>Data\<close>

datatype Standard = NONE | V1 | V2

type_synonym MemoryType = u32

definition MEMORY_AVAILABLE :: MemoryType where "MEMORY_AVAILABLE = 1"
definition MEMORY_RESERVED :: MemoryType where "MEMORY_RESERVED = 2"

record MemoryRegion =
  Region_Address :: u64
  Region_Length :: u64
  Region_Type :: MemoryType

definition Region_End :: "MemoryRegion \<Rightarrow> u64" where
  "Region_End r = Region_Address r + Region_Length r"

record Module =
  Module_Start :: u64
  Module_End :: u64
  Module_CommandLine :: u64

definition Module_Size :: "Module \<Rightarrow> u64" where
  "Module_Size m = Module_End m - Module_Start m"

record Framebuffer =
  Fb_Address :: u64
  Fb_Pitch :: u32
  Fb_Width :: u32
  Fb_Height :: u32
  Fb_BitsPerPixel :: u8
  Fb_Type :: u8

definition LOADER_MAGIC_V1 :: u32 where "LOADER_MAGIC_V1 = 0x2badb002"
definition LOADER_MAGIC_V2 :: u32 where "LOADER_MAGIC_V2 = 0x36d76289"

definition V2_END :: u32 where "V2_END = 0"
definition V2_CMDLINE :: u32 where "V2_CMDLINE = 1"
definition V2_BOOT_LOADER_NAME :: u32 where "V2_BOOT_LOADER_NAME = 2"
definition V2_MODULE :: u32 where "V2_MODULE = 3"
definition V2_MEMORY_MAP :: u32 where "V2_MEMORY_MAP = 6"
definition V2_FRAMEBUFFER :: u32 where "V2_FRAMEBUFFER = 8"
definition V2_ACPI_OLD :: u32 where "V2_ACPI_OLD = 14"
definition V2_ACPI_NEW :: u32 where "V2_ACPI_NEW = 15"

lemmas [config_defs] = MEMORY_AVAILABLE_def MEMORY_RESERVED_def LOADER_MAGIC_V1_def LOADER_MAGIC_V2_def
  V2_END_def V2_CMDLINE_def V2_BOOT_LOADER_NAME_def V2_MODULE_def V2_MEMORY_MAP_def
  V2_FRAMEBUFFER_def V2_ACPI_OLD_def V2_ACPI_NEW_def

text \<open>The tag and table layouts, as the loads of their fields.\<close>

definition Tag_Type :: "memory \<Rightarrow> u64 \<Rightarrow> u32" where "Tag_Type m tag = peek32 m tag"
definition Tag_Size :: "memory \<Rightarrow> u64 \<Rightarrow> u32" where "Tag_Size m tag = peek32 m (tag + 4)"

definition Tag_Next :: "memory \<Rightarrow> u64 \<Rightarrow> u64" where
  "Tag_Next m tag = (tag + ucast (Tag_Size m tag) + 7) AND NOT 7"

definition StringTag_String :: "u64 \<Rightarrow> u64" where "StringTag_String tag = tag + 8"
definition MemoryMapTag_EntrySize :: "memory \<Rightarrow> u64 \<Rightarrow> u32" where
  "MemoryMapTag_EntrySize m tag = peek32 m (tag + 8)"
definition MemoryMapTag_Entries :: "u64 \<Rightarrow> u64" where "MemoryMapTag_Entries tag = tag + 16"
definition AcpiTag_Rsdp :: "u64 \<Rightarrow> u64" where "AcpiTag_Rsdp tag = tag + 8"

definition V2_ModuleTag :: "memory \<Rightarrow> u64 \<Rightarrow> Module" where
  "V2_ModuleTag m tag = \<lparr>Module_Start = ucast (peek32 m (tag + 8)), Module_End = ucast (peek32 m (tag + 12)),
     Module_CommandLine = tag + 16\<rparr>"

definition V2_MemoryMapEntry :: "memory \<Rightarrow> u64 \<Rightarrow> MemoryRegion" where
  "V2_MemoryMapEntry m e = \<lparr>Region_Address = peek64 m e, Region_Length = peek64 m (e + 8),
     Region_Type = peek32 m (e + 16)\<rparr>"

definition V2_FramebufferTag :: "memory \<Rightarrow> u64 \<Rightarrow> Framebuffer" where
  "V2_FramebufferTag m tag = \<lparr>Fb_Address = peek64 m (tag + 8), Fb_Pitch = peek32 m (tag + 16),
     Fb_Width = peek32 m (tag + 20), Fb_Height = peek32 m (tag + 24),
     Fb_BitsPerPixel = m (tag + 28), Fb_Type = m (tag + 29)\<rparr>"

definition V2_TotalSize :: "memory \<Rightarrow> u64 \<Rightarrow> u32" where "V2_TotalSize m info = peek32 m info"

definition V1_CMDLINE :: u32 where "V1_CMDLINE = 4"
definition V1_MODULES :: u32 where "V1_MODULES = 8"
definition V1_MEMORY_MAP :: u32 where "V1_MEMORY_MAP = 64"
definition V1_BOOT_LOADER_NAME :: u32 where "V1_BOOT_LOADER_NAME = 512"

lemmas [config_defs] = V1_CMDLINE_def V1_MODULES_def V1_MEMORY_MAP_def V1_BOOT_LOADER_NAME_def

record V1_Info =
  Info_Flags :: u32
  Info_MemoryLower :: u32
  Info_MemoryUpper :: u32
  Info_BootDevice :: u32
  Info_CommandLine :: u32
  Info_ModuleCount :: u32
  Info_ModuleAddress :: u32
  Info_Syms :: "u32 list"
  Info_MemoryMapLength :: u32
  Info_MemoryMapAddress :: u32

definition V1_InfoAt :: "memory \<Rightarrow> u64 \<Rightarrow> V1_Info" where
  "V1_InfoAt m p = \<lparr>Info_Flags = peek32 m p, Info_MemoryLower = peek32 m (p + 4),
     Info_MemoryUpper = peek32 m (p + 8), Info_BootDevice = peek32 m (p + 12),
     Info_CommandLine = peek32 m (p + 16), Info_ModuleCount = peek32 m (p + 20),
     Info_ModuleAddress = peek32 m (p + 24),
     Info_Syms = [peek32 m (p + 28), peek32 m (p + 32), peek32 m (p + 36), peek32 m (p + 40)],
     Info_MemoryMapLength = peek32 m (p + 44), Info_MemoryMapAddress = peek32 m (p + 48)\<rparr>"

definition SIZEOF_V1_Info :: u64 where "SIZEOF_V1_Info = 52"
definition SIZEOF_V1_MemoryMapEntry :: u64 where "SIZEOF_V1_MemoryMapEntry = 24"
definition SIZEOF_V1_ModuleEntry :: u64 where "SIZEOF_V1_ModuleEntry = 16"

lemmas [config_defs] = SIZEOF_V1_Info_def SIZEOF_V1_MemoryMapEntry_def SIZEOF_V1_ModuleEntry_def

definition V1_MemoryMapEntry :: "memory \<Rightarrow> u64 \<Rightarrow> MemoryRegion" where
  "V1_MemoryMapEntry m e = \<lparr>Region_Address = peek64 m (e + 4), Region_Length = peek64 m (e + 12),
     Region_Type = peek32 m (e + 20)\<rparr>"

definition Reachable :: "u64 \<Rightarrow> u64" where
  "Reachable InPhysical = (if InPhysical \<noteq> 0 then InPhysical + DIRECT_MAP_BASE else 0)"

definition V1_ModuleEntry :: "memory \<Rightarrow> u64 \<Rightarrow> Module" where
  "V1_ModuleEntry m e = \<lparr>Module_Start = ucast (peek32 m e), Module_End = ucast (peek32 m (e + 4)),
     Module_CommandLine = Reachable (ucast (peek32 m (e + 8)))\<rparr>"

section \<open>The cached view\<close>

record multiboot =
  MultibootMagic :: u32
  MultibootInfo :: u32
  s_Standard :: Standard
  s_CommandLine :: u64
  s_BootLoaderName :: u64
  s_AcpiRsdp :: u64
  s_MemoryMapEntries :: u64
  s_MemoryMapEntrySize :: u32
  s_MemoryRegionCount :: u32
  s_Modules :: "u64 list"
  s_ModuleCount :: u32
  s_Framebuffer :: "Framebuffer option"

definition MODULES_SIZE :: u32 where "MODULES_SIZE = 16"

lemmas [config_defs] = MODULES_SIZE_def

definition Multiboot_reset :: "u32 \<Rightarrow> u32 \<Rightarrow> multiboot" where
  "Multiboot_reset magic info = \<lparr>MultibootMagic = magic, MultibootInfo = info, s_Standard = NONE,
     s_CommandLine = 0, s_BootLoaderName = 0, s_AcpiRsdp = 0, s_MemoryMapEntries = 0,
     s_MemoryMapEntrySize = 0, s_MemoryRegionCount = 0, s_Modules = replicate (unat MODULES_SIZE) 0,
     s_ModuleCount = 0, s_Framebuffer = None\<rparr>"

definition AddModule :: "u64 \<Rightarrow> multiboot \<Rightarrow> multiboot" where
  "AddModule p mb = mb\<lparr>s_Modules := (s_Modules mb)[unat (s_ModuleCount mb) := p],
     s_ModuleCount := s_ModuleCount mb + 1\<rparr>"

definition ParseTag :: "memory \<Rightarrow> u64 \<Rightarrow> multiboot \<Rightarrow> multiboot result" where
  "ParseTag m tag mb =
    (let type = Tag_Type m tag in
     if type = V2_CMDLINE then Ok (mb\<lparr>s_CommandLine := StringTag_String tag\<rparr>)
     else if type = V2_BOOT_LOADER_NAME then Ok (mb\<lparr>s_BootLoaderName := StringTag_String tag\<rparr>)
     else if type = V2_MODULE then
       Ok (if s_ModuleCount mb < MODULES_SIZE then AddModule tag mb else mb)
     else if type = V2_MEMORY_MAP then
       let entrySize = MemoryMapTag_EntrySize m tag in
       if entrySize = 0 then Err DivideError
       else Ok (mb\<lparr>s_MemoryMapEntries := MemoryMapTag_Entries tag, s_MemoryMapEntrySize := entrySize,
         s_MemoryRegionCount := ucast ((ucast (Tag_Size m tag) - 16 :: u64) div ucast entrySize)\<rparr>)
     else if type = V2_FRAMEBUFFER then Ok (mb\<lparr>s_Framebuffer := Some (V2_FramebufferTag m tag)\<rparr>)
     else if type = V2_ACPI_OLD \<or> type = V2_ACPI_NEW then
       Ok (if s_AcpiRsdp mb = 0 \<or> type = V2_ACPI_NEW then mb\<lparr>s_AcpiRsdp := AcpiTag_Rsdp tag\<rparr> else mb)
     else Ok mb)"

partial_function (option) ParseV2_loop ::
    "memory \<Rightarrow> u64 \<Rightarrow> u64 \<Rightarrow> multiboot \<Rightarrow> multiboot result option" where
  "ParseV2_loop m lim tag mb =
    (if tag < lim \<and> Tag_Type m tag \<noteq> V2_END then
       case ParseTag m tag mb of Inl e \<Rightarrow> Some (Inl e)
       | Inr mb' \<Rightarrow> ParseV2_loop m lim (Tag_Next m tag) mb'
     else Some (Inr mb))"

definition ParseV2 :: "memory \<Rightarrow> u64 \<Rightarrow> multiboot \<Rightarrow> multiboot result" where
  "ParseV2 m InInfo mb =
     rbind (returned (ParseV2_loop m (InInfo + ucast (V2_TotalSize m InInfo)) (InInfo + 8) mb)) id"

function ParseV1_modules :: "u64 \<Rightarrow> u32 \<Rightarrow> u32 \<Rightarrow> multiboot \<Rightarrow> multiboot" where
  "ParseV1_modules modules count i mb =
    (if i < count \<and> s_ModuleCount mb < MODULES_SIZE
     then ParseV1_modules modules count (i + 1) (AddModule (modules + ucast i * SIZEOF_V1_ModuleEntry) mb)
     else mb)"
  by auto
termination
  by (relation "measure (\<lambda>(p, n, i, mb). unat n - unat i)") (auto simp: word_nat unat_Suc_less)

declare ParseV1_modules.simps [simp del]

definition ParseV1_map :: "memory \<Rightarrow> V1_Info \<Rightarrow> multiboot \<Rightarrow> multiboot result" where
  "ParseV1_map m info mb =
    (if Info_Flags info AND V1_MEMORY_MAP \<noteq> 0 \<and> SIZEOF_V1_MemoryMapEntry \<le> ucast (Info_MemoryMapLength info) then
       let first = Reachable (ucast (Info_MemoryMapAddress info));
           entrySize = ucast (ucast (peek32 m first) + 4 :: u64)
       in if entrySize = 0 then Err DivideError
          else Ok (mb\<lparr>s_MemoryMapEntrySize := entrySize, s_MemoryMapEntries := first,
                 s_MemoryRegionCount := Info_MemoryMapLength info div entrySize\<rparr>)
     else Ok mb)"

definition ParseV1 :: "memory \<Rightarrow> u64 \<Rightarrow> multiboot \<Rightarrow> multiboot result" where
  "ParseV1 m InInfo mb =
    (let info = V1_InfoAt m InInfo;
         mb1 = (if Info_Flags info AND V1_CMDLINE \<noteq> 0
                then mb\<lparr>s_CommandLine := Reachable (ucast (Info_CommandLine info))\<rparr> else mb);
         mb2 = (if Info_Flags info AND V1_BOOT_LOADER_NAME \<noteq> 0
                then mb1\<lparr>s_BootLoaderName := Reachable (ucast (Info_Syms info ! 3))\<rparr> else mb1)
     in rbind (ParseV1_map m info mb2) (\<lambda>mb3.
          Ok (if Info_Flags info AND V1_MODULES \<noteq> 0
              then ParseV1_modules (Reachable (ucast (Info_ModuleAddress info))) (Info_ModuleCount info) 0 mb3
              else mb3)))"

definition Multiboot_Initialize :: "memory \<Rightarrow> multiboot \<Rightarrow> (bool \<times> multiboot) result" where
  "Multiboot_Initialize m mb =
    (let info = ucast (MultibootInfo mb) in
     if MultibootMagic mb = LOADER_MAGIC_V2 then
       rbind (ParseV2 m (Reachable info) (mb\<lparr>s_Standard := V2\<rparr>)) (\<lambda>mb'. Ok (True, mb'))
     else if MultibootMagic mb = LOADER_MAGIC_V1 then
       rbind (ParseV1 m (Reachable info) (mb\<lparr>s_Standard := V1\<rparr>)) (\<lambda>mb'. Ok (True, mb'))
     else Ok (False, mb\<lparr>s_Standard := NONE\<rparr>))"

section \<open>Accessors\<close>

datatype cstr = Pointer u64 | Literal string

definition GetStandard :: "multiboot \<Rightarrow> Standard" where "GetStandard mb = s_Standard mb"

definition GetCommandLine :: "multiboot \<Rightarrow> cstr" where
  "GetCommandLine mb = (if s_CommandLine mb \<noteq> 0 then Pointer (s_CommandLine mb) else Literal '''')"

definition GetBootLoaderName :: "multiboot \<Rightarrow> cstr" where
  "GetBootLoaderName mb =
     (if s_BootLoaderName mb \<noteq> 0 then Pointer (s_BootLoaderName mb) else Literal ''unknown'')"

definition GetAcpiRsdp :: "multiboot \<Rightarrow> u64" where "GetAcpiRsdp mb = s_AcpiRsdp mb"

definition Describe :: "u64 \<Rightarrow> u64 \<Rightarrow> MemoryRegion" where
  "Describe InStart InLength =
    (let present = InStart \<noteq> 0 \<and> InLength \<noteq> 0 in
     \<lparr>Region_Address = if present then InStart else 0, Region_Length = if present then InLength else 0,
      Region_Type = MEMORY_RESERVED\<rparr>)"

definition GetInfoRegion :: "memory \<Rightarrow> multiboot \<Rightarrow> u32 \<Rightarrow> MemoryRegion option result" where
  "GetInfoRegion m mb InIndex =
    (if s_Standard mb = NONE \<or> MultibootInfo mb = 0 then Ok None
     else if s_Standard mb = V2 then
       if InIndex > 0 then Ok None
       else Ok (Some (Describe (ucast (MultibootInfo mb))
              (ucast (V2_TotalSize m (Reachable (ucast (MultibootInfo mb)))))))
     else
       let info = V1_InfoAt m (Reachable (ucast (MultibootInfo mb))) in
       if InIndex = 0 then Ok (Some (Describe (ucast (MultibootInfo mb)) SIZEOF_V1_Info))
       else if InIndex = 1 then
         Ok (Some (Describe (ucast (Info_MemoryMapAddress info)) (ucast (Info_MemoryMapLength info))))
       else if InIndex = 2 then
         Ok (Some (Describe (ucast (Info_ModuleAddress info))
                (ucast (Info_ModuleCount info) * SIZEOF_V1_ModuleEntry)))
       else if InIndex = 3 then
         if s_CommandLine mb \<noteq> 0
         then rbind (returned (strlen m (s_CommandLine mb)))
                (\<lambda>len. Ok (Some (Describe (ucast (Info_CommandLine info)) (len + 1))))
         else Ok (Some (Describe (ucast (Info_CommandLine info)) 0))
       else Ok None)"

definition GetMemoryRegionCount :: "multiboot \<Rightarrow> u32" where
  "GetMemoryRegionCount mb = s_MemoryRegionCount mb"

definition GetMemoryRegion :: "memory \<Rightarrow> multiboot \<Rightarrow> u32 \<Rightarrow> MemoryRegion option" where
  "GetMemoryRegion m mb InIndex =
    (if InIndex \<ge> s_MemoryRegionCount mb \<or> s_MemoryMapEntries mb = 0 then None
     else let e = s_MemoryMapEntries mb + ucast (InIndex * s_MemoryMapEntrySize mb) in
       Some (if s_Standard mb = V2 then V2_MemoryMapEntry m e else V1_MemoryMapEntry m e))"

definition GetModuleCount :: "multiboot \<Rightarrow> u32" where "GetModuleCount mb = s_ModuleCount mb"

definition GetModule :: "memory \<Rightarrow> multiboot \<Rightarrow> u32 \<Rightarrow> Module option" where
  "GetModule m mb InIndex =
    (if InIndex \<ge> s_ModuleCount mb then None
     else let p = s_Modules mb ! unat InIndex in
       Some (if s_Standard mb = V2 then V2_ModuleTag m p else V1_ModuleEntry m p))"

definition GetFramebuffer :: "multiboot \<Rightarrow> Framebuffer option" where
  "GetFramebuffer mb = s_Framebuffer mb"

definition GetAvailableMemory :: "memory \<Rightarrow> multiboot \<Rightarrow> u64 result" where
  "GetAvailableMemory m mb =
     index_loop (\<lambda>i. Ok (GetMemoryRegion m mb i))
       (\<lambda>region total. if Region_Type region = MEMORY_AVAILABLE then total + Region_Length region else total) 0 0"

section \<open>What the accessors enumerate\<close>

definition MemoryRegions :: "memory \<Rightarrow> multiboot \<Rightarrow> MemoryRegion list" where
  "MemoryRegions m mb =
     (if s_MemoryMapEntries mb = 0 then []
      else map (\<lambda>i. the (GetMemoryRegion m mb (of_nat i))) [0..<unat (s_MemoryRegionCount mb)])"

definition Modules :: "memory \<Rightarrow> multiboot \<Rightarrow> Module list" where
  "Modules m mb = map (\<lambda>i. the (GetModule m mb (of_nat i))) [0..<unat (s_ModuleCount mb)]"

definition InfoRegions :: "memory \<Rightarrow> multiboot \<Rightarrow> MemoryRegion list" where
  "InfoRegions m mb =
     (if s_Standard mb = NONE \<or> MultibootInfo mb = 0 then []
      else map (\<lambda>i. case GetInfoRegion m mb (of_nat i) of Inr (Some r) \<Rightarrow> r | _ \<Rightarrow> Describe 0 0)
             [0..<if s_Standard mb = V2 then 1 else 4])"

lemma enumerates_Memory: "enumerates (\<lambda>i. Ok (GetMemoryRegion m mb i)) (MemoryRegions m mb)"
  using unat32_bound [of "s_MemoryRegionCount mb"]
  by (auto simp: enumerates_def MemoryRegions_def GetMemoryRegion_def word_nat unat_of_nat_less Let_def)

lemma enumerates_Module: "enumerates (\<lambda>i. Ok (GetModule m mb i)) (Modules m mb)"
  using unat32_bound [of "s_ModuleCount mb"]
  by (auto simp: enumerates_def Modules_def GetModule_def word_nat unat_of_nat_less Let_def)

definition CommandLine_terminated :: "memory \<Rightarrow> multiboot \<Rightarrow> bool" where
  "CommandLine_terminated m mb \<longleftrightarrow> s_CommandLine mb = 0 \<or> strlen m (s_CommandLine mb) \<noteq> None"

lemma less_4_cases: "i < 4 \<Longrightarrow> i = 0 \<or> i = 1 \<or> i = 2 \<or> i = (3 :: nat)"
  by linarith

lemma enumerates_Info:
  assumes "CommandLine_terminated m mb"
  shows "enumerates (GetInfoRegion m mb) (InfoRegions m mb)"
proof (cases "s_Standard mb")
  case V1
  show ?thesis
    using assms V1
    by (auto simp: enumerates_def InfoRegions_def GetInfoRegion_def CommandLine_terminated_def Let_def
        dest!: less_4_cases)
qed (auto simp: enumerates_def InfoRegions_def GetInfoRegion_def)

text \<open>The total is the sum over the available regions, modulo the width.\<close>

lemma GetAvailableMemory_sum:
  "GetAvailableMemory m mb =
     Ok (sum_list (map Region_Length (filter (\<lambda>r. Region_Type r = MEMORY_AVAILABLE) (MemoryRegions m mb))))"
proof -
  have "fold (\<lambda>region total. if Region_Type region = MEMORY_AVAILABLE then total + Region_Length region else total) rs t
      = t + sum_list (map Region_Length (filter (\<lambda>r. Region_Type r = MEMORY_AVAILABLE) rs))" for rs t
    by (induction rs arbitrary: t) (auto simp: algebra_simps)
  from this [of "MemoryRegions m mb" 0] show ?thesis
    by (simp add: GetAvailableMemory_def index_loop_list [OF enumerates_Memory])
qed

section \<open>The module table\<close>

definition mb_ok :: "multiboot \<Rightarrow> bool" where
  "mb_ok mb \<longleftrightarrow> length (s_Modules mb) = unat MODULES_SIZE \<and> s_ModuleCount mb \<le> MODULES_SIZE"

lemma mb_ok_reset: "mb_ok (Multiboot_reset magic info)"
  by (simp add: mb_ok_def Multiboot_reset_def)

lemma AddModule_ok: "mb_ok mb \<Longrightarrow> s_ModuleCount mb < MODULES_SIZE \<Longrightarrow> mb_ok (AddModule p mb)"
  by (auto simp: mb_ok_def AddModule_def word_nat unat_Suc_less)

lemma ParseTag_ok: "mb_ok mb \<Longrightarrow> ParseTag m tag mb = Ok mb' \<Longrightarrow> mb_ok mb'"
  by (auto simp: ParseTag_def Let_def AddModule_ok split: if_splits) (auto simp: mb_ok_def)

lemma ParseV2_loop_ok:
  assumes "ParseV2_loop m lim tag mb = Some r"
  shows "mb_ok mb \<longrightarrow> (\<forall>mb'. r = Ok mb' \<longrightarrow> mb_ok mb')"
  using assms
proof (rule ParseV2_loop.raw_induct [rotated])
  fix loop :: "memory \<Rightarrow> u64 \<Rightarrow> u64 \<Rightarrow> multiboot \<Rightarrow> multiboot result option" and m lim tag mb r
  assume IH: "\<And>m lim tag mb r. loop m lim tag mb = Some r \<Longrightarrow> mb_ok mb \<longrightarrow> (\<forall>mb'. r = Ok mb' \<longrightarrow> mb_ok mb')"
    and step: "(if tag < lim \<and> Tag_Type m tag \<noteq> V2_END then case ParseTag m tag mb of Inl e \<Rightarrow> Some (Inl e)
       | Inr mb' \<Rightarrow> loop m lim (Tag_Next m tag) mb' else Some (Inr mb)) = Some r"
  show "mb_ok mb \<longrightarrow> (\<forall>mb'. r = Ok mb' \<longrightarrow> mb_ok mb')"
  proof (cases "tag < lim \<and> Tag_Type m tag \<noteq> V2_END")
    case True
    show ?thesis
    proof (cases "ParseTag m tag mb")
      case (Inl e)
      with True step have "r = Err e" by (simp add: eq_commute)
      then show ?thesis by simp
    next
      case (Inr mb1)
      with True step have "loop m lim (Tag_Next m tag) mb1 = Some r" by simp
      from IH [OF this] ParseTag_ok [OF _ Inr] show ?thesis by blast
    qed
  next
    case False
    then have "r = Ok mb" using step by (simp only: if_False option.inject)
    then show ?thesis by simp
  qed
qed

lemma ParseV1_modules_ok: "mb_ok mb \<Longrightarrow> mb_ok (ParseV1_modules p n i mb)"
  by (induction p n i mb rule: ParseV1_modules.induct)
    (subst ParseV1_modules.simps, simp add: AddModule_ok)

lemma ParseV1_map_ok: "mb_ok mb \<Longrightarrow> ParseV1_map m info mb = Ok mb' \<Longrightarrow> mb_ok mb'"
  by (auto simp: ParseV1_map_def Let_def split: if_splits) (auto simp: mb_ok_def)

lemma mb_ok_upd [simp]:
  "mb_ok (mb\<lparr>s_CommandLine := a\<rparr>) = mb_ok mb" "mb_ok (mb\<lparr>s_BootLoaderName := a\<rparr>) = mb_ok mb"
  "mb_ok (mb\<lparr>s_Standard := st\<rparr>) = mb_ok mb"
  by (simp_all add: mb_ok_def)

lemma ParseV1_ok:
  assumes "mb_ok mb" "ParseV1 m info mb = Ok mb'"
  shows "mb_ok mb'"
proof -
  let ?info = "V1_InfoAt m info"
  let ?mb1 = "if Info_Flags ?info AND V1_CMDLINE \<noteq> 0
    then mb\<lparr>s_CommandLine := Reachable (ucast (Info_CommandLine ?info))\<rparr> else mb"
  let ?mb2 = "if Info_Flags ?info AND V1_BOOT_LOADER_NAME \<noteq> 0
    then ?mb1\<lparr>s_BootLoaderName := Reachable (ucast (Info_Syms ?info ! 3))\<rparr> else ?mb1"
  have ok2: "mb_ok ?mb2" using assms(1) by simp
  obtain mb3 where mb3: "ParseV1_map m ?info ?mb2 = Ok mb3"
    using assms(2) by (cases "ParseV1_map m ?info ?mb2") (simp_all add: ParseV1_def Let_def)
  have "mb_ok mb3" using ok2 mb3 by (rule ParseV1_map_ok)
  moreover have "mb' = mb3 \<or> (\<exists>p n. mb' = ParseV1_modules p n 0 mb3)"
    using assms(2) mb3 by (simp add: ParseV1_def Let_def split: if_splits) blast+
  ultimately show ?thesis using ParseV1_modules_ok by blast
qed

lemma ParseV2_ok:
  assumes "mb_ok mb" "ParseV2 m info mb = Ok mb'"
  shows "mb_ok mb'"
proof -
  have "ParseV2_loop m (info + ucast (V2_TotalSize m info)) (info + 8) mb = Some (Ok mb')"
    using assms(2) by (simp add: ParseV2_def returned_def rbind_Ok_iff split: option.split_asm)
  from ParseV2_loop_ok [OF this] assms(1) show ?thesis by blast
qed

lemma Multiboot_Initialize_ok:
  assumes "mb_ok mb" "Multiboot_Initialize m mb = Ok (b, mb')"
  shows "mb_ok mb'"
proof -
  have "(\<exists>st info. ParseV2 m info (mb\<lparr>s_Standard := st\<rparr>) = Ok mb' \<or> ParseV1 m info (mb\<lparr>s_Standard := st\<rparr>) = Ok mb')
      \<or> mb' = mb\<lparr>s_Standard := NONE\<rparr>"
    using assms(2) by (auto simp: Multiboot_Initialize_def Let_def rbind_Ok_iff split: if_split_asm)
  moreover have "mb_ok (mb\<lparr>s_Standard := st\<rparr>)" for st using assms(1) by simp
  ultimately show ?thesis using ParseV1_ok ParseV2_ok by blast
qed

section \<open>The tag walk\<close>

text \<open>The tags the loop visits from \<open>tag\<close> on, when it ends.\<close>

fun tag_chain :: "memory \<Rightarrow> u64 \<Rightarrow> u64 \<Rightarrow> u64 list \<Rightarrow> bool" where
  "tag_chain m lim tag [] \<longleftrightarrow> \<not> (tag < lim \<and> Tag_Type m tag \<noteq> V2_END)"
| "tag_chain m lim tag (t # ts) \<longleftrightarrow>
     t = tag \<and> tag < lim \<and> Tag_Type m tag \<noteq> V2_END \<and> tag_chain m lim (Tag_Next m tag) ts"

fun ParseTags :: "memory \<Rightarrow> u64 list \<Rightarrow> multiboot \<Rightarrow> multiboot result" where
  "ParseTags m [] mb = Ok mb"
| "ParseTags m (t # ts) mb = rbind (ParseTag m t mb) (ParseTags m ts)"

lemma ParseV2_loop_chain: "tag_chain m lim tag ts \<Longrightarrow> ParseV2_loop m lim tag mb = Some (ParseTags m ts mb)"
proof (induction ts arbitrary: tag mb)
  case Nil
  then show ?case by (subst ParseV2_loop.simps) auto
next
  case (Cons t ts)
  then show ?case
    by (subst ParseV2_loop.simps) (simp add: rbind_def split: sum.split)
qed

lemma Tag_Next_nat:
  assumes "unat tag + 2 ^ 33 \<le> 2 ^ 64"
  shows "unat (Tag_Next m tag) = (unat tag + unat (Tag_Size m tag) + 7) div 8 * 8"
proof -
  have "unat (ucast (Tag_Size m tag) :: u64) = unat (Tag_Size m tag)"
    by simp
  moreover have "unat (Tag_Size m tag) < 2 ^ 32" by (rule unat32_bound)
  ultimately have "unat (tag + ucast (Tag_Size m tag) + 7) = unat tag + unat (Tag_Size m tag) + 7"
    using assms by (simp add: unat_add_no_wrap)
  moreover have "Tag_Next m tag = (tag + ucast (Tag_Size m tag) + 7) AND NOT (mask 3)"
    by (simp add: Tag_Next_def mask_eq_exp_minus_1)
  ultimately show ?thesis by (simp only: and_not_mask_nat) simp
qed

lemma Tag_Next_less:
  assumes "unat tag + 2 ^ 33 \<le> 2 ^ 64" "unat tag mod 8 = 0" "Tag_Size m tag \<noteq> 0"
  shows "unat tag < unat (Tag_Next m tag)" "unat (Tag_Next m tag) mod 8 = 0"
proof -
  have "0 < unat (Tag_Size m tag)" using assms(3) by (simp add: unat_gt_0)
  moreover have "0 < n \<Longrightarrow> a mod 8 = 0 \<Longrightarrow> a < (a + n + 7) div 8 * 8" for a n :: nat
    by presburger
  ultimately show "unat tag < unat (Tag_Next m tag)" "unat (Tag_Next m tag) mod 8 = 0"
    using assms(2) unfolding Tag_Next_nat [OF assms(1)] by simp_all
qed

lemma tag_chain_exists:
  assumes "unat tag mod 8 = 0" "unat lim + 2 ^ 33 \<le> 2 ^ 64"
    and "\<And>k. (Tag_Next m ^^ k) tag < lim \<Longrightarrow> Tag_Size m ((Tag_Next m ^^ k) tag) \<noteq> 0"
  shows "\<exists>ts. tag_chain m lim tag ts"
  using assms
proof (induction "unat lim - unat tag" arbitrary: tag rule: less_induct)
  case less
  show ?case
  proof (cases "tag < lim \<and> Tag_Type m tag \<noteq> V2_END")
    case True
    then have lt: "unat tag < unat lim" by (simp add: word_nat)
    then have bnd: "unat tag + 2 ^ 33 \<le> 2 ^ 64" using less.prems(2) by linarith
    have "Tag_Size m tag \<noteq> 0" using True less.prems(3) [of 0] by simp
    note n = Tag_Next_less [OF bnd less.prems(1) this]
    have "\<exists>ts. tag_chain m lim (Tag_Next m tag) ts"
    proof (rule less.hyps)
      show "unat lim - unat (Tag_Next m tag) < unat lim - unat tag" using n(1) lt by linarith
      show "Tag_Size m ((Tag_Next m ^^ k) (Tag_Next m tag)) \<noteq> 0"
        if "(Tag_Next m ^^ k) (Tag_Next m tag) < lim" for k
        using that less.prems(3) [of "Suc k"] by (simp add: funpow_swap1)
    qed (use n less.prems in simp_all)
    then obtain ts where "tag_chain m lim (Tag_Next m tag) ts" ..
    with True have "tag_chain m lim tag (tag # ts)" by simp
    then show ?thesis ..
  next
    case False
    then have "tag_chain m lim tag []" by simp
    then show ?thesis ..
  qed
qed

definition is_new :: "memory \<Rightarrow> u64 \<Rightarrow> bool" where "is_new m t \<longleftrightarrow> Tag_Type m t = V2_ACPI_NEW"
definition is_old :: "memory \<Rightarrow> u64 \<Rightarrow> bool" where "is_old m t \<longleftrightarrow> Tag_Type m t = V2_ACPI_OLD"

text \<open>The RSDP copy the kernel should use: the last 2.0 one, else the first 1.0 one.\<close>

definition preferred_rsdp :: "memory \<Rightarrow> u64 list \<Rightarrow> u64" where
  "preferred_rsdp m ts =
     (if filter (is_new m) ts \<noteq> [] then last (filter (is_new m) ts) + 8
      else if filter (is_old m) ts \<noteq> [] then hd (filter (is_old m) ts) + 8 else 0)"

lemma ParseTag_rsdp:
  assumes "ParseTag m t mb = Ok mb'"
  shows "s_AcpiRsdp mb' = (if is_new m t \<or> (is_old m t \<and> s_AcpiRsdp mb = 0) then t + 8 else s_AcpiRsdp mb)"
  using assms
  by (auto simp: ParseTag_def Let_def is_new_def is_old_def AddModule_def AcpiTag_Rsdp_def config_defs
      split: if_split_asm)

lemma ParseTags_rsdp:
  assumes "ParseTags m ts mb = Ok mb'" "\<And>t. t \<in> set ts \<Longrightarrow> t + 8 \<noteq> 0"
  shows "s_AcpiRsdp mb' = (if filter (is_new m) ts = [] \<and> s_AcpiRsdp mb \<noteq> 0 then s_AcpiRsdp mb
    else preferred_rsdp m ts)"
  using assms
proof (induction ts arbitrary: mb)
  case Nil
  then show ?case by (simp add: preferred_rsdp_def)
next
  case (Cons t ts)
  then obtain mb1 where mb1: "ParseTag m t mb = Ok mb1" "ParseTags m ts mb1 = Ok mb'"
    by (auto simp: rbind_Ok_iff)
  have "t + 8 \<noteq> 0" using Cons.prems by simp
  moreover have "\<not> (is_new m t \<and> is_old m t)" by (simp add: is_new_def is_old_def config_defs)
  ultimately show ?case
    using Cons.IH [OF mb1(2)] Cons.prems(2) ParseTag_rsdp [OF mb1(1)]
    by (auto simp: preferred_rsdp_def)
qed

section \<open>An example handover\<close>

text \<open>A Multiboot2 info block at physical 0x1000 with a 1.0 RSDP tag, a 2.0 RSDP tag and the end tag.\<close>

definition example_info :: memory where
  "example_info a =
    (if a = 0xFFFF800000001000 then 0x28 else if a = 0xFFFF800000001008 then 14
     else if a = 0xFFFF80000000100C then 12 else if a = 0xFFFF800000001018 then 15
     else if a = 0xFFFF80000000101C then 8 else if a = 0xFFFF800000001024 then 8 else 0)"

lemmas example_simps = example_info_def peek16_def peek32_def Tag_Type_def Tag_Size_def Tag_Next_def
  V2_TotalSize_def config_defs

lemma example_size [simp]: "V2_TotalSize example_info 0xFFFF800000001000 = 0x28"
  by (simp add: example_simps)

lemma example_chain:
  "tag_chain example_info 0xFFFF800000001028 0xFFFF800000001008 [0xFFFF800000001008, 0xFFFF800000001018]"
  by (simp add: example_simps)

lemma example_next:
  "Tag_Next example_info 0xFFFF800000001008 = 0xFFFF800000001018"
  "Tag_Next example_info 0xFFFF800000001018 = 0xFFFF800000001020"
  "Tag_Next example_info 0xFFFF800000001020 = 0xFFFF800000001028"
  "Tag_Next example_info 0xFFFF800000001028 = 0xFFFF800000001028"
  by (simp_all add: example_simps)

lemma example_iterates:
  "(Tag_Next example_info ^^ k) 0xFFFF800000001008 \<in>
    {0xFFFF800000001008, 0xFFFF800000001018, 0xFFFF800000001020, 0xFFFF800000001028}"
  by (induction k) (auto simp: example_next)

lemma example_tags:
  "ParseTags example_info [0xFFFF800000001008, 0xFFFF800000001018] mb =
     Ok (mb\<lparr>s_AcpiRsdp := 0xFFFF800000001020\<rparr>)"
  by (simp add: ParseTag_def AcpiTag_Rsdp_def example_simps)

lemma example_parse:
  "ParseV2 example_info 0xFFFF800000001000 mb = Ok (mb\<lparr>s_AcpiRsdp := 0xFFFF800000001020\<rparr>)"
  using ParseV2_loop_chain [OF example_chain, of mb] example_tags [of mb] by (simp add: ParseV2_def)

section \<open>Properties\<close>

text \<open>
  C20: Whatever the boot loader left in memory, when \<open>Initialize\<close> returns, the module table was never
  written past its 16 slots: the module count is at most 16, under both standards.
\<close>

theorem Multiboot_modules_bounded:
  assumes "Multiboot_Initialize m (Multiboot_reset magic info) = Ok (b, mb')"
  shows "length (s_Modules mb') = 16 \<and> unat (GetModuleCount mb') \<le> 16"
proof -
  have "mb_ok mb'"
    by (rule Multiboot_Initialize_ok [OF mb_ok_reset assms])
  then show ?thesis by (simp add: mb_ok_def GetModuleCount_def word_nat config_defs)
qed

theorem Multiboot_modules_bounded_witness:
  "\<exists>mb'. Multiboot_Initialize example_info (Multiboot_reset LOADER_MAGIC_V2 0x1000) = Ok (True, mb') \<and>
    length (s_Modules mb') = 16 \<and> unat (GetModuleCount mb') \<le> 16"
proof -
  have "\<exists>mb'. Multiboot_Initialize example_info (Multiboot_reset LOADER_MAGIC_V2 0x1000) = Ok (True, mb')"
    by (simp add: Multiboot_Initialize_def Multiboot_reset_def Reachable_def config_defs example_parse)
  then show ?thesis using Multiboot_modules_bounded by blast
qed

text \<open>
  C19: The Multiboot2 tag walk ends: if the info block starts 8-byte aligned and at least 16 GiB below the top
  of the address space, so that no step of the walk wraps around, and no tag visited inside it has size zero, the loop visits a finite chain of tags
  and \<open>ParseV2\<close> is the fold of the per-tag cases over it.
\<close>

theorem ParseV2_terminates:
  assumes "unat InInfo mod 8 = 0" "unat InInfo + 2 ^ 34 \<le> 2 ^ 64"
    and "\<And>k. (Tag_Next m ^^ k) (InInfo + 8) < InInfo + ucast (V2_TotalSize m InInfo) \<Longrightarrow>
      Tag_Size m ((Tag_Next m ^^ k) (InInfo + 8)) \<noteq> 0"
  shows "\<exists>ts. tag_chain m (InInfo + ucast (V2_TotalSize m InInfo)) (InInfo + 8) ts \<and>
    ParseV2 m InInfo mb = ParseTags m ts mb"
proof -
  have u: "unat (InInfo + ucast (V2_TotalSize m InInfo)) = unat InInfo + unat (V2_TotalSize m InInfo)"
    "unat (InInfo + 8) = unat InInfo + 8"
    using assms(2) unat32_bound [of "V2_TotalSize m InInfo"] by (simp_all add: unat_add_no_wrap)
  obtain ts where "tag_chain m (InInfo + ucast (V2_TotalSize m InInfo)) (InInfo + 8) ts"
    using tag_chain_exists [of "InInfo + 8" "InInfo + ucast (V2_TotalSize m InInfo)" m] assms
      unat32_bound [of "V2_TotalSize m InInfo"] u by auto
  then show ?thesis
    using ParseV2_loop_chain by (auto simp: ParseV2_def returned_def rbind_def split: sum.split)
qed

theorem ParseV2_terminates_witness:
  "\<exists>ts. tag_chain example_info (0xFFFF800000001000 + ucast (V2_TotalSize example_info 0xFFFF800000001000))
      (0xFFFF800000001000 + 8) ts \<and>
    ParseV2 example_info 0xFFFF800000001000 (Multiboot_reset LOADER_MAGIC_V2 0x1000) =
      ParseTags example_info ts (Multiboot_reset LOADER_MAGIC_V2 0x1000)"
proof (rule ParseV2_terminates)
  fix k
  assume "(Tag_Next example_info ^^ k) (0xFFFF800000001000 + 8)
      < 0xFFFF800000001000 + ucast (V2_TotalSize example_info 0xFFFF800000001000)"
  then show "Tag_Size example_info ((Tag_Next example_info ^^ k) (0xFFFF800000001000 + 8)) \<noteq> 0"
    using example_iterates [of k] by (auto simp: example_simps)
qed simp_all

text \<open>
  C21: Of the RSDP copies the loader handed over, the kernel keeps the last ACPI 2.0 one when there is one
  and the first ACPI 1.0 one otherwise, whatever the order of the tags.
\<close>

theorem ParseV2_prefers_new_rsdp:
  assumes "tag_chain m (InInfo + ucast (V2_TotalSize m InInfo)) (InInfo + 8) ts"
    and "ParseV2 m InInfo mb = Ok mb'" "s_AcpiRsdp mb = 0" "\<And>t. t \<in> set ts \<Longrightarrow> t + 8 \<noteq> 0"
  shows "GetAcpiRsdp mb' = preferred_rsdp m ts"
proof -
  have "ParseTags m ts mb = Ok mb'"
    using assms(2) ParseV2_loop_chain [OF assms(1)] by (auto simp: ParseV2_def returned_def rbind_Ok_iff)
  from ParseTags_rsdp [OF this assms(4)] assms(3) show ?thesis
    by (simp add: GetAcpiRsdp_def)
qed

theorem ParseV2_prefers_new_rsdp_witness:
  "GetAcpiRsdp ((Multiboot_reset LOADER_MAGIC_V2 0x1000)\<lparr>s_AcpiRsdp := 0xFFFF800000001020\<rparr>) =
    preferred_rsdp example_info [0xFFFF800000001008, 0xFFFF800000001018]"
proof (rule ParseV2_prefers_new_rsdp [where InInfo = "0xFFFF800000001000"])
  show "ParseV2 example_info 0xFFFF800000001000 (Multiboot_reset LOADER_MAGIC_V2 0x1000) =
      Ok ((Multiboot_reset LOADER_MAGIC_V2 0x1000)\<lparr>s_AcpiRsdp := 0xFFFF800000001020\<rparr>)"
    by (rule example_parse)
qed (use example_chain in \<open>auto simp: Multiboot_reset_def\<close>)

end
