(* ===== verification/HK_Frame.thy ===== *)
theory HK_Frame
  imports HK_Multiboot
begin

text \<open>
  \<open>Kernel/Memory/Frame.cpp\<close>: the physical frame allocator over a bitmap. The module statics are
  the record \<open>frames\<close>; each operation under \<open>s_Lock\<close> with interrupts off is one state
  transformer. The bitmap is kept apart from the byte memory the boot structures are read from,
  which \<open>FirstFit_sound\<close> justifies: its location overlaps none of them. The two linker symbols
  are fields of the record \<open>boot\<close>.
\<close>

section \<open>The model\<close>

definition FRAME_SIZE :: u64 where [config_defs]: "FRAME_SIZE = 4 * KIB"
definition BITS_PER_WORD :: u64 where [config_defs]: "BITS_PER_WORD = 64"
definition ALL_TAKEN :: u64 where "ALL_TAKEN = NOT 0"
definition NOT_FOUND :: u64 where "NOT_FOUND = - 1"

record frames =
  s_Taken :: "u64 list"
  s_WordCount :: u64
  s_FrameCount :: u64
  s_ReachableFrames :: u64
  s_TotalFrames :: u64
  s_FreeFrames :: u64
  s_NextIndex :: u64

record boot =
  boot_mem :: memory
  boot_mb :: multiboot
  BOOT_START :: u64
  KERNEL_END :: u64

definition Frame_bit :: "u64 \<Rightarrow> u64" where
  "Frame_bit InIndex = push_bit (unat (InIndex mod BITS_PER_WORD)) 1"

definition Frame_word :: "u64 \<Rightarrow> nat" where
  "Frame_word InIndex = unat (InIndex div BITS_PER_WORD)"

definition Frame_IsTaken :: "frames \<Rightarrow> u64 \<Rightarrow> bool" where
  "Frame_IsTaken st InIndex \<longleftrightarrow> s_Taken st ! Frame_word InIndex AND Frame_bit InIndex \<noteq> 0"

definition Frame_Take :: "u64 \<Rightarrow> frames \<Rightarrow> frames" where
  "Frame_Take InIndex st = st\<lparr>s_Taken := (s_Taken st)[Frame_word InIndex :=
     s_Taken st ! Frame_word InIndex OR Frame_bit InIndex]\<rparr>"

definition Frame_Release :: "u64 \<Rightarrow> frames \<Rightarrow> frames" where
  "Frame_Release InIndex st = st\<lparr>s_Taken := (s_Taken st)[Frame_word InIndex :=
     s_Taken st ! Frame_word InIndex AND NOT (Frame_bit InIndex)]\<rparr>"

definition Frame_Add :: "u64 \<Rightarrow> u64 \<Rightarrow> frames \<Rightarrow> frames" where
  "Frame_Add InStart InEnd st =
    (let first = (InStart + FRAME_SIZE - 1) div FRAME_SIZE;
         last = Math_Min (InEnd div FRAME_SIZE) (s_FrameCount st)
     in for_loop first last (\<lambda>index st.
          if Frame_IsTaken st index
          then (Frame_Release index st)\<lparr>s_TotalFrames := s_TotalFrames st + 1, s_FreeFrames := s_FreeFrames st + 1\<rparr>
          else st) st)"

definition Frame_Reserve :: "u64 \<Rightarrow> u64 \<Rightarrow> frames \<Rightarrow> frames" where
  "Frame_Reserve InStart InEnd st =
    (if InEnd \<le> InStart then st
     else let first = InStart div FRAME_SIZE;
              last = Math_Min ((InEnd + FRAME_SIZE - 1) div FRAME_SIZE) (s_FrameCount st)
     in for_loop first last (\<lambda>index st.
          if \<not> Frame_IsTaken st index
          then (Frame_Take index st)\<lparr>s_FreeFrames := s_FreeFrames st - 1\<rparr>
          else st) st)"

record Range =
  Range_Start :: u64
  Range_End :: u64

definition KernelRange :: "boot \<Rightarrow> Range" where
  "KernelRange b = \<lparr>Range_Start = BOOT_START b, Range_End = KERNEL_END b - KERNEL_VMA\<rparr>"

definition HighestAvailableAddress :: "boot \<Rightarrow> u64 result" where
  "HighestAvailableAddress b =
     index_loop (\<lambda>i. Ok (GetMemoryRegion (boot_mem b) (boot_mb b) i))
       (\<lambda>region highest. if Region_Type region = MEMORY_AVAILABLE
          then Math_Max highest (Region_End region) else highest) 0 0"

definition Overlaps :: "Range \<Rightarrow> Range \<Rightarrow> bool" where
  "Overlaps l r \<longleftrightarrow> Range_Start l < Range_End r \<and> Range_Start r < Range_End l"

text \<open>\<open>Some\<close> carries \<open>OutRetryAt\<close> of the call that returns true.\<close>

definition IsBlocked :: "boot \<Rightarrow> Range \<Rightarrow> u64 option result" where
  "IsBlocked b InRange =
    (if Overlaps InRange (KernelRange b) then Ok (Some (Range_End (KernelRange b)))
     else rbind (index_find (GetInfoRegion (boot_mem b) (boot_mb b))
         (\<lambda>info. Ok (if Region_Length info \<noteq> 0 \<and>
             Overlaps InRange \<lparr>Range_Start = Region_Address info, Range_End = Region_End info\<rparr>
           then Some (Region_End info) else None)) 0) (\<lambda>hit.
       case hit of Some retryAt \<Rightarrow> Ok (Some retryAt)
       | None \<Rightarrow> index_find (\<lambda>i. Ok (GetModule (boot_mem b) (boot_mb b) i))
           (\<lambda>module. Ok (if Overlaps InRange \<lparr>Range_Start = Module_Start module, Range_End = Module_End module\<rparr>
             then Some (Module_End module) else None)) 0))"

definition FrameAlign :: "u64 \<Rightarrow> u64" where
  "FrameAlign a = (a + FRAME_SIZE - 1) AND NOT (FRAME_SIZE - 1)"

partial_function (option) FirstFit_loop :: "boot \<Rightarrow> u64 \<Rightarrow> u64 \<Rightarrow> u64 \<Rightarrow> u64 result option" where
  "FirstFit_loop b InEnd InBytes start =
    (if start + InBytes \<le> InEnd then
       case IsBlocked b \<lparr>Range_Start = start, Range_End = start + InBytes\<rparr> of
         Inl e \<Rightarrow> Some (Inl e)
       | Inr None \<Rightarrow> Some (Inr start)
       | Inr (Some retryAt) \<Rightarrow> FirstFit_loop b InEnd InBytes (FrameAlign retryAt)
     else Some (Inr 0))"

definition FirstFit :: "boot \<Rightarrow> Range \<Rightarrow> u64 \<Rightarrow> u64 result" where
  "FirstFit b InRange InBytes =
     rbind (returned (FirstFit_loop b (Range_End InRange) InBytes (FrameAlign (Range_Start InRange)))) id"

definition ChooseBitmapLocation :: "boot \<Rightarrow> u64 \<Rightarrow> u64 result" where
  "ChooseBitmapLocation b InBytes =
     rbind (index_find (\<lambda>i. Ok (GetMemoryRegion (boot_mem b) (boot_mb b) i))
       (\<lambda>region.
         if Region_Type region \<noteq> MEMORY_AVAILABLE then Ok None
         else let usable = \<lparr>Range_Start = Math_Max (Region_Address region) MIB,
                            Range_End = Math_Min (Region_End region) IDENTITY_MAPPED_LIMIT\<rparr>
         in if Range_Start usable \<ge> Range_End usable then Ok None
         else rbind (FirstFit b usable InBytes) (\<lambda>location.
           Ok (if location \<noteq> 0 then Some location else None))) 0)
     (\<lambda>hit. Ok (case hit of Some location \<Rightarrow> location | None \<Rightarrow> 0))"

definition AddAvailableMemory :: "boot \<Rightarrow> frames \<Rightarrow> frames result" where
  "AddAvailableMemory b st =
     index_loop (\<lambda>i. Ok (GetMemoryRegion (boot_mem b) (boot_mb b) i))
       (\<lambda>region st. if Region_Type region = MEMORY_AVAILABLE
          then Frame_Add (Region_Address region) (Region_End region) st else st) 0 st"

definition ReserveKnownUsers :: "boot \<Rightarrow> frames \<Rightarrow> frames result" where
  "ReserveKnownUsers b st =
    (let st1 = Frame_Reserve 0 MIB st;
         kernel = KernelRange b;
         st2 = Frame_Reserve (Range_Start kernel) (Range_End kernel) st1
     in rbind (index_loop (GetInfoRegion (boot_mem b) (boot_mb b))
            (\<lambda>info st. Frame_Reserve (Region_Address info) (Region_End info) st) 0 st2) (\<lambda>st3.
        index_loop (\<lambda>i. Ok (GetModule (boot_mem b) (boot_mb b) i))
            (\<lambda>module st. Frame_Reserve (Module_Start module) (Module_End module) st) 0 st3))"

text \<open>The result carries the chosen bitmap location beside the state.\<close>

definition Frame_Initialize :: "boot \<Rightarrow> (u64 \<times> frames) result" where
  "Frame_Initialize b =
     rbind (HighestAvailableAddress b) (\<lambda>highest.
     let frameCount = (highest + FRAME_SIZE - 1) div FRAME_SIZE;
         wordCount = (frameCount + BITS_PER_WORD - 1) div BITS_PER_WORD;
         bytes = wordCount * 8
     in rbind (ChooseBitmapLocation b bytes) (\<lambda>location.
        if location = 0 then Err (Panicked ''No room for the frame bitmap'')
        else let st = \<lparr>s_Taken = replicate (unat wordCount) ALL_TAKEN, s_WordCount = wordCount,
            s_FrameCount = frameCount,
            s_ReachableFrames = Math_Min (IDENTITY_MAPPED_LIMIT div FRAME_SIZE) frameCount,
            s_TotalFrames = 0, s_FreeFrames = 0, s_NextIndex = 0\<rparr>
        in rbind (AddAvailableMemory b st) (\<lambda>st1.
           rbind (ReserveKnownUsers b st1) (\<lambda>st2.
           let st3 = Frame_Reserve location (location + bytes) st2
           in if s_FreeFrames st3 = 0 then Err (Panicked ''No usable physical memory'')
              else Ok (location, st3)))))"

definition SetReachableLimit :: "u64 \<Rightarrow> frames \<Rightarrow> frames" where
  "SetReachableLimit InLimit st = st\<lparr>s_ReachableFrames := Math_Min (InLimit div FRAME_SIZE) (s_FrameCount st)\<rparr>"

function FindRun_loop :: "frames \<Rightarrow> u64 \<Rightarrow> u64 \<Rightarrow> u64 \<Rightarrow> u64" where
  "FindRun_loop st InCount index run =
    (if index < s_ReachableFrames st then
       if Frame_IsTaken st index then FindRun_loop st InCount (index + 1) 0
       else if run + 1 = InCount then index + 1 - InCount
       else FindRun_loop st InCount (index + 1) (run + 1)
     else NOT_FOUND)"
  by auto
termination
  by (relation "measure (\<lambda>(st, n, i, r). unat (s_ReachableFrames st) - unat i)")
    (auto simp: word_nat)

declare FindRun_loop.simps [simp del]

definition FindRun :: "frames \<Rightarrow> u64 \<Rightarrow> u64 \<Rightarrow> u64" where
  "FindRun st InFrom InCount = FindRun_loop st InCount InFrom 0"

definition Frame_Allocate :: "frames \<Rightarrow> u64 \<Rightarrow> u64 \<times> frames" where
  "Frame_Allocate st InCount =
    (if InCount = 0 then (0, st)
     else let first0 = FindRun st (s_NextIndex st) InCount;
              first = (if first0 = NOT_FOUND \<and> s_NextIndex st \<noteq> 0 then FindRun st 0 InCount else first0)
     in if first = NOT_FOUND then (0, st)
        else let st1 = for_loop first (first + InCount) Frame_Take st
        in (first * FRAME_SIZE,
            st1\<lparr>s_FreeFrames := s_FreeFrames st1 - InCount,
               s_NextIndex := if first + InCount < s_ReachableFrames st1 then first + InCount else 0\<rparr>))"

definition Frame_FreeOne :: "u64 \<Rightarrow> frames result \<Rightarrow> frames result" where
  "Frame_FreeOne index r = rbind r (\<lambda>st. rbind (ASSERT ''IsTaken(index)'' (Frame_IsTaken st index)) (\<lambda>_.
     Ok ((Frame_Release index st)\<lparr>s_FreeFrames := s_FreeFrames st + 1\<rparr>)))"

definition Frame_Free :: "frames \<Rightarrow> u64 \<Rightarrow> u64 \<Rightarrow> frames result" where
  "Frame_Free st InAddress InCount =
    (if InAddress = 0 \<or> InCount = 0 then Ok st
     else rbind (ASSERT ''InAddress % SIZE == 0'' (InAddress mod FRAME_SIZE = 0)) (\<lambda>_.
       let first = InAddress div FRAME_SIZE
       in rbind (ASSERT ''first + InCount <= s_FrameCount'' (first + InCount \<le> s_FrameCount st)) (\<lambda>_.
         for_loop first (first + InCount) Frame_FreeOne (Ok st))))"

text \<open>\<open>Free\<close> as the \<open>-opt\<close> build has it, where \<open>NDEBUG\<close> compiles the three assertions to nothing.\<close>

definition Frame_FreeOne_opt :: "u64 \<Rightarrow> frames \<Rightarrow> frames" where
  "Frame_FreeOne_opt index st = (Frame_Release index st)\<lparr>s_FreeFrames := s_FreeFrames st + 1\<rparr>"

definition Frame_Free_opt :: "frames \<Rightarrow> u64 \<Rightarrow> u64 \<Rightarrow> frames" where
  "Frame_Free_opt st InAddress InCount =
    (if InAddress = 0 \<or> InCount = 0 then st
     else let first = InAddress div FRAME_SIZE
       in for_loop first (first + InCount) Frame_FreeOne_opt st)"

definition GetTotalFrames :: "frames \<Rightarrow> u64" where "GetTotalFrames st = s_TotalFrames st"
definition GetFreeFrames :: "frames \<Rightarrow> u64" where "GetFreeFrames st = s_FreeFrames st"
definition GetUsedFrames :: "frames \<Rightarrow> u64" where
  "GetUsedFrames st = s_TotalFrames st - s_FreeFrames st"

section \<open>The bitmap as a set of free frames\<close>

definition taken :: "frames \<Rightarrow> nat \<Rightarrow> bool" where
  "taken st k \<longleftrightarrow> bit (s_Taken st ! (k div 64)) (k mod 64)"

definition free_set :: "frames \<Rightarrow> nat set" where
  "free_set st = {k. k < unat (s_FrameCount st) \<and> \<not> taken st k}"

definition shape :: "frames \<Rightarrow> bool" where
  "shape st \<longleftrightarrow> unat (s_FrameCount st) \<le> 64 * length (s_Taken st) \<and> unat (s_FrameCount st) \<le> 2 ^ 52"

definition counted :: "frames \<Rightarrow> bool" where
  "counted st \<longleftrightarrow> unat (s_FreeFrames st) = card (free_set st)"

lemma Frame_word_nat [simp]: "Frame_word i = unat i div 64"
  by (simp add: Frame_word_def unat_div config_defs)

lemma Frame_bit_nat: "Frame_bit i = 2 ^ (unat i mod 64)"
  by (simp add: Frame_bit_def unat_mod config_defs push_bit_eq_mult)

lemma bit_Frame_bit: "bit (Frame_bit i) j \<longleftrightarrow> j = unat i mod 64"
  by (auto simp: Frame_bit_nat bit_exp_iff)

lemma IsTaken_taken: "Frame_IsTaken st i \<longleftrightarrow> taken st (unat i)"
  by (simp add: Frame_IsTaken_def taken_def Frame_bit_nat and_exp_eq_0_iff_not_bit)

lemma same_index: "k div 64 = i div 64 \<Longrightarrow> k mod 64 = i mod 64 \<longleftrightarrow> k = i" for k i :: nat
  by (metis div_mult_mod_eq)

lemma taken_update:
  assumes "i div 64 < length (s_Taken st)"
    and "\<And>j. j < 64 \<Longrightarrow> bit w j \<longleftrightarrow> (if j = i mod 64 then v else bit (s_Taken st ! (i div 64)) j)"
  shows "taken (st\<lparr>s_Taken := (s_Taken st)[i div 64 := w]\<rparr>) k \<longleftrightarrow> (if k = i then v else taken st k)"
proof (cases "k div 64 = i div 64")
  case True
  then show ?thesis using assms same_index [OF True] by (simp add: taken_def)
next
  case False
  then show ?thesis by (auto simp: taken_def)
qed

lemma taken_Take:
  "unat i div 64 < length (s_Taken st) \<Longrightarrow> taken (Frame_Take i st) k \<longleftrightarrow> (if k = unat i then True else taken st k)"
  unfolding Frame_Take_def Frame_word_nat
  by (rule taken_update) (auto simp: bit_or_iff bit_Frame_bit)

lemma taken_Release:
  "unat i div 64 < length (s_Taken st) \<Longrightarrow> taken (Frame_Release i st) k \<longleftrightarrow> (if k = unat i then False else taken st k)"
  unfolding Frame_Release_def Frame_word_nat
  by (rule taken_update) (auto simp: bit_and_iff bit_not_iff bit_Frame_bit)

lemma taken_fields [simp]:
  "taken (st\<lparr>s_FreeFrames := a\<rparr>) = taken st" "taken (st\<lparr>s_TotalFrames := a\<rparr>) = taken st"
  "taken (st\<lparr>s_NextIndex := a\<rparr>) = taken st" "taken (st\<lparr>s_ReachableFrames := a\<rparr>) = taken st"
  by (simp_all add: taken_def fun_eq_iff)

lemma Take_fields [simp]:
  "s_FrameCount (Frame_Take i st) = s_FrameCount st" "s_WordCount (Frame_Take i st) = s_WordCount st"
  "s_ReachableFrames (Frame_Take i st) = s_ReachableFrames st" "s_TotalFrames (Frame_Take i st) = s_TotalFrames st"
  "s_FreeFrames (Frame_Take i st) = s_FreeFrames st" "s_NextIndex (Frame_Take i st) = s_NextIndex st"
  "length (s_Taken (Frame_Take i st)) = length (s_Taken st)"
  by (simp_all add: Frame_Take_def)

lemma Release_fields [simp]:
  "s_FrameCount (Frame_Release i st) = s_FrameCount st" "s_WordCount (Frame_Release i st) = s_WordCount st"
  "s_ReachableFrames (Frame_Release i st) = s_ReachableFrames st" "s_TotalFrames (Frame_Release i st) = s_TotalFrames st"
  "s_FreeFrames (Frame_Release i st) = s_FreeFrames st" "s_NextIndex (Frame_Release i st) = s_NextIndex st"
  "length (s_Taken (Frame_Release i st)) = length (s_Taken st)"
  by (simp_all add: Frame_Release_def)

lemma free_set_finite [simp]: "finite (free_set st)"
  by (simp add: free_set_def)

lemma free_set_card: "card (free_set st) \<le> unat (s_FrameCount st)"
  using card_mono [of "{..<unat (s_FrameCount st)}" "free_set st"] by (auto simp: free_set_def)

lemma shape_word: "shape st \<Longrightarrow> k < unat (s_FrameCount st) \<Longrightarrow> k div 64 < length (s_Taken st)"
  by (auto simp: shape_def)

text \<open>What the loops keep: everything but the bitmap and the counters.\<close>

definition same_frame :: "frames \<Rightarrow> frames \<Rightarrow> bool" where
  "same_frame st st' \<longleftrightarrow> s_FrameCount st' = s_FrameCount st \<and> s_WordCount st' = s_WordCount st \<and>
     s_ReachableFrames st' = s_ReachableFrames st \<and> s_NextIndex st' = s_NextIndex st \<and>
     length (s_Taken st') = length (s_Taken st)"

lemma same_frame_refl [simp]: "same_frame st st"
  by (simp add: same_frame_def)

lemma same_frame_shape: "same_frame st st' \<Longrightarrow> shape st' = shape st"
  by (simp add: same_frame_def shape_def)

lemma same_frame_trans: "same_frame a b \<Longrightarrow> same_frame b c \<Longrightarrow> same_frame a c"
  by (simp add: same_frame_def)

lemma free_set_Take:
  assumes "shape st" "unat i < unat (s_FrameCount st)"
  shows "free_set (Frame_Take i st) = free_set st - {unat i}"
  using taken_Take [OF shape_word [OF assms]] by (auto simp: free_set_def split: if_split_asm)

lemma free_set_Release:
  assumes "shape st" "unat i < unat (s_FrameCount st)"
  shows "free_set (Frame_Release i st) = insert (unat i) (free_set st)"
  using taken_Release [OF shape_word [OF assms]] assms(2) by (auto simp: free_set_def split: if_split_asm)

lemma free_set_fields [simp]:
  "free_set (st\<lparr>s_FreeFrames := a\<rparr>) = free_set st" "free_set (st\<lparr>s_TotalFrames := a\<rparr>) = free_set st"
  "free_set (st\<lparr>s_NextIndex := a\<rparr>) = free_set st" "free_set (st\<lparr>s_ReachableFrames := a\<rparr>) = free_set st"
  by (simp_all add: free_set_def)

lemma free_inc:
  fixes i :: u64
  assumes "shape st" "counted st" "unat i < unat (s_FrameCount st)" "taken st (unat i)"
  shows "unat (s_FreeFrames st + 1) = card (insert (unat i) (free_set st))"
proof -
  have "unat (s_FreeFrames st) \<le> 2 ^ 52"
    using assms(1,2) free_set_card [of st] by (simp add: shape_def counted_def)
  moreover have "unat i \<notin> free_set st" using assms(4) by (simp add: free_set_def)
  ultimately show ?thesis using assms(2) by (simp add: unat_add_no_wrap counted_def)
qed

lemma free_dec:
  fixes i :: u64
  assumes "counted st" "unat i < unat (s_FrameCount st)" "\<not> taken st (unat i)"
  shows "unat (s_FreeFrames st - 1) = card (free_set st - {unat i})"
proof -
  have i: "unat i \<in> free_set st" using assms(2,3) by (simp add: free_set_def)
  then have "0 < unat (s_FreeFrames st)" using assms(1) by (auto simp: counted_def card_gt_0_iff)
  then show ?thesis using assms(1) i by (simp add: counted_def unat_minus_one unat_gt_0)
qed

section \<open>Add and Reserve\<close>

lemma Add_loop:
  fixes first final :: u64
  assumes "shape st" "counted st" "unat final \<le> unat (s_FrameCount st)"
  defines "st' \<equiv> for_loop first final (\<lambda>index st.
          if Frame_IsTaken st index
          then (Frame_Release index st)\<lparr>s_TotalFrames := s_TotalFrames st + 1, s_FreeFrames := s_FreeFrames st + 1\<rparr>
          else st) st"
  shows "same_frame st st' \<and> counted st' \<and> free_set st' = free_set st \<union> {unat first..<unat final} \<and>
    s_TotalFrames st' - s_FreeFrames st' = s_TotalFrames st - s_FreeFrames st"
proof -
  let ?P = "\<lambda>k s. same_frame st s \<and> counted s \<and> free_set s = free_set st \<union> {unat first..<k} \<and>
    s_TotalFrames s - s_FreeFrames s = s_TotalFrames st - s_FreeFrames st"
  have "?P (max (unat first) (unat final)) st'"
    unfolding st'_def
  proof (rule for_loop_rule [where P = ?P])
    fix k s
    assume k: "unat first \<le> k" "k < unat final" and P: "?P k s"
    let ?i = "of_nat k :: u64"
    have i: "unat ?i = k" "k < unat (s_FrameCount s)"
      using k assms(3) P by (auto simp: unat_of_nat_less same_frame_def)
    have sh: "shape s" using P assms(1) same_frame_shape by blast
    have rng: "{unat first..<Suc k} = insert k {unat first..<k}" using k by auto
    show "?P (Suc k) (if Frame_IsTaken s ?i then (Frame_Release ?i s)\<lparr>s_TotalFrames := s_TotalFrames s + 1,
        s_FreeFrames := s_FreeFrames s + 1\<rparr> else s)"
    proof (cases "taken s k")
      case True
      have "free_set (Frame_Release ?i s) = insert k (free_set s)"
        using free_set_Release [of s ?i] sh i by simp
      moreover have "unat (s_FreeFrames s + 1) = card (insert k (free_set s))"
        using free_inc [of s ?i] sh P i True by simp
      ultimately show ?thesis
        using P True i rng by (simp add: IsTaken_taken same_frame_def counted_def)
    next
      case False
      then have "k \<in> free_set s" using i by (simp add: free_set_def)
      then show ?thesis using P False i rng by (auto simp: IsTaken_taken)
    qed
  qed (use assms in simp)
  moreover have "{unat first..<max (unat first) (unat final)} = {unat first..<unat final}" by auto
  ultimately show ?thesis by simp
qed

lemma Reserve_loop:
  fixes first final :: u64
  assumes "shape st" "counted st" "unat final \<le> unat (s_FrameCount st)"
  defines "st' \<equiv> for_loop first final (\<lambda>index st.
          if \<not> Frame_IsTaken st index then (Frame_Take index st)\<lparr>s_FreeFrames := s_FreeFrames st - 1\<rparr> else st) st"
  shows "same_frame st st' \<and> counted st' \<and> free_set st' = free_set st - {unat first..<unat final} \<and>
    s_TotalFrames st' = s_TotalFrames st"
proof -
  let ?P = "\<lambda>k s. same_frame st s \<and> counted s \<and> free_set s = free_set st - {unat first..<k} \<and>
    s_TotalFrames s = s_TotalFrames st"
  have "?P (max (unat first) (unat final)) st'"
    unfolding st'_def
  proof (rule for_loop_rule [where P = ?P])
    fix k s
    assume k: "unat first \<le> k" "k < unat final" and P: "?P k s"
    let ?i = "of_nat k :: u64"
    have i: "unat ?i = k" "k < unat (s_FrameCount s)"
      using k assms(3) P by (auto simp: unat_of_nat_less same_frame_def)
    have sh: "shape s" using P assms(1) same_frame_shape by blast
    have fs: "free_set s = free_set st - {unat first..<k}" using P by blast
    have rng: "free_set st - {unat first..<Suc k} = free_set s - {k}"
      unfolding fs using k(1) by auto
    show "?P (Suc k) (if \<not> Frame_IsTaken s ?i then (Frame_Take ?i s)\<lparr>s_FreeFrames := s_FreeFrames s - 1\<rparr> else s)"
    proof (cases "taken s k")
      case False
      have "free_set (Frame_Take ?i s) = free_set s - {k}"
        using free_set_Take [of s ?i] sh i by simp
      moreover have "unat (s_FreeFrames s - 1) = card (free_set s - {k})"
        using free_dec [of s ?i] P i False by simp
      ultimately show ?thesis
        using P False i rng by (simp add: IsTaken_taken same_frame_def counted_def)
    next
      case True
      then have "k \<notin> free_set s" by (simp add: free_set_def)
      then show ?thesis using P True i rng by (simp add: IsTaken_taken)
    qed
  qed (use assms in simp)
  moreover have "{unat first..<max (unat first) (unat final)} = {unat first..<unat final}" by auto
  ultimately show ?thesis by simp
qed

text \<open>The byte addresses of a frame, and of a range.\<close>

definition frame_of :: "nat \<Rightarrow> nat set" where "frame_of k = {4096 * k..<4096 * k + 4096}"

abbreviation span :: "u64 \<Rightarrow> u64 \<Rightarrow> nat set" where "span a b \<equiv> {unat a..<unat b}"

lemma frame_of_sub: "frame_of k \<subseteq> {a..<b} \<longleftrightarrow> a \<le> 4096 * k \<and> 4096 * k + 4096 \<le> b" for a b :: nat
  by (auto simp: frame_of_def)

lemma frame_of_disjoint:
  "frame_of k \<inter> {a..<b} = {} \<longleftrightarrow> b \<le> a \<or> 4096 * k + 4096 \<le> a \<or> b \<le> 4096 * k" for a b :: nat
proof -
  have "frame_of k \<inter> {a..<b} = {max (4096 * k) a..<min (4096 * k + 4096) b}"
    by (simp add: frame_of_def)
  then show ?thesis by auto
qed

lemma less_div_iff: "k < n div 4096 \<longleftrightarrow> 4096 * k + 4096 \<le> n" for n k :: nat
  by (simp add: Suc_le_eq [symmetric] less_eq_div_iff_mult_less_eq mult.commute add.commute)

lemma div_le_iff: "n div 4096 \<le> k \<longleftrightarrow> n < 4096 * k + 4096" for n k :: nat
  using less_div_iff [of k n] by linarith

lemma ceil_div_le: "(n + 4095) div 4096 \<le> k \<longleftrightarrow> n \<le> 4096 * k" for n k :: nat
  using less_div_iff [of k "n + 4095"] by linarith

lemma less_ceil_iff: "k < (n + 4095) div 4096 \<longleftrightarrow> 4096 * k < n" for n k :: nat
  using ceil_div_le [of n k] by linarith

lemma round_up_nat:
  fixes a :: u64
  assumes "unat a + 4096 \<le> 2 ^ 64"
  shows "unat ((a + FRAME_SIZE - 1) div FRAME_SIZE) = (unat a + 4095) div 4096"
proof -
  have "unat (a + (4096 - 1)) = unat a + 4095"
    using assms by (subst unat_add_no_wrap) auto
  then show ?thesis by (simp add: unat_div config_defs add_diff_eq [symmetric])
qed

lemma Frame_Add_spec:
  assumes "shape st" "counted st" "unat InStart + 4096 \<le> 2 ^ 64"
  shows "same_frame st (Frame_Add InStart InEnd st) \<and> counted (Frame_Add InStart InEnd st) \<and>
    free_set (Frame_Add InStart InEnd st) =
      free_set st \<union> {k. k < unat (s_FrameCount st) \<and> frame_of k \<subseteq> span InStart InEnd} \<and>
    s_TotalFrames (Frame_Add InStart InEnd st) - s_FreeFrames (Frame_Add InStart InEnd st) =
      s_TotalFrames st - s_FreeFrames st"
proof -
  let ?f = "(InStart + FRAME_SIZE - 1) div FRAME_SIZE"
  let ?l = "Math_Min (InEnd div FRAME_SIZE) (s_FrameCount st)"
  have l: "unat ?l = min (unat InEnd div 4096) (unat (s_FrameCount st))"
    by (simp add: unat_Math_Min unat_div config_defs)
  have "{unat ?f..<unat ?l} = {k. k < unat (s_FrameCount st) \<and> frame_of k \<subseteq> span InStart InEnd}"
    unfolding l round_up_nat [OF assms(3)] by (auto simp: frame_of_sub ceil_div_le less_div_iff)
  with Add_loop [OF assms(1,2), of ?l ?f] show ?thesis
    by (simp add: Frame_Add_def Let_def l)
qed

lemma Frame_Reserve_spec:
  assumes "shape st" "counted st" "unat InEnd + 4096 \<le> 2 ^ 64"
  shows "same_frame st (Frame_Reserve InStart InEnd st) \<and> counted (Frame_Reserve InStart InEnd st) \<and>
    free_set (Frame_Reserve InStart InEnd st) = {k \<in> free_set st. frame_of k \<inter> span InStart InEnd = {}} \<and>
    s_TotalFrames (Frame_Reserve InStart InEnd st) = s_TotalFrames st"
proof (cases "InEnd \<le> InStart")
  case True
  then show ?thesis using assms by (auto simp: Frame_Reserve_def frame_of_disjoint word_nat)
next
  case False
  let ?f = "InStart div FRAME_SIZE"
  let ?l = "Math_Min ((InEnd + FRAME_SIZE - 1) div FRAME_SIZE) (s_FrameCount st)"
  have l: "unat ?l = min ((unat InEnd + 4095) div 4096) (unat (s_FrameCount st))"
    by (simp only: unat_Math_Min round_up_nat [OF assms(3)])
  have f: "unat ?f = unat InStart div 4096" by (simp add: unat_div config_defs)
  have "free_set st - {unat ?f..<unat ?l} = {k \<in> free_set st. frame_of k \<inter> span InStart InEnd = {}}"
    unfolding l f frame_of_disjoint using False
    by (auto simp: free_set_def word_nat div_le_iff less_ceil_iff not_less)
  with Reserve_loop [OF assms(1,2), of ?l ?f] False show ?thesis
    by (simp add: Frame_Reserve_def Let_def l)
qed

section \<open>Finding a run\<close>

definition run_free :: "frames \<Rightarrow> nat \<Rightarrow> nat \<Rightarrow> bool" where
  "run_free st s n \<longleftrightarrow> (\<forall>k. s \<le> k \<and> k < s + n \<longrightarrow> k < unat (s_ReachableFrames st) \<and> \<not> taken st k)"

lemma NOT_FOUND_nat: "unat NOT_FOUND = 2 ^ 64 - 1"
  by (simp add: NOT_FOUND_def unsigned_minus_1_eq_mask mask_eq_exp_minus_1)

text \<open>The loop answers with the first run at or after \<open>index - run\<close>, or none exists there.\<close>

lemma FindRun_loop_spec:
  assumes "run < n" "unat run \<le> unat index" "unat (s_ReachableFrames st) \<le> 2 ^ 52"
    and "\<And>k. unat index - unat run \<le> k \<Longrightarrow> k < unat index \<Longrightarrow> k < unat (s_ReachableFrames st) \<and> \<not> taken st k"
  defines "r \<equiv> FindRun_loop st n index run"
  shows "if r = NOT_FOUND then \<forall>s \<ge> unat index - unat run. \<not> run_free st s (unat n)
    else run_free st (unat r) (unat n) \<and> unat index - unat run \<le> unat r \<and>
      unat r + unat n \<le> unat (s_ReachableFrames st)"
  using assms(1-4) unfolding r_def
proof (induction st n index run rule: FindRun_loop.induct)
  case (1 st n index run)
  let ?R = "unat (s_ReachableFrames st)" and ?b = "unat index - unat run"
  have rn: "unat run < unat n" using 1(3) by (simp add: word_nat)
  show ?case
  proof (cases "index < s_ReachableFrames st")
    case False
    have "\<not> run_free st s (unat n)" if "?b \<le> s" for s
      using that rn 1(4) False unfolding run_free_def
      by (auto simp: word_nat intro!: exI [of _ "s + unat n - 1"])
    then show ?thesis using False by (subst (1 2 3) FindRun_loop.simps) simp
  next
    case True
    have i1: "unat (index + 1) = Suc (unat index)" using True by (rule unat_Suc_less)
    have iR: "unat index < ?R" using True by (simp add: word_nat)
    show ?thesis
    proof (cases "taken st (unat index)")
      case taken: True
      have eq: "FindRun_loop st n index run = FindRun_loop st n (index + 1) 0"
        using True taken by (subst FindRun_loop.simps) (simp add: IsTaken_taken)
      have skip: "\<not> run_free st s (unat n)" if "?b \<le> s" "s \<le> unat index" for s
        using that rn taken 1(4) unfolding run_free_def by (auto intro!: exI [of _ "unat index"])
      have IH: "if FindRun_loop st n (index + 1) 0 = NOT_FOUND
          then \<forall>s \<ge> unat (index + 1) - unat (0 :: u64). \<not> run_free st s (unat n)
          else run_free st (unat (FindRun_loop st n (index + 1) 0)) (unat n) \<and>
            unat (index + 1) - unat (0 :: u64) \<le> unat (FindRun_loop st n (index + 1) 0) \<and>
            unat (FindRun_loop st n (index + 1) 0) + unat n \<le> ?R"
        using True taken 1(3,5) by (intro 1(1)) (auto simp: IsTaken_taken word_nat)
      show ?thesis unfolding eq
        using IH skip i1 by (auto simp: Suc_le_eq split: if_split_asm) (meson not_le)
    next
      case free: False
      have run1: "unat (run + 1) = Suc (unat run)" using 1(3) by (rule unat_Suc_less)
      have upto: "k < ?R \<and> \<not> taken st k" if "?b \<le> k" "k < Suc (unat index)" for k
        using that 1(6) [of k] free iR by (cases "k = unat index") auto
      show ?thesis
      proof (cases "run + 1 = n")
        case hit: True
        have eq: "FindRun_loop st n index run = index + 1 - n"
          using True free hit by (subst FindRun_loop.simps) (simp add: IsTaken_taken)
        have n1: "unat n = Suc (unat run)" using run1 hit by simp
        have r: "unat (index + 1 - n) = ?b"
          using i1 n1 1(4) by (subst unat_sub_le) (auto simp: word_nat)
        have "?b < 2 ^ 52" using iR 1(5) by simp
        then have nf: "index + 1 - n \<noteq> NOT_FOUND"
          using r NOT_FOUND_nat by auto
        have "run_free st ?b (unat n)"
          unfolding run_free_def using upto n1 1(4) by simp
        then show ?thesis unfolding eq using r nf n1 1(4) iR by simp
      next
        case more: False
        have eq: "FindRun_loop st n index run = FindRun_loop st n (index + 1) (run + 1)"
          using True free more by (subst FindRun_loop.simps) (simp add: IsTaken_taken)
        have lt: "run + 1 < n" using more 1(3) run1 by (metis Suc_lessI rn word_less_nat_alt word_unat_eq_iff)
        have b: "unat (index + 1) - unat (run + 1) = ?b" using i1 run1 by simp
        have "if FindRun_loop st n (index + 1) (run + 1) = NOT_FOUND
            then \<forall>s \<ge> unat (index + 1) - unat (run + 1). \<not> run_free st s (unat n)
            else run_free st (unat (FindRun_loop st n (index + 1) (run + 1))) (unat n) \<and>
              unat (index + 1) - unat (run + 1) \<le> unat (FindRun_loop st n (index + 1) (run + 1)) \<and>
              unat (FindRun_loop st n (index + 1) (run + 1)) + unat n \<le> ?R"
          using 1(4,5) free upto run1 i1 by (intro 1(2) True more lt) (auto simp: IsTaken_taken)
        then show ?thesis unfolding eq b .
      qed
    qed
  qed
qed

section \<open>Allocate and Free\<close>

definition frame_inv :: "frames \<Rightarrow> bool" where
  "frame_inv st \<longleftrightarrow> shape st \<and> counted st \<and> s_ReachableFrames st \<le> s_FrameCount st \<and>
     0 \<notin> free_set st \<and> length (s_Taken st) = unat (s_WordCount st)"

text \<open>The frames a block of \<open>n\<close> frames at address \<open>a\<close> covers.\<close>

definition block :: "u64 \<Rightarrow> u64 \<Rightarrow> nat set" where
  "block a n = {unat a div 4096..<unat a div 4096 + unat n}"

lemma Take_loop:
  fixes first final :: u64
  assumes "shape st" "unat final \<le> unat (s_FrameCount st)"
  shows "same_frame st (for_loop first final Frame_Take st) \<and>
    s_FreeFrames (for_loop first final Frame_Take st) = s_FreeFrames st \<and>
    s_TotalFrames (for_loop first final Frame_Take st) = s_TotalFrames st \<and>
    free_set (for_loop first final Frame_Take st) = free_set st - {unat first..<unat final}"
proof -
  let ?P = "\<lambda>k s. same_frame st s \<and> s_FreeFrames s = s_FreeFrames st \<and> s_TotalFrames s = s_TotalFrames st \<and>
    free_set s = free_set st - {unat first..<k}"
  have "?P (max (unat first) (unat final)) (for_loop first final Frame_Take st)"
  proof (rule for_loop_rule [where P = ?P])
    fix k s
    assume k: "unat first \<le> k" "k < unat final" and P: "?P k s"
    have i: "unat (of_nat k :: u64) = k" "k < unat (s_FrameCount s)"
      using k assms(2) P by (auto simp: unat_of_nat_less same_frame_def)
    have sh: "shape s" using P assms(1) same_frame_shape by blast
    have fs: "free_set s = free_set st - {unat first..<k}" using P by blast
    have "free_set (Frame_Take (of_nat k) s) = free_set s - {k}"
      using free_set_Take [of s "of_nat k"] sh i by simp
    also have "\<dots> = free_set st - {unat first..<Suc k}"
      unfolding fs using k(1) by auto
    finally show "?P (Suc k) (Frame_Take (of_nat k) s)"
      using P by (simp add: same_frame_def)
  qed simp
  moreover have "{unat first..<max (unat first) (unat final)} = {unat first..<unat final}" by auto
  ultimately show ?thesis by simp
qed

lemma run_free_subset:
  "run_free st s n \<Longrightarrow> s_ReachableFrames st \<le> s_FrameCount st \<Longrightarrow> {s..<s + n} \<subseteq> free_set st"
  by (fastforce simp: run_free_def free_set_def word_nat)

lemma FindRun_hit:
  assumes "frame_inv st" "0 < n" "FindRun st from n \<noteq> NOT_FOUND"
  shows "run_free st (unat (FindRun st from n)) (unat n)"
    "unat (FindRun st from n) + unat n \<le> unat (s_ReachableFrames st)"
  using assms FindRun_loop_spec [of 0 n "from" st]
  by (auto simp: FindRun_def frame_inv_def shape_def word_nat split: if_split_asm)

lemma FindRun_miss:
  assumes "frame_inv st" "0 < n" "FindRun st from n = NOT_FOUND" "unat from \<le> s"
  shows "\<not> run_free st s (unat n)"
  using assms FindRun_loop_spec [of 0 n "from" st]
  by (auto simp: FindRun_def frame_inv_def shape_def word_nat split: if_split_asm)

text \<open>The index \<open>Allocate\<close> settles on.\<close>

definition ChosenRun :: "frames \<Rightarrow> u64 \<Rightarrow> u64" where
  "ChosenRun st n = (let f = FindRun st (s_NextIndex st) n in
     if f = NOT_FOUND \<and> s_NextIndex st \<noteq> 0 then FindRun st 0 n else f)"

lemma ChosenRun_hit:
  assumes "frame_inv st" "0 < n" "ChosenRun st n \<noteq> NOT_FOUND"
  shows "run_free st (unat (ChosenRun st n)) (unat n)"
    "unat (ChosenRun st n) + unat n \<le> unat (s_ReachableFrames st)"
  using assms FindRun_hit by (auto simp: ChosenRun_def Let_def split: if_split_asm)

lemma ChosenRun_miss:
  assumes "frame_inv st" "0 < n"
  shows "ChosenRun st n = NOT_FOUND \<longleftrightarrow> (\<forall>s. \<not> run_free st s (unat n))"
proof
  assume "ChosenRun st n = NOT_FOUND"
  then have "FindRun st 0 n = NOT_FOUND"
    by (auto simp: ChosenRun_def Let_def split: if_split_asm)
  then show "\<forall>s. \<not> run_free st s (unat n)" using FindRun_miss [OF assms] by simp
qed (use ChosenRun_hit [OF assms] in blast)

lemma Allocate_eq:
  "Frame_Allocate st n =
    (if n = 0 \<or> ChosenRun st n = NOT_FOUND then (0, st)
     else let st1 = for_loop (ChosenRun st n) (ChosenRun st n + n) Frame_Take st
     in (ChosenRun st n * FRAME_SIZE, st1\<lparr>s_FreeFrames := s_FreeFrames st1 - n,
         s_NextIndex := if ChosenRun st n + n < s_ReachableFrames st1 then ChosenRun st n + n else 0\<rparr>))"
  by (simp add: Frame_Allocate_def ChosenRun_def Let_def)

lemma Allocate_success:
  assumes inv: "frame_inv st" and n: "0 < n" and hit: "ChosenRun st n \<noteq> NOT_FOUND"
  defines "a \<equiv> fst (Frame_Allocate st n)" and "st' \<equiv> snd (Frame_Allocate st n)"
  shows "a \<noteq> 0" "unat a mod 4096 = 0" "unat a div 4096 = unat (ChosenRun st n)"
    "block a n \<subseteq> free_set st" "unat a div 4096 + unat n \<le> unat (s_ReachableFrames st)"
    "free_set st' = free_set st - block a n" "frame_inv st'"
    "s_FrameCount st' = s_FrameCount st" "s_ReachableFrames st' = s_ReachableFrames st"
    "s_TotalFrames st' = s_TotalFrames st"
proof -
  let ?f = "ChosenRun st n"
  have R: "unat (s_ReachableFrames st) \<le> unat (s_FrameCount st)" "unat (s_FrameCount st) \<le> 2 ^ 52"
    and sh: "shape st"
    using inv by (auto simp: frame_inv_def shape_def word_nat)
  note run = ChosenRun_hit [OF inv n hit]
  have n0: "0 < unat n" using n by (simp add: word_nat)
  have sub: "{unat ?f..<unat ?f + unat n} \<subseteq> free_set st"
    using run_free_subset [OF run(1)] inv by (simp add: frame_inv_def)
  have fn: "unat (?f + n) = unat ?f + unat n" using run(2) R by (simp add: unat_add_no_wrap)
  have a: "a = ?f * FRAME_SIZE" using n hit by (auto simp: a_def Allocate_eq Let_def)
  have ua: "unat a = unat ?f * 4096"
    unfolding a using run(2) R n0 by (simp add: unat_mult_no_wrap config_defs)
  have "unat ?f \<in> free_set st" using n0 by (intro subsetD [OF sub]) simp
  then have f0: "unat ?f \<noteq> 0" using inv by (metis frame_inv_def)
  have blk: "block a n = {unat ?f..<unat (?f + n)}" by (simp add: block_def ua fn)
  note T = Take_loop [OF sh, of "?f + n" ?f]
  have le: "unat (?f + n) \<le> unat (s_FrameCount st)" using fn run(2) R by simp
  have fs: "free_set st' = free_set st - block a n"
    using n hit T le by (auto simp: st'_def Allocate_eq Let_def blk)
  have cnt: "unat (s_FreeFrames st - n) = card (free_set st - block a n)"
  proof -
    have c: "card (block a n) = unat n" by (simp add: block_def)
    have "card (block a n) \<le> card (free_set st)"
      using sub fn by (intro card_mono) (simp_all add: blk)
    then have "n \<le> s_FreeFrames st" using inv c by (simp add: frame_inv_def counted_def word_nat)
    moreover have "card (free_set st - block a n) = card (free_set st) - card (block a n)"
      using sub fn by (intro card_Diff_subset) (simp_all add: blk block_def [symmetric])
    ultimately show ?thesis using inv c by (simp add: unat_sub_le frame_inv_def counted_def)
  qed
  show "a \<noteq> 0" using ua f0 by auto
  show "unat a mod 4096 = 0" "unat a div 4096 = unat ?f" using ua by auto
  show "block a n \<subseteq> free_set st" using sub fn blk by simp
  show "unat a div 4096 + unat n \<le> unat (s_ReachableFrames st)" using ua run(2) by simp
  show "free_set st' = free_set st - block a n" by (rule fs)
  have eq: "st' = (for_loop ?f (?f + n) Frame_Take st)\<lparr>s_FreeFrames := s_FreeFrames st - n,
      s_NextIndex := if ?f + n < s_ReachableFrames st then ?f + n else 0\<rparr>"
    using n hit T le by (auto simp: st'_def Allocate_eq Let_def same_frame_def)
  show "s_FrameCount st' = s_FrameCount st" "s_ReachableFrames st' = s_ReachableFrames st"
    "s_TotalFrames st' = s_TotalFrames st"
    unfolding eq using T le by (simp_all add: same_frame_def)
  show "frame_inv st'"
    using inv fs cnt T le unfolding eq frame_inv_def counted_def shape_def same_frame_def by simp
qed

lemma Allocate_zero:
  assumes "frame_inv st"
  shows "fst (Frame_Allocate st n) = 0 \<longleftrightarrow> n = 0 \<or> (\<forall>s. \<not> run_free st s (unat n))"
    "fst (Frame_Allocate st n) = 0 \<Longrightarrow> snd (Frame_Allocate st n) = st"
proof -
  have pos: "n \<noteq> 0 \<Longrightarrow> 0 < n" by (simp add: word_gt_0)
  show "fst (Frame_Allocate st n) = 0 \<longleftrightarrow> n = 0 \<or> (\<forall>s. \<not> run_free st s (unat n))"
  proof (cases "n = 0 \<or> ChosenRun st n = NOT_FOUND")
    case True
    then show ?thesis using ChosenRun_miss [OF assms pos] by (auto simp: Allocate_eq)
  next
    case False
    then show ?thesis using Allocate_success(1) [OF assms pos] ChosenRun_miss [OF assms pos] by blast
  qed
  show "fst (Frame_Allocate st n) = 0 \<Longrightarrow> snd (Frame_Allocate st n) = st"
    using Allocate_success(1) [OF assms pos]
    by (cases "n = 0 \<or> ChosenRun st n = NOT_FOUND") (auto simp: Allocate_eq)
qed

lemma Free_loop:
  fixes first final :: u64
  assumes "shape st" "counted st" "unat final \<le> unat (s_FrameCount st)"
  shows "if \<exists>j. unat first \<le> j \<and> j < unat final \<and> \<not> taken st j
    then for_loop first final Frame_FreeOne (Ok st) = Err (AssertionFailed ''IsTaken(index)'')
    else \<exists>s. for_loop first final Frame_FreeOne (Ok st) = Ok s \<and> same_frame st s \<and> counted s \<and>
      s_TotalFrames s = s_TotalFrames st \<and> free_set s = free_set st \<union> {unat first..<unat final}"
proof -
  let ?good = "\<lambda>k s. same_frame st s \<and> counted s \<and> s_TotalFrames s = s_TotalFrames st \<and>
    free_set s = free_set st \<union> {unat first..<k}"
  let ?P = "\<lambda>k r. if \<exists>j. unat first \<le> j \<and> j < k \<and> \<not> taken st j
    then r = Err (AssertionFailed ''IsTaken(index)'') else \<exists>s. r = Ok s \<and> ?good k s"
  have "?P (max (unat first) (unat final)) (for_loop first final Frame_FreeOne (Ok st))"
  proof (rule for_loop_rule [where P = ?P])
    show "?P (unat first) (Ok st)" using assms(2) by simp
  next
    fix k r
    assume k: "unat first \<le> k" "k < unat final" and P: "?P k r"
    have u: "unat (of_nat k :: u64) = k" using k(2) by (rule unat_of_nat_less)
    show "?P (Suc k) (Frame_FreeOne (of_nat k) r)"
    proof (cases "\<exists>j. unat first \<le> j \<and> j < k \<and> \<not> taken st j")
      case True
      then have "r = Err (AssertionFailed ''IsTaken(index)'')" using P by (simp only: if_True)
      moreover have "\<exists>j. unat first \<le> j \<and> j < Suc k \<and> \<not> taken st j" using True less_SucI by blast
      ultimately show ?thesis by (simp add: Frame_FreeOne_def)
    next
      case False
      then obtain s where s: "r = Ok s" "?good k s" using P by (simp only: if_False) blast
      have kF: "k < unat (s_FrameCount s)" "k < unat (s_FrameCount st)"
        using s k(2) assms(3) by (auto simp: same_frame_def)
      have sh: "shape s" using s assms(1) same_frame_shape by blast
      have fs: "free_set s = free_set st \<union> {unat first..<k}" using s(2) by blast
      have tk: "taken s k \<longleftrightarrow> taken st k"
      proof -
        have "k \<in> free_set s \<longleftrightarrow> k \<in> free_set st" unfolding fs by simp
        then show ?thesis using kF by (simp add: free_set_def)
      qed
      show ?thesis
      proof (cases "taken st k")
        case taken: True
        let ?s = "(Frame_Release (of_nat k) s)\<lparr>s_FreeFrames := s_FreeFrames s + 1\<rparr>"
        have "Frame_FreeOne (of_nat k) r = Ok ?s"
          using s(1) taken tk u by (simp add: Frame_FreeOne_def ASSERT_def IsTaken_taken)
        moreover have rel: "free_set ?s = insert k (free_set s)"
          using free_set_Release [of s "of_nat k"] sh u kF by simp
        moreover have "unat (s_FreeFrames s + 1) = card (insert k (free_set s))"
          using free_inc [of s "of_nat k", unfolded u] sh s(2) kF taken tk by blast
        moreover have "insert k (free_set s) = free_set st \<union> {unat first..<Suc k}"
          unfolding fs using k(1) by auto
        ultimately have "\<exists>s. Frame_FreeOne (of_nat k) r = Ok s \<and> ?good (Suc k) s"
          using s(2) by (intro exI [of _ ?s]) (simp add: same_frame_def counted_def)
        moreover have "\<not> (\<exists>j. unat first \<le> j \<and> j < Suc k \<and> \<not> taken st j)"
          using False taken less_Suc_eq by blast
        ultimately show ?thesis by (simp only: if_False)
      next
        case False
        then have "Frame_FreeOne (of_nat k) r = Err (AssertionFailed ''IsTaken(index)'')"
          using s(1) tk u by (simp add: Frame_FreeOne_def ASSERT_def IsTaken_taken)
        moreover have "\<exists>j. unat first \<le> j \<and> j < Suc k \<and> \<not> taken st j" using False k(1) by blast
        ultimately show ?thesis by (simp only: if_True)
      qed
    qed
  qed
  moreover have "{unat first..<max (unat first) (unat final)} = {unat first..<unat final}" by auto
  moreover have "(\<exists>j. unat first \<le> j \<and> j < max (unat first) (unat final) \<and> \<not> taken st j) =
      (\<exists>j. unat first \<le> j \<and> j < unat final \<and> \<not> taken st j)"
    by (auto simp: less_max_iff_disj)
  ultimately show ?thesis by (simp only:)
qed

lemma Free_cases:
  assumes inv: "frame_inv st" and a: "a \<noteq> 0" "n \<noteq> 0" "unat a mod 4096 = 0"
    and fits: "unat a div 4096 + unat n \<le> unat (s_FrameCount st)"
  shows "if block a n \<inter> free_set st = {}
    then \<exists>s. Frame_Free st a n = Ok s \<and> same_frame st s \<and> frame_inv s \<and>
      s_TotalFrames s = s_TotalFrames st \<and> free_set s = free_set st \<union> block a n
    else Frame_Free st a n = Err (AssertionFailed ''IsTaken(index)'')"
proof -
  let ?f = "a div FRAME_SIZE"
  have sh: "shape st" "counted st" using inv by (simp_all add: frame_inv_def)
  have f: "unat ?f = unat a div 4096" by (simp add: unat_div config_defs)
  have fn: "unat (?f + n) = unat a div 4096 + unat n"
    using fits unat64_bound [of "s_FrameCount st"] by (simp add: unat_add_no_wrap f)
  have am: "a mod FRAME_SIZE = 0"
    using a(3) by (simp add: word_unat_eq_iff unat_mod config_defs)
  have eq: "Frame_Free st a n = for_loop ?f (?f + n) Frame_FreeOne (Ok st)"
    using a am fn fits by (simp add: Frame_Free_def ASSERT_def Let_def word_nat)
  have blk: "block a n = {unat ?f..<unat (?f + n)}" by (simp add: block_def f fn)
  have le: "unat (?f + n) \<le> unat (s_FrameCount st)" using fn fits by simp
  have bad: "(\<exists>j. unat ?f \<le> j \<and> j < unat (?f + n) \<and> \<not> taken st j) = (block a n \<inter> free_set st \<noteq> {})"
    using le unfolding blk by (fastforce simp: free_set_def)
  note L = Free_loop [OF sh le, of ?f, unfolded bad, folded blk eq]
  have zero: "0 \<notin> block a n"
  proof -
    have "unat a \<noteq> 0" using a(1) by (simp add: unat_eq_zero)
    then have "0 < unat a div 4096"
      using a(3) div_mult_mod_eq [of "unat a" 4096] by (cases "unat a div 4096") simp_all
    then show ?thesis by (simp add: block_def)
  qed
  show ?thesis
  proof (cases "block a n \<inter> free_set st = {}")
    case True
    then obtain s where s: "Frame_Free st a n = Ok s" "same_frame st s" "counted s"
        "s_TotalFrames s = s_TotalFrames st" "free_set s = free_set st \<union> block a n"
      using L by auto
    have "frame_inv s"
      using inv s zero by (auto simp: frame_inv_def same_frame_def shape_def)
    with True s show ?thesis by simp
  next
    case False
    then show ?thesis using L by simp
  qed
qed

text \<open>
  Without the assertions the frames become free and the counter rises by their number, whether or not
  they were taken; where the assertions pass, both builds do the same.
\<close>

lemma Free_opt_effect:
  assumes inv: "frame_inv st" and a: "a \<noteq> 0" "n \<noteq> 0"
    and fits: "unat a div 4096 + unat n \<le> unat (s_FrameCount st)"
  shows "same_frame st (Frame_Free_opt st a n)" "free_set (Frame_Free_opt st a n) = free_set st \<union> block a n"
    "s_FreeFrames (Frame_Free_opt st a n) = s_FreeFrames st + n"
proof -
  let ?f = "a div FRAME_SIZE"
  let ?P = "\<lambda>k s. same_frame st s \<and> free_set s = free_set st \<union> {unat ?f..<k}
    \<and> s_FreeFrames s = s_FreeFrames st + of_nat (k - unat ?f)"
  have f: "unat ?f = unat a div 4096" by (simp add: unat_div config_defs)
  have fn: "unat (?f + n) = unat a div 4096 + unat n"
    using fits unat64_bound [of "s_FrameCount st"] by (simp add: unat_add_no_wrap f)
  have "?P (max (unat ?f) (unat (?f + n))) (for_loop ?f (?f + n) Frame_FreeOne_opt st)"
  proof (rule for_loop_rule [where P = ?P])
    fix k s
    assume k: "unat ?f \<le> k" "k < unat (?f + n)" and P: "?P k s"
    have u: "unat (of_nat k :: u64) = k" using k(2) by (rule unat_of_nat_less)
    have "same_frame st s" using P by blast
    then have "shape s" "k < unat (s_FrameCount s)"
      using same_frame_shape [of st s] inv k(2) fn fits by (simp_all add: same_frame_def frame_inv_def)
    then have "free_set (Frame_Release (of_nat k) s) = insert k (free_set s)"
      using free_set_Release [of s "of_nat k"] u by simp
    moreover have "{unat ?f..<Suc k} = insert k {unat ?f..<k}" using k by auto
    ultimately show "?P (Suc k) (Frame_FreeOne_opt (of_nat k) s)"
      using P k(1) by (simp add: Frame_FreeOne_opt_def same_frame_def Suc_diff_le)
  qed simp
  moreover have "unat a div 4096 + unat n - unat a div 4096 = unat n" by simp
  ultimately show "same_frame st (Frame_Free_opt st a n)" "free_set (Frame_Free_opt st a n) = free_set st \<union> block a n"
    "s_FreeFrames (Frame_Free_opt st a n) = s_FreeFrames st + n"
    using a by (simp_all add: Frame_Free_opt_def Let_def block_def f fn max_def)
qed

lemma Free_opt_agrees:
  assumes "Frame_Free st a n = Ok s"
  shows "Frame_Free_opt st a n = s"
proof -
  have one: "\<exists>st. r = Ok st \<and> s = Frame_FreeOne_opt x st" if "Frame_FreeOne x r = Ok s" for x r s
    using that by (cases r) (simp_all add: Frame_FreeOne_def Frame_FreeOne_opt_def ASSERT_def split: if_splits)
  have all: "\<exists>st. r = Ok st \<and> s = fold Frame_FreeOne_opt xs st" if "fold Frame_FreeOne xs r = Ok s" for xs r
    using that
  proof (induction xs arbitrary: r)
    case (Cons x xs)
    then obtain st where "Frame_FreeOne x r = Ok st" "s = fold Frame_FreeOne_opt xs st" by auto
    then show ?case using one by fastforce
  qed simp
  show ?thesis
  proof (cases "a = 0 \<or> n = 0")
    case False
    then have "for_loop (a div FRAME_SIZE) (a div FRAME_SIZE + n) Frame_FreeOne (Ok st) = Ok s"
      using assms by (simp add: Frame_Free_def ASSERT_def Let_def split: if_splits)
    then show ?thesis using False all [of _ "Ok st"] unfolding for_loop_fold Frame_Free_opt_def Let_def by simp
  qed (use assms in \<open>simp add: Frame_Free_def Frame_Free_opt_def\<close>)
qed

section \<open>The contract of a frame allocator\<close>

text \<open>
  What the page tables, the heap and the stacks rely on. \<open>avail\<close> is the set of frames that may be
  handed out, \<open>managed\<close> bounds their numbers.
\<close>

datatype frame_op = AllocFrames u64 | FreeFrames nat

text \<open>A client that allocates and returns blocks; \<open>live\<close> is what it currently holds.\<close>

fun frame_run ::
    "('s \<Rightarrow> u64 \<Rightarrow> u64 \<times> 's) \<Rightarrow> ('s \<Rightarrow> u64 \<Rightarrow> u64 \<Rightarrow> 's result) \<Rightarrow> frame_op list \<Rightarrow>
      's \<Rightarrow> (u64 \<times> u64) list \<Rightarrow> ('s \<times> (u64 \<times> u64) list) result" where
  "frame_run alloc release [] s live = Ok (s, live)"
| "frame_run alloc release (AllocFrames n # ops) s live =
     (case alloc s n of (a, s') \<Rightarrow> frame_run alloc release ops s' (if a = 0 then live else (a, n) # live))"
| "frame_run alloc release (FreeFrames i # ops) s live =
     (if i < length live
      then rbind (release s (fst (live ! i)) (snd (live ! i)))
             (\<lambda>s'. frame_run alloc release ops s' (take i live @ drop (Suc i) live))
      else frame_run alloc release ops s live)"

definition block_ok :: "nat \<Rightarrow> u64 \<Rightarrow> u64 \<Rightarrow> bool" where
  "block_ok m a n \<longleftrightarrow> a \<noteq> 0 \<and> n \<noteq> 0 \<and> unat a mod 4096 = 0 \<and> unat a div 4096 + unat n \<le> m"

text \<open>
  The books of a client: the blocks it holds are disjoint from each other and from what is
  available, and together with it make up what was available at the start.
\<close>

fun ledger :: "nat \<Rightarrow> nat set \<Rightarrow> nat set \<Rightarrow> (u64 \<times> u64) list \<Rightarrow> bool" where
  "ledger m av av0 [] \<longleftrightarrow> av = av0"
| "ledger m av av0 ((a, n) # live) \<longleftrightarrow>
     block_ok m a n \<and> block a n \<inter> av = {} \<and> ledger m (av \<union> block a n) av0 live"

lemma ledger_remove:
  "ledger m av av0 (xs @ (a, n) # ys) \<Longrightarrow>
     block_ok m a n \<and> block a n \<inter> av = {} \<and> ledger m (av \<union> block a n) av0 (xs @ ys)"
proof (induction xs arbitrary: av)
  case (Cons x xs)
  obtain b k where x: "x = (b, k)" by (cases x)
  have "block_ok m a n \<and> block a n \<inter> (av \<union> block b k) = {} \<and>
      ledger m (av \<union> block b k \<union> block a n) av0 (xs @ ys)"
    using Cons.prems x by (intro Cons.IH) simp
  then show ?case using Cons.prems x by (auto simp: Un_ac)
qed simp

lemma ledger_total: "ledger m av av0 live \<Longrightarrow> av0 = av \<union> (\<Union>(a, n) \<in> set live. block a n)"
  by (induction m av av0 live rule: ledger.induct) auto

lemma ledger_fresh: "ledger m av av0 live \<Longrightarrow> (a, n) \<in> set live \<Longrightarrow> block a n \<inter> av = {}"
  by (induction m av av0 live rule: ledger.induct) auto

lemma ledger_disjoint:
  "ledger m av av0 live \<Longrightarrow> i < j \<Longrightarrow> j < length live \<Longrightarrow>
     block (fst (live ! i)) (snd (live ! i)) \<inter> block (fst (live ! j)) (snd (live ! j)) = {}"
proof (induction m av av0 live arbitrary: i j rule: ledger.induct)
  case (2 m av av0 a n live)
  show ?case
  proof (cases i)
    case 0
    then obtain j' where j: "j = Suc j'" "j' < length live" using 2(3,4) by (cases j) auto
    then have "live ! j' \<in> set live" by simp
    with ledger_fresh [of m "av \<union> block a n" av0 live "fst (live ! j')" "snd (live ! j')"] 2(2) j 0
    show ?thesis by auto
  next
    case (Suc i')
    then show ?thesis using 2 by (cases j) auto
  qed
qed simp

locale frame_allocator =
  fixes inv :: "'s \<Rightarrow> bool"
    and avail :: "'s \<Rightarrow> nat set"
    and managed :: "'s \<Rightarrow> nat"
    and alloc :: "'s \<Rightarrow> u64 \<Rightarrow> u64 \<times> 's"
    and release :: "'s \<Rightarrow> u64 \<Rightarrow> u64 \<Rightarrow> 's result"
  assumes alloc_none: "inv s \<Longrightarrow> alloc s n = (0, s') \<Longrightarrow> s' = s"
    and alloc_some: "inv s \<Longrightarrow> alloc s n = (a, s') \<Longrightarrow> a \<noteq> 0 \<Longrightarrow>
      block_ok (managed s) a n \<and> block a n \<subseteq> avail s \<and> avail s' = avail s - block a n \<and>
      managed s' = managed s \<and> inv s'"
    and release_ok: "inv s \<Longrightarrow> block_ok (managed s) a n \<Longrightarrow> block a n \<inter> avail s = {} \<Longrightarrow>
      \<exists>s'. release s a n = Ok s' \<and> inv s' \<and> managed s' = managed s \<and> avail s' = avail s \<union> block a n"
begin

lemma alloc_ledger:
  assumes "inv s" "alloc s n = (a, s')" "ledger (managed s) (avail s) av0 live"
  shows "inv s' \<and> ledger (managed s') (avail s') av0 (if a = 0 then live else (a, n) # live)"
proof (cases "a = 0")
  case True
  then show ?thesis using alloc_none assms by auto
next
  case False
  from alloc_some [OF assms(1,2) False] have
    "block_ok (managed s) a n" "block a n \<subseteq> avail s" "avail s' = avail s - block a n"
    "managed s' = managed s" "inv s'" by auto
  moreover from this have "avail s' \<union> block a n = avail s" by auto
  ultimately show ?thesis using False assms(3) by auto
qed

lemma release_ledger:
  assumes "inv s" "ledger (managed s) (avail s) av0 live" "i < length live"
  shows "\<exists>s'. release s (fst (live ! i)) (snd (live ! i)) = Ok s' \<and> inv s' \<and>
    ledger (managed s') (avail s') av0 (take i live @ drop (Suc i) live)"
proof -
  have "live = take i live @ (fst (live ! i), snd (live ! i)) # drop (Suc i) live"
    using assms(3) by (simp add: id_take_nth_drop)
  then have "block_ok (managed s) (fst (live ! i)) (snd (live ! i))"
    "block (fst (live ! i)) (snd (live ! i)) \<inter> avail s = {}"
    "ledger (managed s) (avail s \<union> block (fst (live ! i)) (snd (live ! i))) av0 (take i live @ drop (Suc i) live)"
    using ledger_remove assms(2) by metis+
  with release_ok [OF assms(1)] show ?thesis by metis
qed

lemma run_ledger:
  assumes "inv s" "ledger (managed s) (avail s) av0 live"
  shows "\<exists>s' live'. frame_run alloc release ops s live = Ok (s', live') \<and> inv s' \<and>
    ledger (managed s') (avail s') av0 live'"
  using assms
proof (induction ops arbitrary: s live)
  case (Cons op ops)
  show ?case
  proof (cases op)
    case (AllocFrames n)
    obtain a s1 where "alloc s n = (a, s1)" by (cases "alloc s n")
    with alloc_ledger [OF Cons.prems(1) this Cons.prems(2)] Cons.IH AllocFrames show ?thesis by simp
  next
    case (FreeFrames i)
    show ?thesis
    proof (cases "i < length live")
      case True
      from release_ledger [OF Cons.prems True] Cons.IH FreeFrames True show ?thesis by fastforce
    next
      case False
      with Cons FreeFrames show ?thesis by simp
    qed
  qed
qed simp

end

interpretation frame_alloc: frame_allocator frame_inv free_set "\<lambda>st. unat (s_FrameCount st)"
    Frame_Allocate Frame_Free
proof (unfold_locales, goal_cases)
  case (1 s n s')
  then show ?case using Allocate_zero(2) [of s n] by simp
next
  case (2 s n a s')
  then have hit: "n \<noteq> 0" "ChosenRun s n \<noteq> NOT_FOUND" by (auto simp: Allocate_eq)
  then have "0 < n" by (simp add: word_gt_0)
  note A = Allocate_success [OF 2(1) this hit(2), unfolded 2(2) fst_conv snd_conv]
  have "unat (s_ReachableFrames s) \<le> unat (s_FrameCount s)" using 2(1) by (simp add: frame_inv_def word_nat)
  then have "block_ok (unat (s_FrameCount s)) a n" unfolding block_ok_def using A(1,2,5) hit(1) by auto
  with A(4,6,7,8) show ?case by simp
next
  case (3 s a n)
  then show ?case
    using Free_cases [of s a n] by (auto simp: block_ok_def same_frame_def)
qed

section \<open>An example state\<close>

text \<open>Eight frames, the first two taken.\<close>

definition example_frames :: frames where
  "example_frames = \<lparr>s_Taken = [3], s_WordCount = 1, s_FrameCount = 8, s_ReachableFrames = 8,
     s_TotalFrames = 6, s_FreeFrames = 6, s_NextIndex = 0\<rparr>"

lemma example_bits: "k < 8 \<Longrightarrow> bit (3 :: u64) k \<longleftrightarrow> k < 2" for k :: nat
  by (auto simp: numeral_eq_Suc less_Suc_eq)

lemma example_free: "free_set example_frames = {2..<8}"
proof -
  have "taken example_frames k \<longleftrightarrow> k < 2" if "k < 8" for k
    using that example_bits [OF that] by (simp add: taken_def example_frames_def)
  then show ?thesis by (fastforce simp: free_set_def example_frames_def [THEN arg_cong [of _ _ s_FrameCount]])
qed

lemma example_inv: "frame_inv example_frames"
  using example_free by (simp add: frame_inv_def shape_def counted_def) (simp add: example_frames_def)

section \<open>Properties\<close>

text \<open>
  C5: \<open>Allocate\<close> hands out only frames that are free and below the reachable limit: a non-zero result is
  frame aligned, its block was free, exactly that block leaves the free set, the free counter
  stays the number of clear bits, and the invariant is kept.
\<close>

theorem Frame_Allocate_sound:
  assumes "frame_inv st" "Frame_Allocate st n = (a, st')" "a \<noteq> 0"
  shows "unat a mod 4096 = 0 \<and> block a n \<subseteq> free_set st \<and>
    unat a div 4096 + unat n \<le> unat (s_ReachableFrames st) \<and>
    free_set st' = free_set st - block a n \<and> unat (GetFreeFrames st') = card (free_set st') \<and> frame_inv st'"
proof -
  have hit: "n \<noteq> 0" "ChosenRun st n \<noteq> NOT_FOUND" using assms by (auto simp: Allocate_eq)
  then have "0 < n" by (simp add: word_gt_0)
  note A = Allocate_success [OF assms(1) this hit(2), unfolded assms(2) fst_conv snd_conv]
  then show ?thesis by (simp add: frame_inv_def counted_def GetFreeFrames_def)
qed

theorem Frame_Allocate_sound_witness:
  "\<exists>a st'. Frame_Allocate example_frames 3 = (a, st') \<and> a \<noteq> 0 \<and> unat a mod 4096 = 0 \<and>
    block a 3 \<subseteq> free_set example_frames \<and> frame_inv st'"
proof -
  have "fst (Frame_Allocate example_frames 3) = 0x2000" by code_simp
  then obtain st' where "Frame_Allocate example_frames 3 = (0x2000, st')" by (metis prod.collapse)
  with Frame_Allocate_sound [OF example_inv this] show ?thesis by simp
qed

text \<open>
  C6: \<open>Allocate\<close> is complete: it returns 0 exactly when zero frames are asked for or no run of that many
  consecutive free frames exists below the reachable limit, and then changes nothing. The next-fit
  start index loses no run.
\<close>

theorem Frame_Allocate_complete:
  assumes "frame_inv st"
  shows "(fst (Frame_Allocate st n) = 0 \<longleftrightarrow>
      n = 0 \<or> \<not> (\<exists>s. \<forall>k. s \<le> k \<and> k < s + unat n \<longrightarrow> k < unat (s_ReachableFrames st) \<and> \<not> taken st k)) \<and>
    (fst (Frame_Allocate st n) = 0 \<longrightarrow> snd (Frame_Allocate st n) = st)"
  using Allocate_zero [OF assms, of n] by (simp add: run_free_def)

theorem Frame_Allocate_complete_witness:
  "fst (Frame_Allocate example_frames 7) = 0 \<and> snd (Frame_Allocate example_frames 7) = example_frames"
proof -
  have "fst (Frame_Allocate example_frames 7) = 0" by code_simp
  with Frame_Allocate_complete [OF example_inv, of 7] show ?thesis by simp
qed

text \<open>
  C10: freeing a block any of whose frames is already free, wherever in the block it is. In the ordinary
  build the assertion fires. The \<open>-opt\<close> build, which compiles assertions away, does not notice: the free
  counter then exceeds the number of clear bits by the frames freed twice, and the invariant is lost.
  Where every frame of the block is taken, both builds do the same and add exactly the block.
\<close>

theorem Frame_double_free_detected:
  assumes "frame_inv st" "block_ok (unat (s_FrameCount st)) a n"
  shows "(block a n \<inter> free_set st \<noteq> {} \<longrightarrow> Frame_Free st a n = Err (AssertionFailed ''IsTaken(index)'')
       \<and> \<not> frame_inv (Frame_Free_opt st a n)) \<and>
    (block a n \<inter> free_set st = {} \<longrightarrow> Frame_Free st a n = Ok (Frame_Free_opt st a n) \<and> frame_inv (Frame_Free_opt st a n)) \<and>
    free_set (Frame_Free_opt st a n) = free_set st \<union> block a n \<and>
    unat (GetFreeFrames (Frame_Free_opt st a n)) = card (free_set (Frame_Free_opt st a n)) + card (block a n \<inter> free_set st)"
proof -
  note ok = assms(2) [unfolded block_ok_def]
  have F: "same_frame st (Frame_Free_opt st a n)" "free_set (Frame_Free_opt st a n) = free_set st \<union> block a n"
    "s_FreeFrames (Frame_Free_opt st a n) = s_FreeFrames st + n"
    using Free_opt_effect [OF assms(1), of a n] ok by blast+
  have "card (free_set st) \<le> 2 ^ 52" "unat n \<le> 2 ^ 52" "unat (s_FreeFrames st) = card (free_set st)"
    using assms(1) free_set_card [of st] ok by (simp_all add: frame_inv_def shape_def counted_def)
  then have "unat (s_FreeFrames (Frame_Free_opt st a n)) = card (free_set st) + card (block a n)"
    unfolding F(3) by (subst unat_add_no_wrap) (simp_all add: block_def)
  also have "\<dots> = card (free_set (Frame_Free_opt st a n)) + card (block a n \<inter> free_set st)"
    unfolding F(2) using card_Un_Int [of "free_set st" "block a n"] by (simp add: block_def Int_commute)
  finally have count: "unat (s_FreeFrames (Frame_Free_opt st a n)) =
      card (free_set (Frame_Free_opt st a n)) + card (block a n \<inter> free_set st)" .
  moreover have "card (block a n \<inter> free_set st) \<noteq> 0" if "block a n \<inter> free_set st \<noteq> {}"
    using that by (simp add: card_eq_0_iff)
  ultimately have "\<not> frame_inv (Frame_Free_opt st a n)" if "block a n \<inter> free_set st \<noteq> {}"
    using that by (simp add: frame_inv_def counted_def)
  moreover note cases = Free_cases [OF assms(1) ok [THEN conjunct1] ok [THEN conjunct2, THEN conjunct1]
      ok [THEN conjunct2, THEN conjunct2, THEN conjunct1] ok [THEN conjunct2, THEN conjunct2, THEN conjunct2]]
  have "Frame_Free st a n = Err (AssertionFailed ''IsTaken(index)'')" if "block a n \<inter> free_set st \<noteq> {}"
    using cases that by (simp only: if_False)
  moreover have "Frame_Free st a n = Ok (Frame_Free_opt st a n) \<and> frame_inv (Frame_Free_opt st a n)"
    if empty: "block a n \<inter> free_set st = {}"
  proof -
    obtain s where "Frame_Free st a n = Ok s" "frame_inv s"
      using cases unfolding if_P [OF empty] by blast
    then show ?thesis using Free_opt_agrees by simp
  qed
  ultimately show ?thesis using F(2) count unfolding GetFreeFrames_def by blast
qed

theorem Frame_double_free_detected_witness:
  "Frame_Free example_frames 0x1000 2 = Err (AssertionFailed ''IsTaken(index)'') \<and>
   unat (GetFreeFrames (Frame_Free_opt example_frames 0x1000 2)) =
     card (free_set (Frame_Free_opt example_frames 0x1000 2)) + 1"
proof -
  have "block_ok (unat (s_FrameCount example_frames)) 0x1000 2"
    by (simp add: block_ok_def example_frames_def)
  moreover have "block 0x1000 2 \<inter> free_set example_frames = {2}" by (auto simp: example_free block_def)
  ultimately show ?thesis using Frame_double_free_detected [OF example_inv, of "0x1000" 2] by simp
qed

text \<open>
  C7: Over any sequence of allocations and frees of held blocks, no assertion fires, the blocks held are
  pairwise disjoint and disjoint from the free frames, and the free frames together with the
  held ones are exactly the frames that were free at the start: no frame is leaked or shared.
\<close>

theorem Frame_trace_safe:
  assumes "frame_inv st"
  shows "\<exists>st' live. frame_run Frame_Allocate Frame_Free ops st [] = Ok (st', live) \<and> frame_inv st' \<and>
    (\<forall>i j. i < j \<and> j < length live \<longrightarrow>
       block (fst (live ! i)) (snd (live ! i)) \<inter> block (fst (live ! j)) (snd (live ! j)) = {}) \<and>
    (\<forall>(a, n) \<in> set live. block a n \<inter> free_set st' = {}) \<and>
    free_set st = free_set st' \<union> (\<Union>(a, n) \<in> set live. block a n)"
proof -
  obtain st' live where "frame_run Frame_Allocate Frame_Free ops st [] = Ok (st', live)" "frame_inv st'"
      and L: "ledger (unat (s_FrameCount st')) (free_set st') (free_set st) live"
    using frame_alloc.run_ledger [OF assms, of "free_set st" "[]" ops] by auto
  moreover have "\<forall>(a, n) \<in> set live. block a n \<inter> free_set st' = {}" using ledger_fresh [OF L] by blast
  ultimately show ?thesis using ledger_disjoint [OF L] ledger_total [OF L] by blast
qed

theorem Frame_trace_safe_witness:
  "\<exists>st' live. frame_run Frame_Allocate Frame_Free [AllocFrames 2, AllocFrames 3, FreeFrames 1, AllocFrames 2]
      example_frames [] = Ok (st', live) \<and>
    (\<forall>i j. i < j \<and> j < length live \<longrightarrow>
       block (fst (live ! i)) (snd (live ! i)) \<inter> block (fst (live ! j)) (snd (live ! j)) = {})"
proof -
  note T = Frame_trace_safe [OF example_inv, of "[AllocFrames 2, AllocFrames 3, FreeFrames 1, AllocFrames 2]"]
  then show ?thesis by (elim exE conjE) (intro exI conjI)
qed

end
