(* ===== verification/HK_FrameInit.thy ===== *)
theory HK_FrameInit
  imports HK_Frame
begin

text \<open>
  The frame allocator after \<open>Frame::Initialize\<close>: where the bitmap is put and which frames are
  free. \<open>boot_sane\<close> states what is relied on of the loader's tables and the linker symbols:
  no range reaches the top of the address space and the command line is terminated.
\<close>

definition blockers :: "boot \<Rightarrow> Range list" where
  "blockers b = KernelRange b #
     map (\<lambda>r. \<lparr>Range_Start = Region_Address r, Range_End = Region_End r\<rparr>)
       (filter (\<lambda>r. Region_Length r \<noteq> 0) (InfoRegions (boot_mem b) (boot_mb b))) @
     map (\<lambda>m. \<lparr>Range_Start = Module_Start m, Range_End = Module_End m\<rparr>) (Modules (boot_mem b) (boot_mb b))"

definition available :: "boot \<Rightarrow> MemoryRegion list" where
  "available b = filter (\<lambda>r. Region_Type r = MEMORY_AVAILABLE) (MemoryRegions (boot_mem b) (boot_mb b))"

definition boot_sane :: "boot \<Rightarrow> bool" where
  "boot_sane b \<longleftrightarrow> CommandLine_terminated (boot_mem b) (boot_mb b) \<and>
     (\<forall>r \<in> set (blockers b). unat (Range_End r) \<le> 2 ^ 63) \<and>
     (\<forall>r \<in> set (available b). unat (Region_Address r) + unat (Region_Length r) + 4096 \<le> 2 ^ 64)"

section \<open>Placing the bitmap\<close>

lemma find_list_pure:
  "find_list (\<lambda>x. Ok (if P x then Some (f x) else None)) xs = Ok (map_option f (find P xs))"
  by (induction xs) auto

lemma find_append: "find P (xs @ ys) = (case find P xs of None \<Rightarrow> find P ys | Some x \<Rightarrow> Some x)"
  by (induction xs) auto

lemma find_map: "find P (map f xs) = map_option f (find (P \<circ> f) xs)"
  by (induction xs) auto

lemma find_filter: "find P (filter Q xs) = find (\<lambda>x. Q x \<and> P x) xs"
  by (induction xs) auto

lemma IsBlocked_spec:
  assumes "CommandLine_terminated (boot_mem b) (boot_mb b)"
  shows "IsBlocked b rg = Ok (map_option Range_End (find (Overlaps rg) (blockers b)))"
proof -
  have "index_find (GetInfoRegion (boot_mem b) (boot_mb b))
      (\<lambda>info. Ok (if Region_Length info \<noteq> 0 \<and>
         Overlaps rg \<lparr>Range_Start = Region_Address info, Range_End = Region_End info\<rparr>
         then Some (Region_End info) else None)) 0 =
    Ok (map_option Region_End (find (\<lambda>info. Region_Length info \<noteq> 0 \<and>
         Overlaps rg \<lparr>Range_Start = Region_Address info, Range_End = Region_End info\<rparr>)
       (InfoRegions (boot_mem b) (boot_mb b))))"
    by (simp add: index_find_list [OF enumerates_Info [OF assms]] find_list_pure)
  moreover have "index_find (\<lambda>i. Ok (GetModule (boot_mem b) (boot_mb b) i))
      (\<lambda>module. Ok (if Overlaps rg \<lparr>Range_Start = Module_Start module, Range_End = Module_End module\<rparr>
         then Some (Module_End module) else None)) 0 =
    Ok (map_option Module_End (find (\<lambda>module.
         Overlaps rg \<lparr>Range_Start = Module_Start module, Range_End = Module_End module\<rparr>)
       (Modules (boot_mem b) (boot_mb b))))"
    by (simp add: index_find_list [OF enumerates_Module] find_list_pure)
  ultimately show ?thesis
    by (simp add: IsBlocked_def blockers_def find_append find_map find_filter comp_def option.map_comp
        split: option.split)
qed

lemma FrameAlign_nat:
  assumes "unat a + 4096 \<le> 2 ^ 64"
  shows "unat (FrameAlign a) = (unat a + 4095) div 4096 * 4096"
proof -
  have "unat (a + (4096 - 1)) = unat a + 4095"
    using assms by (subst unat_add_no_wrap) auto
  moreover have "FrameAlign a = (a + (4096 - 1)) AND NOT (mask 12)"
    by (simp add: FrameAlign_def config_defs mask_eq_exp_minus_1 add_diff_eq add.commute)
  ultimately show ?thesis by (simp only: and_not_mask_nat) simp
qed

lemma FrameAlign_bounds:
  assumes "unat a \<le> 2 ^ 63"
  shows "unat a \<le> unat (FrameAlign a)" "unat (FrameAlign a) \<le> 2 ^ 63" "unat (FrameAlign a) mod 4096 = 0"
proof -
  have e: "unat (FrameAlign a) = (unat a + 4095) div 4096 * 4096"
    using assms by (intro FrameAlign_nat) simp
  have "(unat a + 4095) div 4096 * 4096 + (unat a + 4095) mod 4096 = unat a + 4095"
    "(unat a + 4095) mod 4096 < 4096" by simp_all
  then show "unat a \<le> unat (FrameAlign a)" unfolding e by linarith
  have "(unat a + 4095) div 4096 \<le> 2 ^ 51" using assms by (simp add: ceil_div_le)
  then show "unat (FrameAlign a) \<le> 2 ^ 63" unfolding e by simp
  show "unat (FrameAlign a) mod 4096 = 0" unfolding e by simp
qed

definition fits_at :: "boot \<Rightarrow> u64 \<Rightarrow> u64 \<Rightarrow> u64 \<Rightarrow> u64 \<Rightarrow> bool" where
  "fits_at b lo hi bytes r \<longleftrightarrow> lo \<le> r \<and> unat r mod 4096 = 0 \<and> unat r + unat bytes \<le> unat hi \<and>
     (\<forall>bl \<in> set (blockers b). \<not> Overlaps \<lparr>Range_Start = r, Range_End = r + bytes\<rparr> bl)"

lemma FirstFit_loop_spec:
  assumes sane: "boot_sane b" and bytes: "unat bytes \<le> 2 ^ 62"
    and start: "unat start \<le> 2 ^ 63" "unat start mod 4096 = 0"
  shows "\<exists>r. FirstFit_loop b hi bytes start = Some (Ok r) \<and> (r \<noteq> 0 \<longrightarrow> fits_at b start hi bytes r)"
  using start
proof (induction "2 ^ 64 - unat start" arbitrary: start rule: less_induct)
  case less
  let ?rg = "\<lparr>Range_Start = start, Range_End = start + bytes\<rparr>"
  have cl: "CommandLine_terminated (boot_mem b) (boot_mb b)" using sane by (simp add: boot_sane_def)
  have sum: "unat (start + bytes) = unat start + unat bytes"
    using less.prems(1) bytes by (intro unat_add_no_wrap) simp
  show ?case
  proof (cases "start + bytes \<le> hi")
    case False
    then show ?thesis by (subst FirstFit_loop.simps) simp
  next
    case True
    show ?thesis
    proof (cases "find (Overlaps ?rg) (blockers b)")
      case None
      then have "FirstFit_loop b hi bytes start = Some (Ok start)"
        using True by (subst FirstFit_loop.simps) (simp add: IsBlocked_spec [OF cl])
      moreover have "fits_at b start hi bytes start"
        using None True less.prems(2) sum by (auto simp: fits_at_def find_None_iff word_nat)
      ultimately show ?thesis by blast
    next
      case (Some bl)
      let ?next = "FrameAlign (Range_End bl)"
      have bl: "bl \<in> set (blockers b)" "Overlaps ?rg bl"
        using Some by (auto simp: find_Some_iff)
      then have e: "unat (Range_End bl) \<le> 2 ^ 63" "unat start < unat (Range_End bl)"
        using sane by (auto simp: boot_sane_def Overlaps_def word_nat)
      note al = FrameAlign_bounds [OF e(1)]
      have "unat start < 2 ^ 64" by (rule unat64_bound)
      then have "\<exists>r. FirstFit_loop b hi bytes ?next = Some (Ok r) \<and> (r \<noteq> 0 \<longrightarrow> fits_at b ?next hi bytes r)"
        using al e(2) by (intro less.hyps) linarith+
      moreover have "FirstFit_loop b hi bytes start = FirstFit_loop b hi bytes ?next"
        using True Some by (subst FirstFit_loop.simps) (simp add: IsBlocked_spec [OF cl])
      moreover have "fits_at b ?next hi bytes r \<Longrightarrow> fits_at b start hi bytes r" for r
        using al(1) e(2) by (auto simp: fits_at_def word_nat)
      ultimately show ?thesis by metis
    qed
  qed
qed

lemma find_list_ok:
  assumes "\<And>x. x \<in> set xs \<Longrightarrow> \<exists>h. body x = Ok h \<and> (\<forall>y. h = Some y \<longrightarrow> Q x y)"
  shows "\<exists>h. find_list body xs = Ok h \<and> (\<forall>y. h = Some y \<longrightarrow> (\<exists>x \<in> set xs. Q x y))"
  using assms
proof (induction xs)
  case (Cons x xs)
  obtain r where r: "body x = Ok r" "\<forall>y. r = Some y \<longrightarrow> Q x y" using Cons.prems [of x] by auto
  show ?case
  proof (cases r)
    case None
    then show ?thesis using r Cons.IH Cons.prems by auto
  next
    case (Some y)
    then show ?thesis using r by auto
  qed
qed simp

definition usable :: "MemoryRegion \<Rightarrow> Range" where
  "usable r = \<lparr>Range_Start = Math_Max (Region_Address r) MIB,
     Range_End = Math_Min (Region_End r) IDENTITY_MAPPED_LIMIT\<rparr>"

lemma FirstFit_sound:
  assumes "boot_sane b" "unat bytes \<le> 2 ^ 62" "Range_Start (usable r) < Range_End (usable r)"
  shows "\<exists>loc. FirstFit b (usable r) bytes = Ok loc \<and>
    (loc \<noteq> 0 \<longrightarrow> fits_at b (Range_Start (usable r)) (Range_End (usable r)) bytes loc)"
proof -
  have "unat (Range_End (usable r)) \<le> 2 ^ 32"
    by (simp add: usable_def unat_Math_Min config_defs)
  then have "unat (Range_Start (usable r)) \<le> 2 ^ 63" using assms(3) by (simp add: word_nat)
  note al = FrameAlign_bounds [OF this]
  obtain loc where "FirstFit_loop b (Range_End (usable r)) bytes (FrameAlign (Range_Start (usable r))) = Some (Ok loc)"
      "loc \<noteq> 0 \<longrightarrow> fits_at b (FrameAlign (Range_Start (usable r))) (Range_End (usable r)) bytes loc"
    using FirstFit_loop_spec [OF assms(1,2) al(2,3)] by blast
  then show ?thesis using al(1) by (auto simp: FirstFit_def fits_at_def word_nat)
qed

lemma ChooseBitmapLocation_spec:
  assumes "boot_sane b" "unat bytes \<le> 2 ^ 62"
  shows "\<exists>loc. ChooseBitmapLocation b bytes = Ok loc \<and>
    (loc \<noteq> 0 \<longrightarrow> (\<exists>r \<in> set (available b).
       fits_at b (Range_Start (usable r)) (Range_End (usable r)) bytes loc))"
proof -
  let ?body = "\<lambda>region.
         if Region_Type region \<noteq> MEMORY_AVAILABLE then Ok None
         else let usable = usable region
         in if Range_Start usable \<ge> Range_End usable then Ok None
         else rbind (FirstFit b usable bytes) (\<lambda>location. Ok (if location \<noteq> 0 then Some location else None))"
  let ?Q = "\<lambda>r loc. loc \<noteq> 0 \<and> Region_Type r = MEMORY_AVAILABLE \<and>
    fits_at b (Range_Start (usable r)) (Range_End (usable r)) bytes loc"
  have "\<exists>h. ?body r = Ok h \<and> (\<forall>y. h = Some y \<longrightarrow> ?Q r y)" for r
    using FirstFit_sound [OF assms, of r] by (auto simp: Let_def not_le)
  then have "\<exists>h. find_list ?body (MemoryRegions (boot_mem b) (boot_mb b)) = Ok h \<and>
      (\<forall>y. h = Some y \<longrightarrow> (\<exists>x \<in> set (MemoryRegions (boot_mem b) (boot_mb b)). ?Q x y))"
    by (intro find_list_ok)
  then obtain r where r: "find_list ?body (MemoryRegions (boot_mem b) (boot_mb b)) = Ok r"
      "\<forall>y. r = Some y \<longrightarrow> (\<exists>x \<in> set (MemoryRegions (boot_mem b) (boot_mb b)). ?Q x y)" by blast
  have "ChooseBitmapLocation b bytes = Ok (case r of Some location \<Rightarrow> location | None \<Rightarrow> 0)"
    unfolding ChooseBitmapLocation_def index_find_list [OF enumerates_Memory] usable_def [symmetric] r(1)
    by simp
  then show ?thesis using r(2) by (cases r) (auto simp: available_def)
qed

section \<open>The free frames\<close>

lemma fold_filter: "fold (\<lambda>x s. if P x then f x s else s) xs s = fold f (filter P xs) s"
  by (induction xs arbitrary: s) auto

lemma AddAvailableMemory_fold:
  "AddAvailableMemory b st = Ok (fold (\<lambda>r. Frame_Add (Region_Address r) (Region_End r)) (available b) st)"
  unfolding AddAvailableMemory_def index_loop_list [OF enumerates_Memory] available_def
  by (simp add: fold_filter)

lemma fold_Add:
  assumes "shape st" "counted st"
    and "\<And>r. r \<in> set rs \<Longrightarrow> unat (Region_Address r) + 4096 \<le> 2 ^ 64"
  defines "st' \<equiv> fold (\<lambda>r. Frame_Add (Region_Address r) (Region_End r)) rs st"
  shows "same_frame st st' \<and> counted st' \<and>
    free_set st' = free_set st \<union> {k. k < unat (s_FrameCount st) \<and>
      (\<exists>r \<in> set rs. frame_of k \<subseteq> span (Region_Address r) (Region_End r))}"
  using assms(1-3) unfolding st'_def
proof (induction rs arbitrary: st)
  case (Cons r rs)
  let ?s = "Frame_Add (Region_Address r) (Region_End r) st"
  have A: "same_frame st ?s" "counted ?s"
      "free_set ?s = free_set st \<union> {k. k < unat (s_FrameCount st) \<and> frame_of k \<subseteq> span (Region_Address r) (Region_End r)}"
    using Frame_Add_spec [OF Cons.prems(1,2), of "Region_Address r" "Region_End r"] Cons.prems(3) by auto
  have sh: "shape ?s" using A(1) Cons.prems(1) same_frame_shape by blast
  have fc: "s_FrameCount ?s = s_FrameCount st" using A(1) by (simp add: same_frame_def)
  from Cons.IH [OF sh A(2)] Cons.prems(3) A(1) same_frame_trans show ?case
    by (auto simp: A(3) fc)
qed simp

lemma fold_Reserve:
  fixes f g :: "'x \<Rightarrow> u64"
  assumes "shape st" "counted st" "\<And>x. x \<in> set xs \<Longrightarrow> unat (g x) + 4096 \<le> 2 ^ 64"
  defines "st' \<equiv> fold (\<lambda>x. Frame_Reserve (f x) (g x)) xs st"
  shows "same_frame st st' \<and> counted st' \<and>
    free_set st' = {k \<in> free_set st. \<forall>x \<in> set xs. frame_of k \<inter> span (f x) (g x) = {}}"
  using assms(1-3) unfolding st'_def
proof (induction xs arbitrary: st)
  case (Cons x xs)
  let ?s = "Frame_Reserve (f x) (g x) st"
  have A: "same_frame st ?s" "counted ?s" "free_set ?s = {k \<in> free_set st. frame_of k \<inter> span (f x) (g x) = {}}"
    using Frame_Reserve_spec [OF Cons.prems(1,2), of "g x" "f x"] Cons.prems(3) by auto
  have sh: "shape ?s" using A(1) Cons.prems(1) same_frame_shape by blast
  from Cons.IH [OF sh A(2)] Cons.prems(3) A(1) same_frame_trans show ?case
    by (auto simp: A(3))
qed simp

lemma Region_End_nat:
  assumes "boot_sane b" "r \<in> set (available b)"
  shows "unat (Region_End r) = unat (Region_Address r) + unat (Region_Length r)"
    "unat (Region_End r) + 4096 \<le> 2 ^ 64" "unat (Region_Address r) + 4096 \<le> 2 ^ 64"
proof -
  have b: "unat (Region_Address r) + unat (Region_Length r) + 4096 \<le> 2 ^ 64"
    using assms by (simp add: boot_sane_def)
  then show "unat (Region_End r) = unat (Region_Address r) + unat (Region_Length r)"
    unfolding Region_End_def by (intro unat_add_no_wrap) simp
  then show "unat (Region_End r) + 4096 \<le> 2 ^ 64" "unat (Region_Address r) + 4096 \<le> 2 ^ 64"
    using b by linarith+
qed

lemma HighestAvailableAddress_spec:
  assumes "boot_sane b"
  shows "\<exists>h. HighestAvailableAddress b = Ok h \<and> unat h + 4096 \<le> 2 ^ 64"
proof -
  have "unat h + 4096 \<le> 2 ^ 64 \<Longrightarrow> (\<And>r. r \<in> set rs \<Longrightarrow> unat (Region_End r) + 4096 \<le> 2 ^ 64) \<Longrightarrow>
      unat (fold (\<lambda>r h. Math_Max h (Region_End r)) rs h) + 4096 \<le> 2 ^ 64" for rs h
    by (induction rs arbitrary: h) (auto simp: unat_Math_Max)
  then have "unat (fold (\<lambda>r h. Math_Max h (Region_End r)) (available b) 0) + 4096 \<le> 2 ^ 64"
    using Region_End_nat(2) [OF assms] by simp
  moreover have "HighestAvailableAddress b = Ok (fold (\<lambda>r h. Math_Max h (Region_End r)) (available b) 0)"
    unfolding HighestAvailableAddress_def index_loop_list [OF enumerates_Memory] available_def
    by (simp add: fold_filter)
  ultimately show ?thesis by blast
qed

definition initial_frames :: "u64 \<Rightarrow> frames" where
  "initial_frames highest =
    (let frameCount = (highest + FRAME_SIZE - 1) div FRAME_SIZE;
         wordCount = (frameCount + BITS_PER_WORD - 1) div BITS_PER_WORD
     in \<lparr>s_Taken = replicate (unat wordCount) ALL_TAKEN, s_WordCount = wordCount, s_FrameCount = frameCount,
         s_ReachableFrames = Math_Min (IDENTITY_MAPPED_LIMIT div FRAME_SIZE) frameCount,
         s_TotalFrames = 0, s_FreeFrames = 0, s_NextIndex = 0\<rparr>)"

lemma initial_fields:
  assumes "unat h + 4096 \<le> 2 ^ 64"
  defines "st \<equiv> initial_frames h"
  shows "unat (s_FrameCount st) = (unat h + 4095) div 4096"
    "unat (s_WordCount st) = (unat (s_FrameCount st) + 63) div 64"
    "s_Taken st = replicate (unat (s_WordCount st)) ALL_TAKEN"
    "s_ReachableFrames st \<le> s_FrameCount st" "unat (s_FrameCount st) \<le> 2 ^ 52" "s_FreeFrames st = 0"
proof -
  show fc: "unat (s_FrameCount st) = (unat h + 4095) div 4096"
    by (simp add: st_def initial_frames_def Let_def round_up_nat [OF assms(1)])
  then show small: "unat (s_FrameCount st) \<le> 2 ^ 52"
    using assms(1) by (simp add: ceil_div_le)
  have w: "s_WordCount st = (s_FrameCount st + 64 - 1) div 64"
    by (simp add: st_def initial_frames_def Let_def config_defs)
  have "unat (s_FrameCount st + (64 - 1)) = unat (s_FrameCount st) + 63"
    using small by (subst unat_add_no_wrap) auto
  then show "unat (s_WordCount st) = (unat (s_FrameCount st) + 63) div 64"
    unfolding w by (simp add: unat_div add_diff_eq [symmetric])
  show "s_Taken st = replicate (unat (s_WordCount st)) ALL_TAKEN" "s_FreeFrames st = 0"
    by (simp_all add: st_def initial_frames_def Let_def)
  show "s_ReachableFrames st \<le> s_FrameCount st"
    by (simp add: st_def initial_frames_def Let_def Math_Min_min)
qed

lemma initial_shape:
  assumes "unat h + 4096 \<le> 2 ^ 64"
  shows "shape (initial_frames h)" "free_set (initial_frames h) = {}" "counted (initial_frames h)"
proof -
  note F = initial_fields [OF assms]
  show sh: "shape (initial_frames h)"
    using F(2,5) by (simp add: shape_def F(3))
  show e: "free_set (initial_frames h) = {}"
  proof -
    have "taken (initial_frames h) k" if "k < unat (s_FrameCount (initial_frames h))" for k
      using shape_word [OF sh that] unfolding taken_def
      by (simp add: F(3) ALL_TAKEN_def bit_not_iff)
    then show ?thesis by (auto simp: free_set_def)
  qed
  show "counted (initial_frames h)" by (simp add: counted_def e F(6))
qed

definition bitmap_bytes :: "u64 \<Rightarrow> u64" where
  "bitmap_bytes h = s_WordCount (initial_frames h) * 8"

lemma bitmap_bytes_nat:
  assumes "unat h + 4096 \<le> 2 ^ 64"
  shows "unat (bitmap_bytes h) = 8 * length (s_Taken (initial_frames h))" "unat (bitmap_bytes h) \<le> 2 ^ 62"
proof -
  note F = initial_fields [OF assms]
  have "unat (s_WordCount (initial_frames h)) \<le> 2 ^ 52" using F(2,5) by simp
  then show "unat (bitmap_bytes h) = 8 * length (s_Taken (initial_frames h))" "unat (bitmap_bytes h) \<le> 2 ^ 62"
    by (simp_all add: bitmap_bytes_def unat_mult_no_wrap F(3))
qed

lemma Frame_Initialize_eq:
  "Frame_Initialize b =
     rbind (HighestAvailableAddress b) (\<lambda>h.
     rbind (ChooseBitmapLocation b (bitmap_bytes h)) (\<lambda>location.
     if location = 0 then Err (Panicked ''No room for the frame bitmap'')
     else rbind (AddAvailableMemory b (initial_frames h)) (\<lambda>st1.
       rbind (ReserveKnownUsers b st1) (\<lambda>st2.
         let st3 = Frame_Reserve location (location + bitmap_bytes h) st2
         in if s_FreeFrames st3 = 0 then Err (Panicked ''No usable physical memory'')
            else Ok (location, st3)))))"
  unfolding Frame_Initialize_def bitmap_bytes_def initial_frames_def Let_def frames.select_convs
  by (rule refl)

lemma Reserve_nothing: "InEnd \<le> InStart \<Longrightarrow> Frame_Reserve InStart InEnd st = st"
  by (simp add: Frame_Reserve_def)

lemma fold_Reserve_info:
  "fold (\<lambda>r. Frame_Reserve (Region_Address r) (Region_End r)) rs st =
   fold (\<lambda>r. Frame_Reserve (Region_Address r) (Region_End r)) (filter (\<lambda>r. Region_Length r \<noteq> 0) rs) st"
  by (induction rs arbitrary: st) (auto simp: Reserve_nothing Region_End_def)

lemma ReserveKnownUsers_spec:
  assumes sane: "boot_sane b" and st: "shape st" "counted st"
  shows "\<exists>st'. ReserveKnownUsers b st = Ok st' \<and> same_frame st st' \<and> counted st' \<and>
    free_set st' = {k \<in> free_set st. frame_of k \<inter> span 0 MIB = {} \<and>
      (\<forall>r \<in> set (blockers b). frame_of k \<inter> span (Range_Start r) (Range_End r) = {})}"
proof -
  let ?rs = "\<lparr>Range_Start = 0, Range_End = MIB\<rparr> # blockers b"
  let ?inf = "\<lambda>r. Frame_Reserve (Region_Address r) (Region_End r)"
  let ?mod = "\<lambda>m. Frame_Reserve (Module_Start m) (Module_End m)"
  let ?infos = "filter (\<lambda>r. Region_Length r \<noteq> 0) (InfoRegions (boot_mem b) (boot_mb b))"
  have cl: "CommandLine_terminated (boot_mem b) (boot_mb b)" using sane by (simp add: boot_sane_def)
  have "fold (\<lambda>r. Frame_Reserve (Range_Start r) (Range_End r)) ?rs st =
      fold ?mod (Modules (boot_mem b) (boot_mb b)) (fold ?inf ?infos
        (Frame_Reserve (Range_Start (KernelRange b)) (Range_End (KernelRange b)) (Frame_Reserve 0 MIB st)))"
    by (simp add: blockers_def fold_map comp_def)
  then have eq: "ReserveKnownUsers b st = Ok (fold (\<lambda>r. Frame_Reserve (Range_Start r) (Range_End r)) ?rs st)"
    by (simp add: ReserveKnownUsers_def Let_def index_loop_list [OF enumerates_Info [OF cl]]
        index_loop_list [OF enumerates_Module] fold_Reserve_info [of "InfoRegions (boot_mem b) (boot_mb b)"])
  have "\<And>r. r \<in> set ?rs \<Longrightarrow> unat (Range_End r) + 4096 \<le> 2 ^ 64"
    using sane by (fastforce simp: boot_sane_def config_defs)
  from fold_Reserve [OF st, of ?rs Range_End Range_Start, OF this] eq show ?thesis
    by (intro exI [of _ "fold (\<lambda>r. Frame_Reserve (Range_Start r) (Range_End r)) ?rs st"]) auto
qed

text \<open>What the state looks like once the bitmap has a place.\<close>

definition initialized :: "boot \<Rightarrow> u64 \<Rightarrow> frames \<Rightarrow> bool" where
  "initialized b loc st \<longleftrightarrow> frame_inv st \<and>
    free_set st = {k. k < unat (s_FrameCount st) \<and>
       (\<exists>r \<in> set (available b). frame_of k \<subseteq> span (Region_Address r) (Region_End r)) \<and>
       frame_of k \<inter> span 0 MIB = {} \<and>
       (\<forall>r \<in> set (blockers b). frame_of k \<inter> span (Range_Start r) (Range_End r) = {}) \<and>
       frame_of k \<inter> {unat loc..<unat loc + 8 * length (s_Taken st)} = {}}"

definition bitmap_placed :: "boot \<Rightarrow> u64 \<Rightarrow> nat \<Rightarrow> bool" where
  "bitmap_placed b loc bytes \<longleftrightarrow> unat loc mod 4096 = 0 \<and>
    (\<exists>r \<in> set (available b). unat (Region_Address r) \<le> unat loc \<and> unat MIB \<le> unat loc \<and>
       unat loc + bytes \<le> unat (Region_End r) \<and> unat loc + bytes \<le> unat IDENTITY_MAPPED_LIMIT) \<and>
    (\<forall>r \<in> set (blockers b). \<not> Overlaps \<lparr>Range_Start = loc, Range_End = loc + of_nat bytes\<rparr> r)"

lemma Frame_Initialize_placed:
  assumes sane: "boot_sane b" and h: "HighestAvailableAddress b = Ok h" "unat h + 4096 \<le> 2 ^ 64"
    and loc: "ChooseBitmapLocation b (bitmap_bytes h) = Ok loc" "loc \<noteq> 0"
  shows "\<exists>st. initialized b loc st \<and> bitmap_placed b loc (8 * length (s_Taken st)) \<and>
    s_FrameCount st = s_FrameCount (initial_frames h) \<and> length (s_Taken st) = length (s_Taken (initial_frames h)) \<and>
    Frame_Initialize b = (if s_FreeFrames st = 0 then Err (Panicked ''No usable physical memory'') else Ok (loc, st))"
proof -
  let ?s0 = "initial_frames h" and ?n = "bitmap_bytes h"
  note I = initial_shape [OF h(2)] and F = initial_fields [OF h(2)] and B = bitmap_bytes_nat [OF h(2)]
  let ?s1 = "fold (\<lambda>r. Frame_Add (Region_Address r) (Region_End r)) (available b) ?s0"
  have A: "same_frame ?s0 ?s1" "counted ?s1"
      "free_set ?s1 = {k. k < unat (s_FrameCount ?s0) \<and>
        (\<exists>r \<in> set (available b). frame_of k \<subseteq> span (Region_Address r) (Region_End r))}"
    using fold_Add [OF I(1,3), of "available b"] Region_End_nat(3) [OF sane] I(2) by auto
  have sh1: "shape ?s1" using A(1) I(1) same_frame_shape by blast
  obtain s2 where R: "ReserveKnownUsers b ?s1 = Ok s2" "same_frame ?s1 s2" "counted s2"
      "free_set s2 = {k \<in> free_set ?s1. frame_of k \<inter> span 0 MIB = {} \<and>
        (\<forall>r \<in> set (blockers b). frame_of k \<inter> span (Range_Start r) (Range_End r) = {})}"
    using ReserveKnownUsers_spec [OF sane sh1 A(2)] by blast
  have sh2: "shape s2" using R(2) sh1 same_frame_shape by blast
  let ?st = "Frame_Reserve loc (loc + ?n) s2"
  obtain r where r: "r \<in> set (available b)" "fits_at b (Range_Start (usable r)) (Range_End (usable r)) ?n loc"
    using ChooseBitmapLocation_spec [OF sane B(2)] loc by auto
  have sum: "unat (loc + ?n) = unat loc + unat ?n"
    using r(2) unat64_bound [of "Range_End (usable r)"] by (intro unat_add_no_wrap) (simp add: fits_at_def)
  have "unat (Range_End (usable r)) \<le> 2 ^ 32" by (simp add: usable_def unat_Math_Min config_defs)
  then have "unat (loc + ?n) + 4096 \<le> 2 ^ 64" using r(2) sum by (simp add: fits_at_def)
  from Frame_Reserve_spec [OF sh2 R(3) this, of loc] have S: "same_frame s2 ?st" "counted ?st"
      "free_set ?st = {k \<in> free_set s2. frame_of k \<inter> span loc (loc + ?n) = {}}" by auto
  have same: "same_frame ?s0 ?st" using A(1) R(2) S(1) same_frame_trans by blast
  have bytes: "unat ?n = 8 * length (s_Taken ?st)" using same B(1) by (simp add: same_frame_def)
  have fs: "free_set ?st = {k. k < unat (s_FrameCount ?st) \<and>
       (\<exists>r \<in> set (available b). frame_of k \<subseteq> span (Region_Address r) (Region_End r)) \<and>
       frame_of k \<inter> span 0 MIB = {} \<and>
       (\<forall>r \<in> set (blockers b). frame_of k \<inter> span (Range_Start r) (Range_End r) = {}) \<and>
       frame_of k \<inter> {unat loc..<unat loc + 8 * length (s_Taken ?st)} = {}}"
    unfolding S(3) R(4) A(3) sum bytes using same by (auto simp: same_frame_def)
  have "frame_of 0 \<inter> span 0 MIB \<noteq> {}" by (simp add: frame_of_disjoint config_defs)
  then have "0 \<notin> free_set ?st" unfolding fs by blast
  moreover have "shape ?st" using same I(1) same_frame_shape by blast
  ultimately have "initialized b loc ?st"
    using S(2) same F(2,3,4) fs by (simp add: initialized_def frame_inv_def same_frame_def)
  moreover have "bitmap_placed b loc (unat ?n)"
    using r by (auto simp: bitmap_placed_def fits_at_def usable_def word_nat unat_Math_Max unat_Math_Min)
  moreover have "Frame_Initialize b =
      (if s_FreeFrames ?st = 0 then Err (Panicked ''No usable physical memory'') else Ok (loc, ?st))"
    using h(1) loc R(1) unfolding Frame_Initialize_eq AddAvailableMemory_fold by (simp add: Let_def)
  ultimately show ?thesis using same bytes by (intro exI [of _ ?st]) (simp add: same_frame_def)
qed

lemma Frame_Initialize_cases:
  assumes "boot_sane b"
  obtains "Frame_Initialize b = Err (Panicked ''No room for the frame bitmap'')"
  | loc st where "initialized b loc st" "bitmap_placed b loc (8 * length (s_Taken st))"
      "Frame_Initialize b = (if s_FreeFrames st = 0 then Err (Panicked ''No usable physical memory'') else Ok (loc, st))"
proof -
  obtain h where h: "HighestAvailableAddress b = Ok h" "unat h + 4096 \<le> 2 ^ 64"
    using HighestAvailableAddress_spec [OF assms] by blast
  obtain loc where loc: "ChooseBitmapLocation b (bitmap_bytes h) = Ok loc"
    using ChooseBitmapLocation_spec [OF assms bitmap_bytes_nat(2) [OF h(2)]] by blast
  show ?thesis
  proof (cases "loc = 0")
    case True
    then show ?thesis using h(1) loc that(1) by (simp add: Frame_Initialize_eq)
  next
    case False
    then show ?thesis using Frame_Initialize_placed [OF assms h loc] that(2) by blast
  qed
qed

section \<open>An example machine\<close>

text \<open>
  64 KiB available from 1 MiB on, a kernel of two frames, one module, and the info block in low
  memory.
\<close>

definition example_boot_mem :: memory where
  "example_boot_mem a =
    (if a = 0xFFFF800000009000 then 0x60
     else if a = 0xFFFF800000009012 then 0x10 else if a = 0xFFFF80000000901A then 1
     else if a = 0xFFFF800000009020 then 1
     else if a = 0xFFFF800000009049 then 0x80 else if a = 0xFFFF80000000904A then 0x10
     else if a = 0xFFFF80000000904D then 0x98 else if a = 0xFFFF80000000904E then 0x10 else 0)"

definition example_boot :: boot where
  "example_boot = \<lparr>boot_mem = example_boot_mem,
     boot_mb = (Multiboot_reset LOADER_MAGIC_V2 0x9000)\<lparr>s_Standard := V2,
       s_MemoryMapEntries := 0xFFFF800000009010, s_MemoryMapEntrySize := 24, s_MemoryRegionCount := 1,
       s_Modules := 0xFFFF800000009040 # replicate 15 0, s_ModuleCount := 1\<rparr>,
     BOOT_START = 0x102000, KERNEL_END = 0xFFFFFFFF80104000\<rparr>"

lemmas example_boot_simps = example_boot_def example_boot_mem_def Multiboot_reset_def
  peek16_def peek32_def peek64_def config_defs

lemma example_available:
  "available example_boot = [\<lparr>Region_Address = 0x100000, Region_Length = 0x10000, Region_Type = 1\<rparr>]"
  by (simp add: available_def MemoryRegions_def GetMemoryRegion_def V2_MemoryMapEntry_def example_boot_simps)

lemma example_blockers:
  "blockers example_boot =
    [\<lparr>Range_Start = 0x102000, Range_End = 0x104000\<rparr>, \<lparr>Range_Start = 0x9000, Range_End = 0x9060\<rparr>,
     \<lparr>Range_Start = 0x108000, Range_End = 0x109800\<rparr>]"
  by (simp add: blockers_def KernelRange_def InfoRegions_def GetInfoRegion_def Describe_def V2_TotalSize_def
      Modules_def GetModule_def V2_ModuleTag_def Region_End_def Reachable_def example_boot_simps)

lemma example_regions:
  "MemoryRegions (boot_mem example_boot) (boot_mb example_boot) =
    [\<lparr>Region_Address = 0x100000, Region_Length = 0x10000, Region_Type = 1\<rparr>]"
  by (simp add: MemoryRegions_def GetMemoryRegion_def V2_MemoryMapEntry_def example_boot_simps)

lemma example_cmdline: "CommandLine_terminated (boot_mem example_boot) (boot_mb example_boot)"
  by (simp add: CommandLine_terminated_def example_boot_def Multiboot_reset_def)

lemma example_sane: "boot_sane example_boot"
  by (simp add: boot_sane_def example_cmdline example_available example_blockers)

lemma example_highest: "HighestAvailableAddress example_boot = Ok 0x110000"
  unfolding HighestAvailableAddress_def index_loop_list [OF enumerates_Memory] example_regions
  by (simp add: Math_Max_def Region_End_def config_defs)

lemma example_bytes: "bitmap_bytes 0x110000 = 40" "s_FrameCount (initial_frames 0x110000) = 272"
  "length (s_Taken (initial_frames 0x110000)) = 5"
  by (simp_all add: bitmap_bytes_def initial_frames_def config_defs)

lemma example_location: "ChooseBitmapLocation example_boot 40 = Ok 0x100000"
proof -
  have "FirstFit_loop example_boot 0x110000 40 0x100000 = Some (Ok 0x100000)"
    by (subst FirstFit_loop.simps) (simp add: IsBlocked_spec [OF example_cmdline] example_blockers Overlaps_def)
  then show ?thesis
    unfolding ChooseBitmapLocation_def index_find_list [OF enumerates_Memory] example_regions
    by (simp add: FirstFit_def FrameAlign_def Math_Max_def Math_Min_def Region_End_def config_defs Let_def)
qed

lemma example_initialize: "\<exists>st. Frame_Initialize example_boot = Ok (0x100000, st)"
proof -
  obtain st where st: "initialized example_boot 0x100000 st" "s_FrameCount st = 272" "length (s_Taken st) = 5"
      "Frame_Initialize example_boot =
        (if s_FreeFrames st = 0 then Err (Panicked ''No usable physical memory'') else Ok (0x100000, st))"
    using Frame_Initialize_placed [OF example_sane example_highest] example_bytes example_location by auto
  have "257 \<in> free_set st"
    using st(1-3) by (simp add: initialized_def example_available example_blockers frame_of_sub frame_of_disjoint
        Region_End_def config_defs)
  then have "card (free_set st) \<noteq> 0" by auto
  moreover have "counted st" using st(1) by (simp add: initialized_def frame_inv_def)
  ultimately have "s_FreeFrames st \<noteq> 0" by (auto simp: counted_def)
  then show ?thesis using st(4) by simp
qed

section \<open>Properties\<close>



text \<open>
  C9: \<open>Frame::Initialize\<close> always returns: it either panics for lack of room for the bitmap or of usable
  memory, or it succeeds with the bitmap frame aligned, inside an available region above 1 MiB
  and below the identity mapped limit, and overlapping neither the kernel nor a
  module nor a structure that \<open>Multiboot::GetInfoRegion\<close> reports.
  In particular the search for a place terminates.
\<close>

theorem Frame_Initialize_total:
  assumes "boot_sane b"
  shows "Frame_Initialize b = Err (Panicked ''No room for the frame bitmap'') \<or>
    Frame_Initialize b = Err (Panicked ''No usable physical memory'') \<or>
    (\<exists>loc st. Frame_Initialize b = Ok (loc, st) \<and> bitmap_placed b loc (8 * length (s_Taken st)))"
  using Frame_Initialize_cases [OF assms] by cases auto

theorem Frame_Initialize_total_witness:
  "\<exists>loc st. Frame_Initialize example_boot = Ok (loc, st) \<and> bitmap_placed example_boot loc (8 * length (s_Taken st))"
  using Frame_Initialize_total [OF example_sane] example_initialize by auto

end
