(* ===== verification/HK_Paging.thy ===== *)
theory HK_Paging
  imports HK_FrameInit
begin

text \<open>
  \<open>Kernel/Memory/Paging.cpp\<close>: the four level page tables. \<open>p_Tables\<close> holds the frames used as
  tables, by physical address and index; the code reaches them through the direct map, so a
  table's address is the address bits of the entry that points to it. The frame allocator's state
  is part of the record, and the registers \<open>Activate\<close> and \<open>EnableNoExecute\<close> write are fields. \<open>Map\<close>
  holds \<open>s_Lock\<close> with interrupts off and is one transition.
\<close>

section \<open>The model\<close>

definition PAGE_SIZE :: u64 where [config_defs]: "PAGE_SIZE = 4 * KIB"

datatype Access = READ_ONLY | READ_WRITE | READ_EXECUTE
datatype Caching = NORMAL | DISABLED
datatype Privilege = KERNEL | USER

definition ToVirtual :: "u64 \<Rightarrow> u64" where "ToVirtual InPhysical = InPhysical + DIRECT_MAP_BASE"
definition ToPhysical :: "u64 \<Rightarrow> u64" where "ToPhysical InVirtual = InVirtual - DIRECT_MAP_BASE"

definition PTE_PRESENT :: u64 where "PTE_PRESENT = 1"
definition PTE_WRITABLE :: u64 where "PTE_WRITABLE = 2"
definition PTE_USER :: u64 where "PTE_USER = 4"
definition PTE_CACHE_DISABLE :: u64 where "PTE_CACHE_DISABLE = 0x10"
definition PTE_LARGE :: u64 where "PTE_LARGE = 0x80"
definition PTE_NO_EXECUTE :: u64 where "PTE_NO_EXECUTE = 0x8000000000000000"
definition ADDRESS_MASK :: u64 where "ADDRESS_MASK = 0x000ffffffffff000"

lemmas pte_defs = PTE_PRESENT_def PTE_WRITABLE_def PTE_USER_def PTE_CACHE_DISABLE_def PTE_LARGE_def
  PTE_NO_EXECUTE_def ADDRESS_MASK_def

definition TOP_LEVEL :: nat where [config_defs]: "TOP_LEVEL = 4"
definition LEAF_LEVEL :: nat where [config_defs]: "LEAF_LEVEL = 1"
definition ENTRIES_PER_TABLE :: u64 where [config_defs]: "ENTRIES_PER_TABLE = 512"
definition LOW_MEMORY_END :: u64 where [config_defs]: "LOW_MEMORY_END = 2 * MIB"

record paging =
  p_Tables :: "u64 \<Rightarrow> u64 \<Rightarrow> u64"
  p_Frames :: frames
  s_Root :: u64
  s_NoExecuteAvailable :: bool
  s_TableCount :: u64
  s_MappedRamEnd :: u64
  KernelPageTableRoot :: u64
  reg_CR0 :: u64
  reg_CR3 :: u64
  reg_EFER :: u64

definition IndexAt :: "u64 \<Rightarrow> nat \<Rightarrow> u64" where
  "IndexAt InVirtual InLevel = drop_bit (12 + 9 * (InLevel - 1)) InVirtual AND (ENTRIES_PER_TABLE - 1)"

definition write_entry :: "u64 \<Rightarrow> u64 \<Rightarrow> u64 \<Rightarrow> paging \<Rightarrow> paging" where
  "write_entry table index v st = st\<lparr>p_Tables := (p_Tables st)(table := (p_Tables st table)(index := v))\<rparr>"

definition AllocateTable :: "paging \<Rightarrow> u64 \<times> paging" where
  "AllocateTable st =
    (case Frame_Allocate (p_Frames st) 1 of (frame, fs) \<Rightarrow>
       if frame = 0 then (0, st\<lparr>p_Frames := fs\<rparr>)
       else (frame, st\<lparr>p_Frames := fs, p_Tables := (p_Tables st)(frame := (\<lambda>_. 0)),
               s_TableCount := s_TableCount st + 1\<rparr>))"

text \<open>One pass of the loop in \<open>Descend\<close>: the next table and the state.\<close>

definition Descend_step :: "u64 \<Rightarrow> u64 \<Rightarrow> u64 \<Rightarrow> paging \<Rightarrow> u64 option \<times> paging" where
  "Descend_step InTableFlags table index st =
    (if p_Tables st table index AND PTE_PRESENT = 0 then
       case AllocateTable st of (created, st1) \<Rightarrow>
         if created = 0 then (None, st1)
         else let e = (created OR PTE_PRESENT OR PTE_WRITABLE) OR InTableFlags
              in (Some (e AND ADDRESS_MASK), write_entry table index e st1)
     else let e = p_Tables st table index OR InTableFlags
          in (Some (e AND ADDRESS_MASK), write_entry table index e st))"

function Descend_loop :: "u64 \<Rightarrow> nat \<Rightarrow> u64 \<Rightarrow> nat \<Rightarrow> u64 \<Rightarrow> paging \<Rightarrow> u64 option \<times> paging" where
  "Descend_loop InVirtual InLevel InTableFlags level table st =
    (if level > InLevel then
       case Descend_step InTableFlags table (IndexAt InVirtual level) st of
         (None, st1) \<Rightarrow> (None, st1)
       | (Some next, st1) \<Rightarrow> Descend_loop InVirtual InLevel InTableFlags (level - 1) next st1
     else (Some table, st))"
  by pat_completeness auto
termination
  by (relation "measure (\<lambda>(v, l, f, level, t, st). level)") auto

declare Descend_loop.simps [simp del]

definition Descend :: "u64 \<Rightarrow> nat \<Rightarrow> u64 \<Rightarrow> paging \<Rightarrow> u64 option \<times> paging" where
  "Descend InVirtual InLevel InTableFlags st =
     Descend_loop InVirtual InLevel InTableFlags TOP_LEVEL (s_Root st) st"

definition FlagsFor :: "paging \<Rightarrow> Access \<Rightarrow> Privilege \<Rightarrow> Caching \<Rightarrow> u64" where
  "FlagsFor st InAccess InPrivilege InCaching =
    (let f1 = PTE_PRESENT;
         f2 = (if InAccess = READ_WRITE then f1 OR PTE_WRITABLE else f1);
         f3 = (if InAccess \<noteq> READ_EXECUTE \<and> s_NoExecuteAvailable st then f2 OR PTE_NO_EXECUTE else f2);
         f4 = (if InPrivilege = USER then f3 OR PTE_USER else f3)
     in if InCaching = DISABLED then f4 OR PTE_CACHE_DISABLE else f4)"

function Effective_loop :: "paging \<Rightarrow> u64 \<Rightarrow> nat \<Rightarrow> u64 \<Rightarrow> u64 \<Rightarrow> u64 \<Rightarrow> u64" where
  "Effective_loop st InVirtual level table granted noExecute =
    (if level > LEAF_LEVEL then
       let e = p_Tables st table (IndexAt InVirtual level)
       in if e AND PTE_PRESENT = 0 \<or> e AND PTE_LARGE \<noteq> 0 then 0
          else Effective_loop st InVirtual (level - 1) (e AND ADDRESS_MASK) (granted AND e)
                 (noExecute OR (e AND PTE_NO_EXECUTE))
     else
       let leaf = p_Tables st table (IndexAt InVirtual LEAF_LEVEL)
       in if leaf AND PTE_PRESENT = 0 then 0
          else (granted AND leaf) OR (noExecute OR (leaf AND PTE_NO_EXECUTE)) OR (leaf AND ADDRESS_MASK))"
  by pat_completeness auto
termination
  by (relation "measure (\<lambda>(st, v, level, t, g, n). level)") auto

declare Effective_loop.simps [simp del]

definition Effective :: "paging \<Rightarrow> u64 \<Rightarrow> u64" where
  "Effective st InVirtual =
     Effective_loop st InVirtual TOP_LEVEL (s_Root st) (PTE_PRESENT OR PTE_WRITABLE OR PTE_USER) 0"

partial_function (option) Map_loop ::
    "u64 \<Rightarrow> u64 \<Rightarrow> u64 \<Rightarrow> u64 \<Rightarrow> u64 \<Rightarrow> paging \<Rightarrow> (bool \<times> paging) option" where
  "Map_loop flags tableFlags end page source st =
    (if page < end then
       case Descend page LEAF_LEVEL tableFlags st of
         (None, st1) \<Rightarrow> Some (False, st1)
       | (Some table, st1) \<Rightarrow>
           Map_loop flags tableFlags end (page + PAGE_SIZE) (source + PAGE_SIZE)
             (write_entry table (IndexAt page LEAF_LEVEL) (source OR flags) st1)
     else Some (True, st))"

declare Map_loop.simps [code]

definition Paging_Map :: "u64 \<Rightarrow> u64 \<Rightarrow> u64 \<Rightarrow> Access \<Rightarrow> Privilege \<Rightarrow> Caching \<Rightarrow> paging \<Rightarrow> (bool \<times> paging) result" where
  "Paging_Map InVirtual InPhysical InSize InAccess InPrivilege InCaching st =
    (let flags = FlagsFor st InAccess InPrivilege InCaching;
         tableFlags = (if InPrivilege = USER then PTE_USER else 0)
     in returned (Map_loop flags tableFlags (InVirtual + InSize) (InVirtual AND NOT (PAGE_SIZE - 1))
          (InPhysical AND NOT (PAGE_SIZE - 1)) st))"

definition Translate :: "paging \<Rightarrow> u64 \<Rightarrow> u64" where
  "Translate st InVirtual =
    (let e = Effective st InVirtual
     in if e = 0 then 0 else (e AND ADDRESS_MASK) OR (InVirtual AND (PAGE_SIZE - 1)))"

definition IsWritable :: "paging \<Rightarrow> u64 \<Rightarrow> bool" where
  "IsWritable st InVirtual \<longleftrightarrow> Effective st InVirtual AND PTE_WRITABLE \<noteq> 0"

definition IsExecutable :: "paging \<Rightarrow> u64 \<Rightarrow> bool" where
  "IsExecutable st InVirtual \<longleftrightarrow> (let e = Effective st InVirtual
     in e \<noteq> 0 \<and> (\<not> s_NoExecuteAvailable st \<or> e AND PTE_NO_EXECUTE = 0))"

definition IsUserReadable :: "paging \<Rightarrow> u64 \<Rightarrow> bool" where
  "IsUserReadable st InVirtual \<longleftrightarrow> Effective st InVirtual AND PTE_USER \<noteq> 0"

definition IsUserWritable :: "paging \<Rightarrow> u64 \<Rightarrow> bool" where
  "IsUserWritable st InVirtual \<longleftrightarrow>
     Effective st InVirtual AND (PTE_USER OR PTE_WRITABLE) = PTE_USER OR PTE_WRITABLE"

definition MapIdentity :: "u64 \<Rightarrow> u64 \<Rightarrow> Access \<Rightarrow> Caching \<Rightarrow> paging \<Rightarrow> paging result" where
  "MapIdentity InStart InEnd InAccess InCaching st =
    (if InEnd \<le> InStart then Ok st
     else rbind (Paging_Map InStart InStart (InEnd - InStart) InAccess KERNEL InCaching st) (\<lambda>(ok, st1).
       if \<not> ok then Err (Panicked ''Not enough memory for the kernel page tables'') else Ok st1))"

definition MapRegion :: "MemoryRegion \<Rightarrow> paging result \<Rightarrow> paging result" where
  "MapRegion region r = rbind r (\<lambda>st.
     if Region_Type region \<noteq> MEMORY_AVAILABLE then Ok st
     else rbind (Paging_Map (ToVirtual (Region_Address region)) (Region_Address region) (Region_Length region)
         READ_WRITE KERNEL NORMAL st) (\<lambda>(ok, st1).
       if \<not> ok then Err (Panicked ''Not enough memory for the kernel page tables'')
       else Ok (st1\<lparr>s_MappedRamEnd := Math_Max (s_MappedRamEnd st1) (Region_End region)\<rparr>)))"

definition MapDirectMap :: "boot \<Rightarrow> paging \<Rightarrow> paging result" where
  "MapDirectMap b st =
     rbind (index_loop (\<lambda>i. Ok (GetMemoryRegion (boot_mem b) (boot_mb b) i)) MapRegion 0 (Ok st)) id"

definition MapKernelSpan :: "u64 \<Rightarrow> u64 \<Rightarrow> Access \<Rightarrow> paging \<Rightarrow> paging result" where
  "MapKernelSpan start end InAccess st =
    (if end \<le> start then Ok st
     else rbind (Paging_Map start (start - KERNEL_VMA) (end - start) InAccess KERNEL NORMAL st) (\<lambda>(ok, st1).
       if \<not> ok then Err (Panicked ''Not enough memory for the kernel page tables'') else Ok st1))"

text \<open>The linker symbols, and the device addresses the interrupt controllers report.\<close>

record image =
  img_BOOT_START :: u64
  img_BOOT_END :: u64
  img_TEXT_START :: u64
  img_TEXT_END :: u64
  img_RODATA_START :: u64
  img_RODATA_END :: u64
  img_DATA_START :: u64
  img_DATA_END :: u64
  dev_LocalApic :: u64
  dev_IoApic :: u64

definition MapKernelImage :: "image \<Rightarrow> paging \<Rightarrow> paging result" where
  "MapKernelImage im st =
     rbind (MapIdentity (img_BOOT_START im) (img_BOOT_END im) READ_EXECUTE NORMAL st) (\<lambda>st1.
     rbind (MapKernelSpan (img_TEXT_START im) (img_TEXT_END im) READ_EXECUTE st1) (\<lambda>st2.
     rbind (MapKernelSpan (img_RODATA_START im) (img_RODATA_END im) READ_ONLY st2) (\<lambda>st3.
     MapKernelSpan (img_DATA_START im) (img_DATA_END im) READ_WRITE st3)))"

definition MapDeviceRegisters :: "image \<Rightarrow> paging \<Rightarrow> paging result" where
  "MapDeviceRegisters im st =
     rbind (MapIdentity (dev_LocalApic im) (dev_LocalApic im + PAGE_SIZE) READ_WRITE DISABLED st) (\<lambda>st1.
       if dev_IoApic im \<noteq> 0
       then MapIdentity (dev_IoApic im) (dev_IoApic im + PAGE_SIZE) READ_WRITE DISABLED st1
       else Ok st1)"

definition EFER_NXE :: u64 where "EFER_NXE = 0x800"
definition CR0_WP :: u64 where "CR0_WP = 0x10000"

definition EnableNoExecute :: "paging \<Rightarrow> paging" where
  "EnableNoExecute st = st\<lparr>reg_EFER := reg_EFER st OR EFER_NXE\<rparr>"

definition Activate :: "paging \<Rightarrow> paging" where
  "Activate st = st\<lparr>reg_CR0 := reg_CR0 st OR CR0_WP, reg_CR3 := s_Root st\<rparr>"

text \<open>\<open>nx\<close> is the answer of \<open>Cpu::Id::Has(ExtendedFeatureEdx::NX)\<close>.\<close>

definition Paging_Initialize :: "bool \<Rightarrow> boot \<Rightarrow> image \<Rightarrow> paging \<Rightarrow> paging result" where
  "Paging_Initialize nx b im st =
    (let st1 = st\<lparr>s_NoExecuteAvailable := nx\<rparr>;
         st2 = (if nx then EnableNoExecute st1 else st1)
     in case AllocateTable st2 of (root, st3) \<Rightarrow>
       let st4 = st3\<lparr>s_Root := root\<rparr>
       in if root = 0 then Err (Panicked ''No memory for the kernel page tables'')
       else rbind (MapIdentity 0 LOW_MEMORY_END READ_WRITE NORMAL st4) (\<lambda>st5.
         rbind (MapDeviceRegisters im st5) (\<lambda>st6.
         rbind (MapDirectMap b st6) (\<lambda>st7.
         rbind (MapKernelImage im st7) (\<lambda>st8.
         rbind (ASSERT ''s_Root < 4 * GIB'' (s_Root st8 < 4 * GIB)) (\<lambda>_.
         let st9 = Activate (st8\<lparr>KernelPageTableRoot := s_Root st8\<rparr>)
         in Ok (st9\<lparr>p_Frames := SetReachableLimit (s_MappedRamEnd st9) (p_Frames st9)\<rparr>)))))))"

end
