(* ===== verification/HK_PageTree.thy ===== *)
theory HK_PageTree
  imports HK_Paging
begin

text \<open>
  The page tables as a tree: every table is reached by exactly one index path, so writing one
  entry affects one path only. On such a tree \<open>Effective\<close> is the leaf entry, \<open>Map\<close> is an update of
  a map from pages to entries, and the permissions of a page are those it was mapped with.
\<close>

section \<open>Entry bits\<close>

lemma pte_test:
  "e AND PTE_PRESENT = 0 \<longleftrightarrow> \<not> bit e 0" "e AND PTE_WRITABLE = 0 \<longleftrightarrow> \<not> bit e 1"
  "e AND PTE_USER = 0 \<longleftrightarrow> \<not> bit e 2" "e AND PTE_LARGE = 0 \<longleftrightarrow> \<not> bit e 7"
  "e AND PTE_NO_EXECUTE = 0 \<longleftrightarrow> \<not> bit e 63"
proof -
  have p: "PTE_PRESENT = 2 ^ 0" "PTE_WRITABLE = 2 ^ 1" "PTE_USER = 2 ^ 2" "PTE_LARGE = 2 ^ 7"
    "PTE_NO_EXECUTE = 2 ^ 63" by (simp_all add: pte_defs)
  show "e AND PTE_PRESENT = 0 \<longleftrightarrow> \<not> bit e 0" "e AND PTE_WRITABLE = 0 \<longleftrightarrow> \<not> bit e 1"
    "e AND PTE_USER = 0 \<longleftrightarrow> \<not> bit e 2" "e AND PTE_LARGE = 0 \<longleftrightarrow> \<not> bit e 7"
    "e AND PTE_NO_EXECUTE = 0 \<longleftrightarrow> \<not> bit e 63"
    unfolding p by (rule and_exp_eq_0_iff_not_bit)+
qed

lemma pte_bit:
  "bit PTE_PRESENT n \<longleftrightarrow> n = 0" "bit PTE_WRITABLE n \<longleftrightarrow> n = 1" "bit PTE_USER n \<longleftrightarrow> n = 2"
  "bit PTE_CACHE_DISABLE n \<longleftrightarrow> n = 4" "bit PTE_NO_EXECUTE n \<longleftrightarrow> n = 63"
proof -
  have p: "PTE_PRESENT = 2 ^ 0" "PTE_WRITABLE = 2 ^ 1" "PTE_USER = 2 ^ 2" "PTE_CACHE_DISABLE = 2 ^ 4"
    "PTE_NO_EXECUTE = 2 ^ 63" by (simp_all add: pte_defs)
  show "bit PTE_PRESENT n \<longleftrightarrow> n = 0" "bit PTE_WRITABLE n \<longleftrightarrow> n = 1" "bit PTE_USER n \<longleftrightarrow> n = 2"
    "bit PTE_CACHE_DISABLE n \<longleftrightarrow> n = 4" "bit PTE_NO_EXECUTE n \<longleftrightarrow> n = 63"
    unfolding p bit_exp_iff by auto
qed

lemma ADDRESS_MASK_mask: "ADDRESS_MASK = mask 52 AND NOT (mask 12)"
  by (simp add: ADDRESS_MASK_def mask_eq_exp_minus_1)

lemma bit_ADDRESS_MASK: "bit ADDRESS_MASK n \<longleftrightarrow> 12 \<le> n \<and> n < 52"
  by (auto simp: ADDRESS_MASK_mask bit_simps)

lemmas pte_bits = pte_bit bit_ADDRESS_MASK bit_or_iff bit_and_iff

text \<open>The address of a table or page: frame aligned and within the 52 physical bits.\<close>

definition addr :: "u64 \<Rightarrow> bool" where
  "addr a \<longleftrightarrow> a AND ADDRESS_MASK = a"

lemma addr_iff: "addr a \<longleftrightarrow> (\<forall>n. bit a n \<longrightarrow> 12 \<le> n \<and> n < 52)"
proof
  assume "addr a"
  then have "bit a n \<Longrightarrow> bit (a AND ADDRESS_MASK) n" for n by (simp add: addr_def)
  then show "\<forall>n. bit a n \<longrightarrow> 12 \<le> n \<and> n < 52" by (auto simp: pte_bits)
qed (auto simp: addr_def bit_eq_iff pte_bits)

lemma addr_masked: "addr (e AND ADDRESS_MASK)"
  by (auto simp: addr_iff pte_bits)

lemma addrI:
  assumes "unat a mod 4096 = 0" "unat a < 2 ^ 52"
  shows "addr a"
proof -
  have "a AND mask 12 = 0"
    using and_mask_nat [of a 12] assms(1) by (simp add: word_unat_eq_iff)
  moreover have "a AND mask 52 = a"
    using and_mask_nat [of a 52] assms(2) by (simp add: word_unat_eq_iff)
  ultimately have "bit a n \<Longrightarrow> bit (a AND mask 52) n \<and> \<not> bit (a AND mask 12) n" for n by simp
  then show ?thesis
    unfolding addr_iff using bit_imp_le_length [of a] by (force simp: bit_and_iff bit_mask_iff)
qed

lemma addr_nat: "addr a \<Longrightarrow> unat a mod 4096 = 0"
proof -
  assume "addr a"
  then have "a AND mask 12 = 0" by (fastforce simp: addr_iff bit_eq_iff bit_simps)
  then show ?thesis using and_mask_nat [of a 12] by simp
qed

section \<open>The tree\<close>

text \<open>The table reached from the root by an index path, the last index first.\<close>

fun tat :: "paging \<Rightarrow> u64 list \<Rightarrow> u64 option" where
  "tat st [] = Some (s_Root st)"
| "tat st (i # p) = (case tat st p of None \<Rightarrow> None
     | Some t \<Rightarrow> if bit (p_Tables st t i) 0 then Some (p_Tables st t i AND ADDRESS_MASK) else None)"

text \<open>The leaf entry at index \<open>j\<close> of the last table of a path, 0 when nothing is present.\<close>

definition leaf_at :: "paging \<Rightarrow> u64 list \<Rightarrow> u64 \<Rightarrow> u64" where
  "leaf_at st q j = (case tat st q of None \<Rightarrow> 0
     | Some t \<Rightarrow> if bit (p_Tables st t j) 0 then p_Tables st t j else 0)"

definition upper_ok :: "u64 \<Rightarrow> bool" where
  "upper_ok e \<longleftrightarrow> bit e 1 \<and> \<not> bit e 7 \<and> \<not> bit e 63"

definition pt_tree :: "paging \<Rightarrow> bool" where
  "pt_tree st \<longleftrightarrow>
     (\<forall>p t. length p \<le> 3 \<longrightarrow> tat st p = Some t \<longrightarrow>
        t \<noteq> 0 \<and> addr t \<and> unat t div 4096 \<notin> free_set (p_Frames st)) \<and>
     (\<forall>p q t. length p \<le> 3 \<longrightarrow> length q \<le> 3 \<longrightarrow> tat st p = Some t \<longrightarrow> tat st q = Some t \<longrightarrow> p = q)"

definition pt_upper :: "paging \<Rightarrow> bool" where
  "pt_upper st \<longleftrightarrow> (\<forall>p i t. length p \<le> 2 \<longrightarrow> tat st p = Some t \<longrightarrow> bit (p_Tables st t i) 0 \<longrightarrow> upper_ok (p_Tables st t i))"

text \<open>An entry open to ring 3 hangs below entries that are open, too.\<close>

definition pt_user :: "paging \<Rightarrow> bool" where
  "pt_user st \<longleftrightarrow> (\<forall>p i t t' j. length p \<le> 2 \<longrightarrow> tat st p = Some t \<longrightarrow> tat st (i # p) = Some t' \<longrightarrow>
     bit (p_Tables st t' j) 0 \<longrightarrow> bit (p_Tables st t' j) 2 \<longrightarrow> bit (p_Tables st t i) 2)"

definition pt_inv :: "paging \<Rightarrow> bool" where
  "pt_inv st \<longleftrightarrow> frame_inv (p_Frames st) \<and> unat (s_FrameCount (p_Frames st)) \<le> 2 ^ 40 \<and>
     pt_tree st \<and> pt_upper st \<and> pt_user st"

lemma pt_table:
  assumes "pt_inv st" "tat st p = Some t" "length p \<le> 3"
  shows "t \<noteq> 0" "addr t" "unat t div 4096 \<notin> free_set (p_Frames st)"
  using assms by (auto simp: pt_inv_def pt_tree_def)

lemma pt_path:
  "pt_inv st \<Longrightarrow> tat st p = Some t \<Longrightarrow> tat st q = Some t \<Longrightarrow> length p \<le> 3 \<Longrightarrow> length q \<le> 3 \<Longrightarrow> p = q"
  unfolding pt_inv_def pt_tree_def by blast

lemma pt_entry:
  "pt_inv st \<Longrightarrow> tat st p = Some t \<Longrightarrow> length p \<le> 2 \<Longrightarrow> bit (p_Tables st t i) 0 \<Longrightarrow> upper_ok (p_Tables st t i)"
  unfolding pt_inv_def pt_upper_def by blast

lemma pt_open:
  "pt_inv st \<Longrightarrow> tat st p = Some t \<Longrightarrow> tat st (i # p) = Some t' \<Longrightarrow> length p \<le> 2 \<Longrightarrow>
     bit (p_Tables st t' j) 0 \<Longrightarrow> bit (p_Tables st t' j) 2 \<Longrightarrow> bit (p_Tables st t i) 2"
  unfolding pt_inv_def pt_user_def by blast

lemma write_entry_tables:
  "p_Tables (write_entry t i v st) s j = (if s = t \<and> j = i then v else p_Tables st s j)"
  by (simp add: write_entry_def)

lemma write_entry_fields [simp]:
  "p_Frames (write_entry t i v st) = p_Frames st" "s_Root (write_entry t i v st) = s_Root st"
  "s_NoExecuteAvailable (write_entry t i v st) = s_NoExecuteAvailable st"
  "s_TableCount (write_entry t i v st) = s_TableCount st" "s_MappedRamEnd (write_entry t i v st) = s_MappedRamEnd st"
  "reg_EFER (write_entry t i v st) = reg_EFER st"
  by (simp_all add: write_entry_def)

section \<open>Opening an existing entry\<close>

definition opened :: "paging \<Rightarrow> u64 list \<Rightarrow> bool" where
  "opened st p \<longleftrightarrow> (\<forall>i0 p0 t0. p = i0 # p0 \<longrightarrow> tat st p0 = Some t0 \<longrightarrow> bit (p_Tables st t0 i0) 2)"

lemma tat_write_same:
  assumes "\<And>n. n \<noteq> 2 \<Longrightarrow> bit v n = bit (p_Tables st t i) n"
  shows "tat (write_entry t i v st) q = tat st q"
proof (induction q)
  case (Cons j q)
  have "bit v 0 = bit (p_Tables st t i) 0" using assms by simp
  moreover have "v AND ADDRESS_MASK = p_Tables st t i AND ADDRESS_MASK"
    using assms by (intro bit_word_eqI) (auto simp: pte_bits)
  ultimately show ?case using Cons by (auto simp: write_entry_tables split: option.split)
qed simp

lemma open_entry:
  assumes inv: "pt_inv st" and t: "tat st p = Some t" "length p \<le> 2"
    and v: "\<And>n. n \<noteq> 2 \<Longrightarrow> bit v n = bit (p_Tables st t i) n" "bit (p_Tables st t i) 2 \<Longrightarrow> bit v 2"
    and op: "bit v 2 \<Longrightarrow> \<not> bit (p_Tables st t i) 2 \<Longrightarrow> opened st p"
  defines "st' \<equiv> write_entry t i v st"
  shows "pt_inv st'" "\<And>q. tat st' q = tat st q" "\<And>q j. length q = 3 \<Longrightarrow> leaf_at st' q j = leaf_at st q j"
proof -
  show same: "tat st' q = tat st q" for q unfolding st'_def by (rule tat_write_same [OF v(1)])
  have tables: "p_Tables st' s j = (if s = t \<and> j = i then v else p_Tables st s j)" for s j
    by (simp add: st'_def write_entry_tables)
  have mono: "bit (p_Tables st s j) 2 \<Longrightarrow> bit (p_Tables st' s j) 2" for s j
    using v(2) by (auto simp: tables)
  have pres: "bit (p_Tables st' s j) n = bit (p_Tables st s j) n" if "n \<noteq> 2" for s j n
    using v(1) [OF that] by (auto simp: tables)
  have "pt_tree st'" using inv by (simp add: pt_inv_def pt_tree_def same st'_def [symmetric]) (simp add: st'_def)
  moreover have "pt_upper st'" using inv by (simp add: pt_inv_def pt_upper_def upper_ok_def same pres)
  moreover have "pt_user st'"
    unfolding pt_user_def same
  proof (intro allI impI)
    fix q k s s' j
    assume q: "length q \<le> 2" "tat st q = Some s" "tat st (k # q) = Some s'"
      and e: "bit (p_Tables st' s' j) 0" "bit (p_Tables st' s' j) 2"
    have old: "bit (p_Tables st s' j) 0" using e(1) pres by simp
    show "bit (p_Tables st' s k) 2"
    proof (cases "bit (p_Tables st s' j) 2")
      case True
      then show ?thesis using pt_open [OF inv q(2,3,1) old] mono by blast
    next
      case False
      then have "s' = t" "j = i" using e(2) by (auto simp: tables split: if_split_asm)
      then have "k # q = p" using pt_path [OF inv q(3), of p] t q(1) by simp
      moreover have "opened st p" using e(2) False \<open>s' = t\<close> \<open>j = i\<close> by (intro op) (auto simp: tables)
      ultimately show ?thesis using q(2) mono by (auto simp: opened_def)
    qed
  qed
  ultimately show "pt_inv st'" using inv by (simp add: pt_inv_def st'_def)
  show "leaf_at st' q j = leaf_at st q j" if "length q = 3" for q j
  proof (cases "tat st q")
    case (Some s)
    have "s \<noteq> t" using pt_path [OF inv Some, of p] t that by auto
    then show ?thesis using Some by (simp add: leaf_at_def same tables)
  qed (simp add: leaf_at_def same)
qed

section \<open>Hanging in a fresh table\<close>

lemma fresh_table:
  assumes inv: "pt_inv st" and al: "AllocateTable st = (c, st1)" "c \<noteq> 0"
  shows "addr c" "unat c div 4096 \<in> free_set (p_Frames st)"
    "free_set (p_Frames st1) = free_set (p_Frames st) - {unat c div 4096}"
    "frame_inv (p_Frames st1)" "s_FrameCount (p_Frames st1) = s_FrameCount (p_Frames st)"
    "p_Tables st1 = (p_Tables st)(c := (\<lambda>_. 0))" "s_Root st1 = s_Root st"
    "s_NoExecuteAvailable st1 = s_NoExecuteAvailable st" "s_MappedRamEnd st1 = s_MappedRamEnd st"
    "reg_EFER st1 = reg_EFER st"
proof -
  obtain fs where fs: "Frame_Allocate (p_Frames st) 1 = (c, fs)"
      "st1 = st\<lparr>p_Frames := fs, p_Tables := (p_Tables st)(c := (\<lambda>_. 0)), s_TableCount := s_TableCount st + 1\<rparr>"
    using al by (auto simp: AllocateTable_def split: prod.split_asm if_split_asm)
  have fi: "frame_inv (p_Frames st)" using inv by (simp add: pt_inv_def)
  note A = frame_alloc.alloc_some [OF fi fs(1) al(2)]
  have blk: "block c 1 = {unat c div 4096}" by (auto simp: block_def)
  have "unat c div 4096 < 2 ^ 40" using A inv by (auto simp: block_ok_def pt_inv_def)
  then have "unat c < 2 ^ 52" by (simp add: div_less_iff_less_mult)
  then show "addr c" using A by (intro addrI) (simp_all add: block_ok_def)
  show "unat c div 4096 \<in> free_set (p_Frames st)"
    "free_set (p_Frames st1) = free_set (p_Frames st) - {unat c div 4096}"
    "frame_inv (p_Frames st1)" "s_FrameCount (p_Frames st1) = s_FrameCount (p_Frames st)"
    using A fs(2) blk by (auto simp: word_unat_eq_iff)
  show "p_Tables st1 = (p_Tables st)(c := (\<lambda>_. 0))" "s_Root st1 = s_Root st"
    "s_NoExecuteAvailable st1 = s_NoExecuteAvailable st" "s_MappedRamEnd st1 = s_MappedRamEnd st"
    "reg_EFER st1 = reg_EFER st"
    using fs(2) by simp_all
qed

lemma hang_table:
  assumes inv: "pt_inv st" and t: "tat st p = Some t" "length p \<le> 2" and absent: "\<not> bit (p_Tables st t i) 0"
    and al: "AllocateTable st = (c, st1)" "c \<noteq> 0"
    and v: "bit v 0" "upper_ok v" "v AND ADDRESS_MASK = c" and op: "bit v 2 \<Longrightarrow> opened st p"
  defines "st' \<equiv> write_entry t i v st1"
  shows "pt_inv st'" "\<And>q x. tat st q = Some x \<Longrightarrow> length q \<le> 3 \<Longrightarrow> tat st' q = Some x" "tat st' (i # p) = Some c"
    "\<And>q j. length q = 3 \<Longrightarrow> leaf_at st' q j = leaf_at st q j"
proof -
  note F = fresh_table [OF inv al]
  have tables: "p_Tables st' s j = (if s = t \<and> j = i then v else if s = c then 0 else p_Tables st s j)" for s j
    by (simp add: st'_def write_entry_tables F(6))
  have root: "s_Root st' = s_Root st" "p_Frames st' = p_Frames st1"
    using F(7) by (simp_all add: st'_def)
  have nc: "x \<noteq> c" if "tat st q = Some x" "length q \<le> 3" for q x
    using pt_table(3) [OF inv that] F(2) by auto
  show keep: "tat st' q = Some x" if "tat st q = Some x" "length q \<le> 3" for q x
    using that
  proof (induction q arbitrary: x)
    case (Cons j q)
    then obtain y where y: "tat st q = Some y" "bit (p_Tables st y j) 0" "x = p_Tables st y j AND ADDRESS_MASK"
      by (auto split: option.split_asm if_split_asm)
    have "\<not> (y = t \<and> j = i)" using y(2) absent by auto
    moreover have "y \<noteq> c" using nc [OF y(1)] Cons.prems(2) by simp
    ultimately show ?case using Cons.IH [OF y(1)] Cons.prems(2) y by (auto simp: tables)
  qed (simp add: root)
  have new: "tat st q = Some x \<or> (q = i # p \<and> x = c)" if "tat st' q = Some x" "length q \<le> 3" for q x
    using that
  proof (induction q arbitrary: x)
    case (Cons j q)
    then obtain y where y: "tat st' q = Some y" "bit (p_Tables st' y j) 0" "x = p_Tables st' y j AND ADDRESS_MASK"
      by (auto split: option.split_asm if_split_asm)
    have "y \<noteq> c" if "q = i # p"
      using that y(2) nc [OF t(1)] t(2) keep by (auto simp: tables)
    then have old: "tat st q = Some y" using Cons.IH [OF y(1)] Cons.prems(2) by auto
    show ?case
    proof (cases "y = t \<and> j = i")
      case True
      then have "q = p" using pt_path [OF inv old] t Cons.prems(2) by simp
      then show ?thesis using True y(3) v(3) by (simp add: tables)
    next
      case False
      then show ?thesis using old y nc [OF old] Cons.prems(2) by (auto simp: tables)
    qed
  qed (simp add: root)
  have tc: "t \<noteq> c" using nc [OF t(1)] t(2) by simp
  show leaf: "tat st' (i # p) = Some c" using keep [OF t(1)] t(2) v(1,3) by (simp add: tables)
  have "pt_tree st'"
    unfolding pt_tree_def
  proof (rule conjI; intro allI impI)
    fix q x assume q: "length q \<le> 3" "tat st' q = Some x"
    show "x \<noteq> 0 \<and> addr x \<and> unat x div 4096 \<notin> free_set (p_Frames st')"
      using new [OF q(2,1)] pt_table [OF inv _ q(1), of x] al(2) F(1,3) root(2) by auto
  next
    fix q q' x assume q: "length q \<le> 3" "length q' \<le> 3" "tat st' q = Some x" "tat st' q' = Some x"
    show "q = q'"
      using new [OF q(3,1)] new [OF q(4,2)] pt_path [OF inv, of q x q'] nc q(1,2) by blast
  qed
  moreover have "pt_upper st'"
    unfolding pt_upper_def
  proof (intro allI impI)
    fix q k x assume q: "length q \<le> 2" "tat st' q = Some x" "bit (p_Tables st' x k) 0"
    then show "upper_ok (p_Tables st' x k)"
      using new [OF q(2)] pt_entry [OF inv _ q(1), of x k] v(2) by (auto simp: tables split: if_split_asm)
  qed
  moreover have "pt_user st'"
    unfolding pt_user_def
  proof (intro allI impI)
    fix q k x x' j
    assume q: "length q \<le> 2" "tat st' q = Some x" "tat st' (k # q) = Some x'"
      and e: "bit (p_Tables st' x' j) 0" "bit (p_Tables st' x' j) 2"
    have "x' \<noteq> c" using e(1) tc by (auto simp: tables split: if_split_asm)
    then have o': "tat st (k # q) = Some x'" using new [OF q(3)] q(1) by auto
    then obtain y where "tat st q = Some y" by (auto split: option.split_asm)
    then have o: "tat st q = Some x" using keep [of q y] q(1,2) by simp
    have "bit (p_Tables st x k) 0" using o o' by (simp split: if_split_asm)
    then have k: "p_Tables st' x k = p_Tables st x k" using absent nc [OF o] q(1) by (auto simp: tables)
    show "bit (p_Tables st' x k) 2"
    proof (cases "x' = t \<and> j = i")
      case True
      then have "k # q = p" using pt_path [OF inv o', of p] t q(1) by simp
      moreover have "opened st p" using e(2) True by (intro op) (simp add: tables)
      ultimately show ?thesis using o k by (auto simp: opened_def)
    next
      case False
      then have "p_Tables st' x' j = p_Tables st x' j" using \<open>x' \<noteq> c\<close> by (auto simp: tables)
      then show ?thesis using pt_open [OF inv o o' q(1)] e k by simp
    qed
  qed
  ultimately show "pt_inv st'" using inv F(4,5) root(2) by (simp add: pt_inv_def)
  show "leaf_at st' q j = leaf_at st q j" if len: "length q = 3" for q j
  proof (cases "tat st q")
    case (Some x)
    then have "x \<noteq> c" "x \<noteq> t" using nc pt_path [OF inv Some, of p] t len by auto
    then show ?thesis using keep [OF Some] Some len by (simp add: leaf_at_def tables)
  next
    case None
    show ?thesis
    proof (cases "tat st' q")
      case (Some x)
      then have "x = c" using new None len by fastforce
      then show ?thesis using Some None tc by (simp add: leaf_at_def tables)
    qed (simp add: leaf_at_def None)
  qed
qed

section \<open>Descend\<close>

definition same_regs :: "paging \<Rightarrow> paging \<Rightarrow> bool" where
  "same_regs st st' \<longleftrightarrow> s_Root st' = s_Root st \<and> s_NoExecuteAvailable st' = s_NoExecuteAvailable st \<and>
     s_MappedRamEnd st' = s_MappedRamEnd st \<and> reg_EFER st' = reg_EFER st \<and>
     free_set (p_Frames st') \<subseteq> free_set (p_Frames st)"

lemma same_regs_refl [simp]: "same_regs st st"
  by (simp add: same_regs_def)

lemma same_regs_trans: "same_regs a b \<Longrightarrow> same_regs b c \<Longrightarrow> same_regs a c"
  by (auto simp: same_regs_def)

text \<open>A transition that only adds empty tables: the leaves are as before.\<close>

definition grows :: "paging \<Rightarrow> paging \<Rightarrow> bool" where
  "grows st st' \<longleftrightarrow> pt_inv st' \<and> same_regs st st' \<and>
     (\<forall>q j. length q = 3 \<longrightarrow> leaf_at st' q j = leaf_at st q j)"

lemma grows_trans: "grows a b \<Longrightarrow> grows b c \<Longrightarrow> grows a c"
  by (auto simp: grows_def intro: same_regs_trans)

lemma AllocateTable_none:
  assumes "pt_inv st" "AllocateTable st = (0, st')"
  shows "st' = st" "fst (Frame_Allocate (p_Frames st) 1) = 0"
proof -
  have fi: "frame_inv (p_Frames st)" using assms(1) by (simp add: pt_inv_def)
  obtain fs where fs: "Frame_Allocate (p_Frames st) 1 = (0, fs)" "st' = st\<lparr>p_Frames := fs\<rparr>"
    using assms(2) by (auto simp: AllocateTable_def split: prod.split_asm if_split_asm)
  then show "st' = st" using frame_alloc.alloc_none [OF fi fs(1)] by simp
  show "fst (Frame_Allocate (p_Frames st) 1) = 0" using fs(1) by simp
qed

lemma Descend_step_ok:
  assumes inv: "pt_inv st" and t: "tat st p = Some t" "length p \<le> 2" and tf: "tf = 0 \<or> tf = PTE_USER"
    and op: "tf = PTE_USER \<longrightarrow> opened st p" and step: "Descend_step tf t i st = (r, st')"
  shows "grows st st'" "tat st' p = Some t" "r = None \<Longrightarrow> fst (Frame_Allocate (p_Frames st') 1) = 0"
    "r = Some t' \<Longrightarrow> tat st' (i # p) = Some t'" "r = Some t' \<Longrightarrow> tf = PTE_USER \<longrightarrow> opened st' (i # p)"
proof -
  have "PTE_USER \<noteq> 0" by (simp add: PTE_USER_def)
  then have tfb: "bit tf n \<longleftrightarrow> n = 2 \<and> tf = PTE_USER" for n using tf by (auto simp: pte_bit)
  have all: "grows st st' \<and> tat st' p = Some t \<and> (r = None \<longrightarrow> fst (Frame_Allocate (p_Frames st') 1) = 0) \<and>
    (\<forall>t'. r = Some t' \<longrightarrow> tat st' (i # p) = Some t' \<and> (tf = PTE_USER \<longrightarrow> bit (p_Tables st' t i) 2))"
  proof (cases "bit (p_Tables st t i) 0")
    case True
    let ?v = "p_Tables st t i OR tf"
    have eq: "r = Some (?v AND ADDRESS_MASK)" "st' = write_entry t i ?v st"
      using step True by (auto simp: Descend_step_def pte_test Let_def)
    have v: "bit ?v n = bit (p_Tables st t i) n" if "n \<noteq> 2" for n using that tfb by (simp add: bit_or_iff)
    note O = open_entry [OF inv t, of ?v i, folded eq(2)]
    have "grows st st'" "\<And>q. tat st' q = tat st q"
      using O v op tfb eq(2) by (auto simp: grows_def same_regs_def bit_or_iff)
    moreover have "bit ?v 0" "tf = PTE_USER \<longrightarrow> bit ?v 2" using True tfb by (auto simp: bit_or_iff)
    moreover have "?v AND ADDRESS_MASK = p_Tables st t i AND ADDRESS_MASK"
      using tfb by (intro bit_word_eqI) (auto simp: pte_bits)
    ultimately show ?thesis using eq t True by (auto simp: write_entry_tables)
  next
    case False
    obtain c st1 where al: "AllocateTable st = (c, st1)" by (cases "AllocateTable st")
    show ?thesis
    proof (cases "c = 0")
      case True
      then have "r = None" "st' = st" "fst (Frame_Allocate (p_Frames st) 1) = 0"
        using step False al AllocateTable_none [OF inv] by (auto simp: Descend_step_def pte_test)
      then show ?thesis using t inv by (simp add: grows_def)
    next
      case c: False
      let ?v = "(c OR PTE_PRESENT OR PTE_WRITABLE) OR tf"
      note F = fresh_table [OF inv al c]
      have eq: "r = Some (?v AND ADDRESS_MASK)" "st' = write_entry t i ?v st1"
        using step False al c by (auto simp: Descend_step_def pte_test Let_def)
      have cb: "bit c n \<Longrightarrow> 12 \<le> n \<and> n < 52" for n using F(1) by (simp add: addr_iff)
      have v1: "bit ?v 0" "upper_ok ?v" "bit ?v 2 \<longleftrightarrow> tf = PTE_USER"
        using cb [of 7] cb [of 63] cb [of 2] by (auto simp: upper_ok_def pte_bits tfb)
      have v2: "?v AND ADDRESS_MASK = c"
      proof (rule bit_word_eqI)
        fix n
        show "bit (?v AND ADDRESS_MASK) n = bit c n" using cb [of n] by (auto simp: pte_bits tfb)
      qed
      note v = v1(1,2) v2 v1(3)
      note H = hang_table [OF inv t False al c v(1-3), folded eq(2)]
      have "grows st st'" using H(1,4) op v(4) F(3,7-10) eq(2) by (auto simp: grows_def same_regs_def)
      moreover have "tat st' p = Some t" using H(2) [OF _ t(1)] t(2) op v(4) by simp
      moreover have "tat st' (i # p) = Some c" using H(3) op v(4) by simp
      ultimately show ?thesis using eq v(3,4) by (auto simp: write_entry_tables)
    qed
  qed
  then show "grows st st'" "tat st' p = Some t" "r = None \<Longrightarrow> fst (Frame_Allocate (p_Frames st') 1) = 0"
    "r = Some t' \<Longrightarrow> tat st' (i # p) = Some t'" by (simp_all only:)
  show "r = Some t' \<Longrightarrow> tf = PTE_USER \<longrightarrow> opened st' (i # p)"
    using all by (auto simp: opened_def)
qed

lemma Descend_loop_ok:
  assumes "pt_inv st" "tat st p = Some t" "length p = 4 - level" "1 \<le> level" "level \<le> 4"
    "tf = 0 \<or> tf = PTE_USER" "tf = PTE_USER \<longrightarrow> opened st p"
    "Descend_loop v 1 tf level t st = (r, st')"
  shows "grows st st' \<and> (r = None \<longrightarrow> fst (Frame_Allocate (p_Frames st') 1) = 0) \<and>
    (\<forall>t'. r = Some t' \<longrightarrow> tat st' (map (IndexAt v) [2..<Suc level] @ p) = Some t' \<and>
      (tf = PTE_USER \<longrightarrow> opened st' (map (IndexAt v) [2..<Suc level] @ p)))"
  using assms
proof (induction level arbitrary: p t st)
  case (Suc level)
  show ?case
  proof (cases "level = 0")
    case True
    then show ?thesis using Suc.prems by (subst (asm) Descend_loop.simps) (auto simp: grows_def)
  next
    case False
    let ?i = "IndexAt v (Suc level)"
    obtain r1 st1 where st1: "Descend_step tf t ?i st = (r1, st1)" by (cases "Descend_step tf t ?i st")
    have len: "length p \<le> 2" using Suc.prems(3) False by simp
    note S = Descend_step_ok [OF Suc.prems(1,2) len Suc.prems(6,7) st1]
    show ?thesis
    proof (cases r1)
      case None
      then have "r = None" "st' = st1"
        using Suc.prems(8) st1 False by (auto simp: Descend_loop.simps [of v "Suc 0" tf "Suc level"])
      then show ?thesis using S(1,3) None by simp
    next
      case (Some t1)
      then have eq: "Descend_loop v 1 tf level t1 st1 = (r, st')"
        using Suc.prems(8) st1 False by (auto simp: Descend_loop.simps [of v "Suc 0" tf "Suc level"])
      have path: "map (IndexAt v) [2..<Suc (Suc level)] @ p = map (IndexAt v) [2..<Suc level] @ ?i # p"
        using False by simp
      have "pt_inv st1" using S(1) by (simp add: grows_def)
      from Suc.IH [OF this S(4) [OF Some] _ _ _ Suc.prems(6) S(5) [OF Some] eq]
      have "grows st1 st' \<and> (r = None \<longrightarrow> fst (Frame_Allocate (p_Frames st') 1) = 0) \<and>
          (\<forall>t'. r = Some t' \<longrightarrow> tat st' (map (IndexAt v) [2..<Suc level] @ ?i # p) = Some t' \<and>
            (tf = PTE_USER \<longrightarrow> opened st' (map (IndexAt v) [2..<Suc level] @ ?i # p)))"
        using Suc.prems(3,5) False by simp
      then show ?thesis unfolding path using grows_trans [OF S(1)] by blast
    qed
  qed
qed simp

text \<open>The path of the leaf table of a virtual address.\<close>

definition path_of :: "u64 \<Rightarrow> u64 list" where
  "path_of v = [IndexAt v 2, IndexAt v 3, IndexAt v 4]"

lemma Descend_ok:
  assumes "pt_inv st" "tf = 0 \<or> tf = PTE_USER" "Descend v LEAF_LEVEL tf st = (r, st')"
  shows "grows st st'" "r = None \<Longrightarrow> fst (Frame_Allocate (p_Frames st') 1) = 0"
    "r = Some t \<Longrightarrow> tat st' (path_of v) = Some t" "r = Some t \<Longrightarrow> tf = PTE_USER \<Longrightarrow> opened st' (path_of v)"
proof -
  have "[2..<Suc 4] = [2, 3, 4 :: nat]" by (simp add: upt_rec)
  then show "grows st st'" "r = None \<Longrightarrow> fst (Frame_Allocate (p_Frames st') 1) = 0"
    "r = Some t \<Longrightarrow> tat st' (path_of v) = Some t" "r = Some t \<Longrightarrow> tf = PTE_USER \<Longrightarrow> opened st' (path_of v)"
    using Descend_loop_ok [of st "[]" "s_Root st" 4 tf v r st'] assms
    by (auto simp: Descend_def path_of_def opened_def TOP_LEVEL_def LEAF_LEVEL_def)
qed

section \<open>Writing a leaf\<close>

lemma write_leaf:
  fixes j :: u64
  assumes inv: "pt_inv st" and t: "tat st q = Some t" "length q = 3" and op: "bit v 2 \<Longrightarrow> opened st q"
  defines "st' \<equiv> write_entry t j v st"
  shows "pt_inv st'"
    "length q' = 3 \<Longrightarrow> leaf_at st' q' j' =
       (if q' = q \<and> j' = j then if bit v 0 then v else 0 else leaf_at st q' j')"
proof -
  have tables: "p_Tables st' s k = (if s = t \<and> k = j then v else p_Tables st s k)" for s k
    by (simp add: st'_def write_entry_tables)
  have nt: "x \<noteq> t" if "tat st p = Some x" "length p \<le> 2" for p x
    using pt_path [OF inv that(1), of q] t that(2) by auto
  have same: "tat st' p = tat st p" if "length p \<le> 3" for p
    using that
  proof (induction p)
    case (Cons i p)
    then show ?case using nt by (auto simp: tables split: option.split)
  qed (simp add: st'_def)
  have "pt_tree st'" using inv same by (simp add: pt_inv_def pt_tree_def) (simp add: st'_def)
  moreover have "pt_upper st'"
    using pt_entry [OF inv] same nt by (auto simp: pt_upper_def tables)
  moreover have "pt_user st'"
    unfolding pt_user_def
  proof (intro allI impI)
    fix p i x x' k
    assume p: "length p \<le> 2" "tat st' p = Some x" "tat st' (i # p) = Some x'"
      and e: "bit (p_Tables st' x' k) 0" "bit (p_Tables st' x' k) 2"
    have o: "tat st p = Some x" "tat st (i # p) = Some x'"
      using p same [of p] same [of "i # p"] by (simp_all del: tat.simps)
    have up: "p_Tables st' x i = p_Tables st x i" using nt [OF o(1) p(1)] by (simp add: tables)
    show "bit (p_Tables st' x i) 2"
    proof (cases "x' = t \<and> k = j")
      case True
      then have "i # p = q" using pt_path [OF inv o(2), of q] t p(1) by simp
      then show ?thesis using op e(2) True o(1) up by (auto simp: tables opened_def)
    next
      case False
      then have "p_Tables st' x' k = p_Tables st x' k" by (auto simp: tables)
      then show ?thesis using pt_open [OF inv o p(1)] e up by simp
    qed
  qed
  ultimately show "pt_inv st'" using inv by (simp add: pt_inv_def st'_def)
  show "leaf_at st' q' j' = (if q' = q \<and> j' = j then if bit v 0 then v else 0 else leaf_at st q' j')"
    if len: "length q' = 3"
  proof (cases "tat st q'")
    case (Some x)
    have "x = t \<longleftrightarrow> q' = q" using pt_path [OF inv Some, of q] t len Some by auto
    then show ?thesis using Some same [of q'] len t by (auto simp: leaf_at_def tables)
  next
    case None
    then show ?thesis using same [of q'] len t by (auto simp: leaf_at_def)
  qed
qed

section \<open>Pages\<close>

definition leaf_of :: "paging \<Rightarrow> u64 \<Rightarrow> u64" where
  "leaf_of st v = leaf_at st (path_of v) (IndexAt v 1)"

definition same_page :: "u64 \<Rightarrow> u64 \<Rightarrow> bool" where
  "same_page v w \<longleftrightarrow> path_of v = path_of w \<and> IndexAt v 1 = IndexAt w 1"

lemma bit_IndexAt: "bit (IndexAt v l) n \<longleftrightarrow> n < 9 \<and> bit v (12 + 9 * (l - 1) + n)"
proof -
  have "(ENTRIES_PER_TABLE - 1 :: u64) = mask 9" by (simp add: config_defs mask_eq_exp_minus_1)
  then show ?thesis
    by (auto simp: IndexAt_def bit_and_iff bit_mask_iff bit_drop_bit_eq add.commute dest: bit_imp_le_length)
qed

lemma same_page_div:
  assumes "same_page v w"
  shows "unat v div 4096 mod 2 ^ 36 = unat w div 4096 mod 2 ^ 36"
proof -
  have i: "IndexAt v l = IndexAt w l" if "l \<in> {1, 2, 3, 4}" for l
    using assms that by (auto simp: same_page_def path_of_def)
  have "bit v (12 + m) = bit w (12 + m)" if "m < 36" for m
  proof -
    have "m div 9 + 1 \<in> {1, 2, 3, 4}" using that by auto
    from i [OF this] bit_IndexAt [of v "m div 9 + 1" "m mod 9"] bit_IndexAt [of w "m div 9 + 1" "m mod 9"]
    show ?thesis by (simp add: add.commute)
  qed
  then have "take_bit 36 (drop_bit 12 v) = take_bit 36 (drop_bit 12 w)"
    by (intro bit_word_eqI) (auto simp: bit_take_bit_iff bit_drop_bit_eq)
  then have "unat (take_bit 36 (drop_bit 12 v)) = unat (take_bit 36 (drop_bit 12 w))" by simp
  then show ?thesis
    by (simp add: take_bit_eq_mod drop_bit_eq_div unat_mod unat_div)
qed

lemma same_page_offset:
  assumes "unat v div 4096 = unat w div 4096"
  shows "same_page v w"
proof -
  have "drop_bit 12 v = drop_bit 12 w"
    using assms by (simp add: word_unat_eq_iff drop_bit_eq_div unat_div)
  then have b: "bit v (12 + m) = bit w (12 + m)" for m by (metis bit_drop_bit_eq comp_apply)
  have "IndexAt v l = IndexAt w l" for l
    by (rule bit_word_eqI) (use b [of "9 * (l - 1) + _"] in \<open>simp add: bit_IndexAt add.assoc\<close>)
  then show ?thesis by (simp add: same_page_def path_of_def)
qed

section \<open>Effective\<close>

lemma Effective_leaf:
  assumes inv: "pt_inv st"
  shows "Effective st v = (leaf_of st v AND (PTE_PRESENT OR PTE_WRITABLE OR PTE_USER)) OR
    (leaf_of st v AND PTE_NO_EXECUTE) OR (leaf_of st v AND ADDRESS_MASK)"
proof -
  let ?i = "IndexAt v" and ?G = "PTE_PRESENT OR PTE_WRITABLE OR PTE_USER"
  let ?t4 = "s_Root st"
  let ?e4 = "p_Tables st ?t4 (?i 4)"
  let ?t3 = "?e4 AND ADDRESS_MASK"
  let ?e3 = "p_Tables st ?t3 (?i 3)"
  let ?t2 = "?e3 AND ADDRESS_MASK"
  let ?e2 = "p_Tables st ?t2 (?i 2)"
  let ?t1 = "?e2 AND ADDRESS_MASK"
  let ?e1 = "p_Tables st ?t1 (?i 1)"
  have t4: "tat st [] = Some ?t4" by simp
  show ?thesis
  proof (cases "bit ?e4 0 \<and> bit ?e3 0 \<and> bit ?e2 0")
    case False
    then have "leaf_of st v = 0" by (auto simp: leaf_of_def leaf_at_def path_of_def)
    moreover have "Effective st v = 0"
      using False unfolding Effective_def config_defs
      by (auto simp: Effective_loop.simps [of st v 4] Effective_loop.simps [of st v 3]
          Effective_loop.simps [of st v 2] Effective_loop.simps [of st v "Suc 0"] pte_test Let_def config_defs)
    ultimately show ?thesis by simp
  next
    case True
    then have t3: "tat st [?i 4] = Some ?t3" by simp
    then have t2: "tat st [?i 3, ?i 4] = Some ?t2" using True by simp
    then have t1: "tat st [?i 2, ?i 3, ?i 4] = Some ?t1" using True by simp
    have up: "upper_ok ?e4" "upper_ok ?e3" "upper_ok ?e2"
      using True pt_entry [OF inv t4] pt_entry [OF inv t3] pt_entry [OF inv t2] by simp_all
    have leaf: "leaf_of st v = (if bit ?e1 0 then ?e1 else 0)"
      using t1 by (simp add: leaf_of_def leaf_at_def path_of_def del: tat.simps)
    have us: "bit ?e2 2 \<and> bit ?e3 2 \<and> bit ?e4 2" if "bit ?e1 0" "bit ?e1 2"
    proof -
      have a: "bit ?e2 2" using pt_open [OF inv t2 t1 _ that] by simp
      have b: "bit ?e3 2" using pt_open [OF inv t3 t2 _ _ a] True by simp
      have "bit ?e4 2" using pt_open [OF inv t4 t3 _ _ b] True by simp
      with a b show ?thesis by simp
    qed
    have eff: "Effective st v = (if bit ?e1 0 then (?G AND ?e4 AND ?e3 AND ?e2 AND ?e1) OR
        (0 OR (?e4 AND PTE_NO_EXECUTE) OR (?e3 AND PTE_NO_EXECUTE) OR (?e2 AND PTE_NO_EXECUTE) OR
          (?e1 AND PTE_NO_EXECUTE)) OR (?e1 AND ADDRESS_MASK) else 0)"
      using True up unfolding Effective_def config_defs upper_ok_def
      by (simp add: Effective_loop.simps [of st v 4] Effective_loop.simps [of st v 3]
          Effective_loop.simps [of st v 2] Effective_loop.simps [of st v "Suc 0"] pte_test Let_def config_defs and.assoc or.assoc)
    show ?thesis
    proof (cases "bit ?e1 0")
      case e1: True
      have "?G AND ?e4 AND ?e3 AND ?e2 AND ?e1 = ?e1 AND ?G"
        using True up us e1 by (intro bit_word_eqI) (auto simp: pte_bits upper_ok_def)
      moreover have "?e4 AND PTE_NO_EXECUTE = 0" "?e3 AND PTE_NO_EXECUTE = 0" "?e2 AND PTE_NO_EXECUTE = 0"
        using up by (simp_all add: pte_test upper_ok_def)
      ultimately show ?thesis using eff leaf e1 by simp
    qed (use eff leaf in simp)
  qed
qed

section \<open>Map\<close>

definition page_at :: "u64 \<Rightarrow> nat \<Rightarrow> u64" where
  "page_at page k = page + of_nat (4096 * k)"

lemma page_at_0 [simp]: "page_at page 0 = page"
  by (simp add: page_at_def)

lemma page_at_Suc: "page_at page (Suc k) = page_at (page + PAGE_SIZE) k"
  by (simp add: page_at_def config_defs algebra_simps)

lemma page_at_nat: "unat page + 4096 * k < 2 ^ 64 \<Longrightarrow> unat (page_at page k) = unat page + 4096 * k"
proof -
  assume b: "unat page + 4096 * k < 2 ^ 64"
  then have u: "unat (of_nat (4096 * k) :: u64) = 4096 * k" by (intro unat_of_nat_small) simp
  have "unat page + unat (of_nat (4096 * k) :: u64) < 2 ^ LENGTH(64)" using b u by (simp del: of_nat_mult)
  then show ?thesis unfolding page_at_def using u unat_add_no_wrap by metis
qed

definition page_count :: "u64 \<Rightarrow> u64 \<Rightarrow> nat" where
  "page_count page lim = (unat lim - unat page + 4095) div 4096"

lemma page_count_bound: "k < page_count page lim \<Longrightarrow> unat page + 4096 * k < unat lim"
  unfolding page_count_def using less_ceil_iff [of k "unat lim - unat page"] by linarith

lemma ceil_step: "0 < d \<Longrightarrow> (d + 4095) div 4096 = Suc ((d - 4096 + 4095) div 4096)" for d :: nat
  by (cases "d \<le> 4096") (simp_all add: le_div_geq)

lemma pages_distinct:
  assumes "unat page + 4096 * k < 2 ^ 64" "0 < k" "k < 2 ^ 36"
  shows "\<not> same_page page (page_at page k)"
proof
  let ?P = "unat page div 4096"
  assume "same_page page (page_at page k)"
  from same_page_div [OF this] have "?P mod 2 ^ 36 = (?P + k) mod 2 ^ 36"
    using page_at_nat [OF assms(1)] by (simp add: add.commute)
  then have "k mod 2 ^ 36 = 0"
    by (metis add_diff_cancel_left' mod_eq_dvd_iff_nat le_add1 dvd_eq_mod_eq_0)
  then show False using assms(2,3) by simp
qed

lemma leaf_of_same_page: "same_page v w \<Longrightarrow> leaf_of st v = leaf_of st w"
  by (simp add: same_page_def leaf_of_def)

lemma grows_leaf: "grows st st' \<Longrightarrow> leaf_of st' v = leaf_of st v"
  by (simp add: grows_def leaf_of_def path_of_def)

text \<open>Mapping one page changes the leaf of that page only.\<close>

lemma Map_page:
  assumes inv: "pt_inv st" and tf: "tf = 0 \<or> tf = PTE_USER"
    and flags: "bit flags 0" "bit (source OR flags) 2 \<longrightarrow> tf = PTE_USER"
    and step: "Descend page LEAF_LEVEL tf st = (Some t, st1)"
  defines "st2 \<equiv> write_entry t (IndexAt page LEAF_LEVEL) (source OR flags) st1"
  shows "pt_inv st2" "same_regs st st2"
    "leaf_of st2 w = (if same_page page w then source OR flags else leaf_of st w)"
proof -
  note D = Descend_ok [OF inv tf step]
  have inv1: "pt_inv st1" using D(1) by (simp add: grows_def)
  have op: "bit (source OR flags) 2 \<Longrightarrow> opened st1 (path_of page)" using D(4) flags(2) by simp
  have q: "tat st1 (path_of page) = Some t" "length (path_of page) = 3" using D(3) by (simp_all add: path_of_def)
  note W = write_leaf [OF inv1 q, where v = "source OR flags" and j = "IndexAt page LEAF_LEVEL",
      folded st2_def]
  show "pt_inv st2" using op by (rule W(1))
  show "same_regs st st2" using D(1) by (simp add: grows_def same_regs_def st2_def)
  have "leaf_of st2 w = (if same_page page w then source OR flags else leaf_of st1 w)"
    using W(2) [OF op, where q' = "path_of w" and j' = "IndexAt w 1"] flags(1)
    by (auto simp: leaf_of_def same_page_def path_of_def LEAF_LEVEL_def bit_or_iff)
  then show "leaf_of st2 w = (if same_page page w then source OR flags else leaf_of st w)"
    using grows_leaf [OF D(1)] by simp
qed

lemma Map_loop_ok:
  assumes "pt_inv st" "tf = 0 \<or> tf = PTE_USER" "bit flags 0" "bit flags 2 \<longrightarrow> tf = PTE_USER"
    "unat lim + 4096 \<le> 2 ^ 64" "unat source mod 4096 = 0"
  shows "\<exists>ok st'. Map_loop flags tf lim page source st = Some (ok, st') \<and> pt_inv st' \<and> same_regs st st' \<and>
    (\<not> ok \<longrightarrow> fst (Frame_Allocate (p_Frames st') 1) = 0) \<and>
    (\<forall>w. leaf_of st' w = leaf_of st w \<or>
      (\<exists>k < page_count page lim. same_page (page_at page k) w \<and> leaf_of st' w = page_at source k OR flags)) \<and>
    (ok \<longrightarrow> page_count page lim \<le> 2 ^ 36 \<longrightarrow>
      (\<forall>k < page_count page lim. leaf_of st' (page_at page k) = page_at source k OR flags))"
  using assms(1,6)
proof (induction "unat lim - unat page" arbitrary: page source st rule: less_induct)
  case less
  let ?n = "page_count page lim" and ?next = "page + PAGE_SIZE" and ?src = "source + PAGE_SIZE"
  show ?case
  proof (cases "page < lim")
    case False
    then have "?n = 0" by (simp add: page_count_def word_nat)
    moreover have "Map_loop flags tf lim page source st = Some (True, st)"
      using False by (subst Map_loop.simps) simp
    ultimately show ?thesis using less.prems by (intro exI [of _ True] exI [of _ st]) simp
  next
    case True
    obtain r st1 where D: "Descend page LEAF_LEVEL tf st = (r, st1)" by (cases "Descend page LEAF_LEVEL tf st")
    show ?thesis
    proof (cases r)
      case None
      then have "Map_loop flags tf lim page source st = Some (False, st1)"
        using True D by (subst Map_loop.simps) simp
      then show ?thesis
        using Descend_ok(1,2) [OF less.prems(1) assms(2) D] None grows_leaf
        by (intro exI [of _ False] exI [of _ st1]) (auto simp: grows_def)
    next
      case (Some t)
      let ?st2 = "write_entry t (IndexAt page LEAF_LEVEL) (source OR flags) st1"
      have "\<not> bit source 2"
      proof -
        have "source AND mask 12 = 0"
          using less.prems(2) and_mask_nat [of source 12] by (simp add: word_unat_eq_iff)
        then have "\<not> bit (source AND mask 12) 2" by simp
        then show ?thesis by (simp add: bit_and_iff bit_mask_iff)
      qed
      then have fl: "bit (source OR flags) 2 \<longrightarrow> tf = PTE_USER" using assms(4) by (simp add: bit_or_iff)
      note P = Map_page [OF less.prems(1) assms(2,3) fl D [unfolded Some]]
      have lt: "unat page < unat lim" using True by (simp add: word_nat)
      have nx: "unat ?next = unat page + 4096"
        using lt assms(5) by (subst unat_add_no_wrap) (simp_all add: config_defs)
      have sm: "unat ?src mod 4096 = 0"
        using less.prems(2) by (simp add: unat_word_ariths config_defs mod_mod_cancel)
      have n: "?n = Suc (page_count ?next lim)"
        unfolding page_count_def nx using ceil_step [of "unat lim - unat page"] lt by simp
      have dec: "unat lim - unat ?next < unat lim - unat page" using lt nx by simp
      have eq: "Map_loop flags tf lim page source st = Map_loop flags tf lim ?next ?src ?st2"
        using True D Some by (subst Map_loop.simps) simp
      obtain ok st' where IH: "Map_loop flags tf lim ?next ?src ?st2 = Some (ok, st')" "pt_inv st'" "same_regs ?st2 st'"
          "\<not> ok \<longrightarrow> fst (Frame_Allocate (p_Frames st') 1) = 0"
          "\<forall>w. leaf_of st' w = leaf_of ?st2 w \<or>
            (\<exists>k < page_count ?next lim. same_page (page_at ?next k) w \<and> leaf_of st' w = page_at ?src k OR flags)"
          "ok \<longrightarrow> page_count ?next lim \<le> 2 ^ 36 \<longrightarrow>
            (\<forall>k < page_count ?next lim. leaf_of st' (page_at ?next k) = page_at ?src k OR flags)"
        using less.hyps [OF dec P(1) sm] by blast
      have leaf: "leaf_of st' w = leaf_of st w \<or>
          (\<exists>k < ?n. same_page (page_at page k) w \<and> leaf_of st' w = page_at source k OR flags)" for w
      proof (cases "leaf_of st' w = leaf_of ?st2 w")
        case True
        then show ?thesis using P(3) [of w] n by (cases "same_page page w") (auto intro: exI [of _ 0])
      next
        case False
        then obtain k where "k < page_count ?next lim" "same_page (page_at ?next k) w"
            "leaf_of st' w = page_at ?src k OR flags" using IH(5) by blast
        then show ?thesis using n by (intro disjI2 exI [of _ "Suc k"]) (simp add: page_at_Suc)
      qed
      have first: "leaf_of st' page = source OR flags" if "?n \<le> 2 ^ 36"
      proof (cases "leaf_of st' page = leaf_of ?st2 page")
        case True
        then show ?thesis using P(3) [of page] by (simp add: same_page_def)
      next
        case False
        then obtain k where k: "k < page_count ?next lim" "same_page (page_at page (Suc k)) page"
          using IH(5) by (auto simp: page_at_Suc)
        have "unat page + 4096 * Suc k < 2 ^ 64"
          using page_count_bound [of "Suc k" page lim] k(1) n assms(5) by simp
        then have "\<not> same_page page (page_at page (Suc k))"
          using k(1) n that by (intro pages_distinct) simp_all
        then show ?thesis using k(2) by (simp add: same_page_def)
      qed
      have all: "leaf_of st' (page_at page k) = page_at source k OR flags" if "ok" "?n \<le> 2 ^ 36" "k < ?n" for k
        using that first IH(6) n by (cases k) (simp_all add: page_at_Suc)
      have "Map_loop flags tf lim page source st = Some (ok, st')" unfolding eq by (rule IH(1))
      moreover have "same_regs st st'" using P(2) IH(3) by (rule same_regs_trans)
      ultimately show ?thesis using IH(2,4) leaf all by blast
    qed
  qed
qed

end
