(* ===== verification/HK_PagingSafety.thy ===== *)
theory HK_PagingSafety
  imports HK_PageTree
begin

text \<open>
  What \<open>Paging::Map\<close> guarantees: pages translate to the memory they were mapped to with the permissions
  asked for, and other pages are untouched.
\<close>

section \<open>Flags\<close>

lemma FlagsFor_bits:
  "bit (FlagsFor st a p c) n \<longleftrightarrow> n = 0 \<or> (n = 1 \<and> a = READ_WRITE) \<or>
     (n = 63 \<and> a \<noteq> READ_EXECUTE \<and> s_NoExecuteAvailable st) \<or> (n = 2 \<and> p = USER) \<or> (n = 4 \<and> c = DISABLED)"
  by (auto simp: FlagsFor_def Let_def pte_bits)

lemma aligned_bits:
  assumes "unat a mod 4096 = 0" "bit a n"
  shows "12 \<le> n"
proof -
  have "a AND mask 12 = 0" using assms(1) and_mask_nat [of a 12] by (simp add: word_unat_eq_iff)
  then have "\<not> bit (a AND mask 12) n" by simp
  then show ?thesis using assms(2) bit_imp_le_length [OF assms(2)] by (simp add: bit_and_iff bit_mask_iff)
qed

section \<open>Map on ranges\<close>

lemma page_mask_nat: "unat (v AND NOT (PAGE_SIZE - 1)) = unat v div 4096 * 4096"
proof -
  have "(NOT (PAGE_SIZE - 1) :: u64) = NOT (mask 12)" by (simp add: config_defs mask_eq_exp_minus_1)
  then show ?thesis by (simp only: and_not_mask_nat) simp
qed

lemma offset_mask_nat: "unat (v AND (PAGE_SIZE - 1)) = unat v mod 4096"
proof -
  have "(PAGE_SIZE - 1 :: u64) = mask 12" by (simp add: config_defs mask_eq_exp_minus_1)
  then show ?thesis by (simp only: and_mask_nat) simp
qed

text \<open>The pages of a range, by number.\<close>

definition first_page :: "u64 \<Rightarrow> u64" where "first_page v = v AND NOT (PAGE_SIZE - 1)"

definition in_range :: "u64 \<Rightarrow> u64 \<Rightarrow> u64 \<Rightarrow> bool" where
  "in_range v sz w \<longleftrightarrow> (\<exists>k < page_count (first_page v) (v + sz). same_page (page_at (first_page v) k) w)"

lemma Paging_Map_ok:
  fixes acc priv cach
  assumes inv: "pt_inv st" and fits: "unat v + unat sz + 4096 \<le> 2 ^ 64"
  defines "flags \<equiv> FlagsFor st acc priv cach" and "n \<equiv> page_count (first_page v) (v + sz)"
  shows "\<exists>ok st'. Paging_Map v p sz acc priv cach st = Ok (ok, st') \<and> pt_inv st' \<and> same_regs st st' \<and>
    (\<not> ok \<longrightarrow> fst (Frame_Allocate (p_Frames st') 1) = 0) \<and>
    (\<forall>w. leaf_of st' w = leaf_of st w \<or>
      (\<exists>k < n. same_page (page_at (first_page v) k) w \<and> leaf_of st' w = page_at (first_page p) k OR flags)) \<and>
    (ok \<longrightarrow> n \<le> 2 ^ 36 \<longrightarrow>
      (\<forall>k < n. leaf_of st' (page_at (first_page v) k) = page_at (first_page p) k OR flags))"
proof -
  let ?tf = "if priv = USER then PTE_USER else 0"
  have lim: "unat (v + sz) + 4096 \<le> 2 ^ 64"
    using fits by (subst unat_add_no_wrap) simp_all
  have al: "unat (first_page p) mod 4096 = 0" by (simp add: first_page_def page_mask_nat)
  have f: "bit flags 0" "bit flags 2 \<longrightarrow> ?tf = PTE_USER"
    by (auto simp: flags_def FlagsFor_bits)
  have tf: "?tf = 0 \<or> ?tf = PTE_USER" by simp
  from Map_loop_ok [OF inv tf f lim al, of "first_page v", folded n_def] obtain ok st' where
    "Map_loop flags ?tf (v + sz) (first_page v) (first_page p) st = Some (ok, st')"
    "pt_inv st' \<and> same_regs st st' \<and> (\<not> ok \<longrightarrow> fst (Frame_Allocate (p_Frames st') 1) = 0) \<and>
    (\<forall>w. leaf_of st' w = leaf_of st w \<or>
      (\<exists>k < n. same_page (page_at (first_page v) k) w \<and> leaf_of st' w = page_at (first_page p) k OR flags)) \<and>
    (ok \<longrightarrow> n \<le> 2 ^ 36 \<longrightarrow>
      (\<forall>k < n. leaf_of st' (page_at (first_page v) k) = page_at (first_page p) k OR flags))"
    by blast
  then show ?thesis
    by (intro exI [of _ ok] exI [of _ st']) (simp add: Paging_Map_def Let_def flags_def first_page_def)
qed

lemma range_page:
  assumes "unat v \<le> unat w" "unat w < unat v + unat sz" "unat v + unat sz + 4096 \<le> 2 ^ 64"
  defines "k \<equiv> unat w div 4096 - unat v div 4096"
  shows "k < page_count (first_page v) (v + sz)" "same_page (page_at (first_page v) k) w"
    "4096 * k + unat v div 4096 * 4096 = unat w div 4096 * 4096"
proof -
  have s: "unat (v + sz) = unat v + unat sz" using assms(3) by (intro unat_add_no_wrap) simp
  have le: "unat v div 4096 \<le> unat w div 4096" using assms(1) by (rule div_le_mono)
  then show e: "4096 * k + unat v div 4096 * 4096 = unat w div 4096 * 4096"
    by (simp add: k_def algebra_simps)
  have "unat w div 4096 * 4096 \<le> unat w" by simp
  then have "4096 * k < unat v + unat sz - unat v div 4096 * 4096" using e assms(2) by linarith
  then show "k < page_count (first_page v) (v + sz)"
    by (simp add: page_count_def s first_page_def page_mask_nat less_ceil_iff)
  have "unat (page_at (first_page v) k) = unat w div 4096 * 4096"
    using e unat64_bound [of w] \<open>unat w div 4096 * 4096 \<le> unat w\<close>
    by (subst page_at_nat) (simp_all add: first_page_def page_mask_nat)
  then show "same_page (page_at (first_page v) k) w" by (intro same_page_offset) simp
qed

lemma leaf_effective:
  assumes "pt_inv st" "addr a" "leaf_of st w = a OR FlagsFor st0 acc priv cach"
    "s_NoExecuteAvailable st0 = s_NoExecuteAvailable st"
  shows "Effective st w AND ADDRESS_MASK = a" "Effective st w \<noteq> 0"
    "IsWritable st w \<longleftrightarrow> acc = READ_WRITE"
    "IsExecutable st w \<longleftrightarrow> acc = READ_EXECUTE \<or> \<not> s_NoExecuteAvailable st"
    "IsUserReadable st w \<longleftrightarrow> priv = USER"
    "IsUserWritable st w \<longleftrightarrow> priv = USER \<and> acc = READ_WRITE"
proof -
  have ab: "bit a n \<Longrightarrow> 12 \<le> n \<and> n < 52" for n using assms(2) by (simp add: addr_iff)
  have e: "bit (Effective st w) n \<longleftrightarrow> bit a n \<or> n = 0 \<or> (n = 1 \<and> acc = READ_WRITE) \<or>
      (n = 63 \<and> acc \<noteq> READ_EXECUTE \<and> s_NoExecuteAvailable st) \<or> (n = 2 \<and> priv = USER)" for n
    unfolding Effective_leaf [OF assms(1)] assms(3)
    using ab [of n] assms(4) by (auto simp: pte_bits FlagsFor_bits)
  show "Effective st w AND ADDRESS_MASK = a"
  proof (rule bit_word_eqI)
    fix n show "bit (Effective st w AND ADDRESS_MASK) n = bit a n" using ab [of n] by (auto simp: e pte_bits)
  qed
  have "bit (Effective st w) 0" by (simp add: e)
  then show nz: "Effective st w \<noteq> 0" by auto
  show "IsWritable st w \<longleftrightarrow> acc = READ_WRITE" using ab [of 1] by (auto simp: IsWritable_def pte_test e)
  show "IsExecutable st w \<longleftrightarrow> acc = READ_EXECUTE \<or> \<not> s_NoExecuteAvailable st"
    using ab [of 63] nz by (auto simp: IsExecutable_def pte_test e Let_def)
  show "IsUserReadable st w \<longleftrightarrow> priv = USER" using ab [of 2] by (auto simp: IsUserReadable_def pte_test e)
  have "IsUserWritable st w \<longleftrightarrow> bit (Effective st w) 1 \<and> bit (Effective st w) 2"
  proof
    assume "IsUserWritable st w"
    then have "bit (Effective st w AND (PTE_USER OR PTE_WRITABLE)) n = bit (PTE_USER OR PTE_WRITABLE) n" for n
      by (simp add: IsUserWritable_def)
    from this [of 1] this [of 2] show "bit (Effective st w) 1 \<and> bit (Effective st w) 2" by (simp add: pte_bits)
  next
    assume "bit (Effective st w) 1 \<and> bit (Effective st w) 2"
    then show "IsUserWritable st w"
      unfolding IsUserWritable_def by (intro bit_word_eqI) (auto simp: pte_bits)
  qed
  then show "IsUserWritable st w \<longleftrightarrow> priv = USER \<and> acc = READ_WRITE" using ab [of 1] ab [of 2] by (auto simp: e)
qed

lemma first_page_same:
  assumes "unat p mod 4096 = unat v mod 4096" "unat v \<le> unat w" "unat p + (unat w - unat v) < 2 ^ 52"
  defines "k \<equiv> unat w div 4096 - unat v div 4096"
  shows "addr (page_at (first_page p) k)"
    "(page_at (first_page p) k) OR (w AND (PAGE_SIZE - 1)) = p + (w - v)"
proof -
  have wv: "4096 * k + unat v div 4096 * 4096 = unat w div 4096 * 4096"
    using div_le_mono [OF assms(2), of 4096] by (simp add: k_def algebra_simps)
  have sum: "unat p div 4096 * 4096 + 4096 * k + unat w mod 4096 = unat p + (unat w - unat v)"
    using wv assms(1,2) div_mult_mod_eq [of "unat p" 4096] div_mult_mod_eq [of "unat v" 4096]
      div_mult_mod_eq [of "unat w" 4096] by linarith
  have pg: "unat (page_at (first_page p) k) = unat p div 4096 * 4096 + 4096 * k"
    using sum assms(3) by (subst page_at_nat) (simp_all add: first_page_def page_mask_nat)
  show a: "addr (page_at (first_page p) k)"
    using pg sum assms(3) by (intro addrI) simp_all
  have "unat (w AND (PAGE_SIZE - 1)) < 4096" unfolding offset_mask_nat by simp
  then have off: "bit (w AND (PAGE_SIZE - 1)) n \<Longrightarrow> n < 12" for n
  proof -
    have "(PAGE_SIZE - 1 :: u64) = mask 12" by (simp add: config_defs mask_eq_exp_minus_1)
    then show "bit (w AND (PAGE_SIZE - 1)) n \<Longrightarrow> n < 12" by (auto simp: bit_and_iff bit_mask_iff)
  qed
  have "page_at (first_page p) k AND (w AND (PAGE_SIZE - 1)) = 0"
    using a off by (intro bit_word_eqI) (force simp: addr_iff bit_and_iff)
  then have "page_at (first_page p) k OR (w AND (PAGE_SIZE - 1)) = page_at (first_page p) k + (w AND (PAGE_SIZE - 1))"
    by (simp add: disjunctive_add_eq_or)
  also have "\<dots> = p + (w - v)"
  proof -
    have "unat (w - v) = unat w - unat v" using assms(2) by (intro unat_sub_le) (simp add: word_nat)
    then show ?thesis
      using sum assms(3) pg by (simp add: word_unat_eq_iff unat_add_no_wrap offset_mask_nat)
  qed
  finally show "(page_at (first_page p) k) OR (w AND (PAGE_SIZE - 1)) = p + (w - v)" .
qed

section \<open>A fresh root\<close>

lemma pt_inv_root:
  assumes fr: "frame_inv (p_Frames st)" "unat (s_FrameCount (p_Frames st)) \<le> 2 ^ 40"
    and al: "AllocateTable st = (c, st1)" "c \<noteq> 0"
  shows "pt_inv (st1\<lparr>s_Root := c\<rparr>)" "leaf_of (st1\<lparr>s_Root := c\<rparr>) w = 0"
    "s_NoExecuteAvailable st1 = s_NoExecuteAvailable st" "s_MappedRamEnd st1 = s_MappedRamEnd st"
    "reg_EFER st1 = reg_EFER st" "s_FrameCount (p_Frames st1) = s_FrameCount (p_Frames st)"
proof -
  obtain fs where fs: "Frame_Allocate (p_Frames st) 1 = (c, fs)"
      "st1 = st\<lparr>p_Frames := fs, p_Tables := (p_Tables st)(c := (\<lambda>_. 0)), s_TableCount := s_TableCount st + 1\<rparr>"
    using al by (auto simp: AllocateTable_def split: prod.split_asm if_split_asm)
  note A = frame_alloc.alloc_some [OF fr(1) fs(1) al(2)]
  have blk: "block c 1 = {unat c div 4096}" by (auto simp: block_def)
  have "unat c div 4096 < 2 ^ 40" using A fr(2) by (auto simp: block_ok_def)
  then have "unat c < 2 ^ 52" by (simp add: div_less_iff_less_mult)
  then have ad: "addr c" using A by (intro addrI) (simp_all add: block_ok_def)
  let ?s = "st1\<lparr>s_Root := c\<rparr>"
  have tat: "tat ?s q = (if q = [] then Some c else None)" for q
    by (induction q) (simp_all add: fs(2))
  have "unat c div 4096 \<notin> free_set fs" using A blk by blast
  then have nf: "unat c div 4096 \<notin> free_set (p_Frames ?s)" by (simp add: fs(2))
  have "pt_tree ?s" unfolding pt_tree_def tat using al(2) ad nf by (simp split: if_split)
  moreover have "pt_upper ?s" "pt_user ?s"
    unfolding pt_upper_def pt_user_def tat by (simp_all add: fs(2))
  ultimately show "pt_inv ?s" using A fr(2) by (simp add: pt_inv_def fs(2) word_unat_eq_iff)
  show "leaf_of ?s w = 0" by (simp add: leaf_of_def leaf_at_def tat path_of_def del: tat.simps)
  show "s_NoExecuteAvailable st1 = s_NoExecuteAvailable st" "s_MappedRamEnd st1 = s_MappedRamEnd st"
    "reg_EFER st1 = reg_EFER st" "s_FrameCount (p_Frames st1) = s_FrameCount (p_Frames st)"
    using A by (simp_all add: fs(2) word_unat_eq_iff)
qed

definition example_paging0 :: paging where
  "example_paging0 = \<lparr>p_Tables = \<lambda>_ _. 0, p_Frames = example_frames, s_Root = 0, s_NoExecuteAvailable = True,
     s_TableCount = 0, s_MappedRamEnd = 0, KernelPageTableRoot = 0, reg_CR0 = 0, reg_CR3 = 0, reg_EFER = 0\<rparr>"

definition example_paging :: paging where
  "example_paging = (snd (AllocateTable example_paging0))\<lparr>s_Root := 0x2000\<rparr>"

lemma example_pt: "pt_inv example_paging"
proof -
  have "fst (AllocateTable example_paging0) = 0x2000" by code_simp
  then have "AllocateTable example_paging0 = (0x2000, snd (AllocateTable example_paging0))" by (metis prod.collapse)
  from pt_inv_root(1) [OF _ _ this] show ?thesis
    using example_inv by (simp add: example_paging_def example_paging0_def) (simp add: example_frames_def)
qed

section \<open>Properties of Map\<close>

lemma Paging_Map_maps:
  assumes "pt_inv st" "unat v + unat sz + 4096 \<le> 2 ^ 64" "unat sz \<le> 2 ^ 47"
    and "unat p mod 4096 = unat v mod 4096" "unat p + unat sz \<le> 2 ^ 52"
    and "Paging_Map v p sz acc priv cach st = Ok (True, st')"
    and "unat v \<le> unat w" "unat w < unat v + unat sz"
  shows "Translate st' w = p + (w - v) \<and> (IsWritable st' w \<longleftrightarrow> acc = READ_WRITE) \<and>
    (IsExecutable st' w \<longleftrightarrow> acc = READ_EXECUTE \<or> \<not> s_NoExecuteAvailable st) \<and>
    (IsUserReadable st' w \<longleftrightarrow> priv = USER) \<and> (IsUserWritable st' w \<longleftrightarrow> priv = USER \<and> acc = READ_WRITE)"
proof -
  let ?n = "page_count (first_page v) (v + sz)"
  define k where "k = unat w div 4096 - unat v div 4096"
  have "unat (v + sz) = unat v + unat sz" using assms(2) by (intro unat_add_no_wrap) simp
  moreover have "unat v - unat v div 4096 * 4096 \<le> 4095"
    using div_mult_mod_eq [of "unat v" 4096] mod_less_divisor [of 4096 "unat v"] by linarith
  ultimately have "?n \<le> 2 ^ 36"
    using assms(3) unfolding page_count_def first_page_def page_mask_nat ceil_div_le by simp
  then have M: "pt_inv st'" "same_regs st st'"
      "\<forall>k < ?n. leaf_of st' (page_at (first_page v) k) = page_at (first_page p) k OR FlagsFor st acc priv cach"
    using Paging_Map_ok [OF assms(1,2), of p acc priv cach] assms(6) by auto
  note R = range_page [OF assms(7,8,2), folded k_def]
  have leaf: "leaf_of st' w = page_at (first_page p) k OR FlagsFor st acc priv cach"
    using M(3) R(1) leaf_of_same_page [OF R(2)] by metis
  have "unat p + (unat w - unat v) < 2 ^ 52" using assms(5,7,8) by linarith
  note F = first_page_same [OF assms(4,7) this, folded k_def]
  have nx: "s_NoExecuteAvailable st = s_NoExecuteAvailable st'" using M(2) by (simp add: same_regs_def)
  note E = leaf_effective [OF M(1) F(1) leaf nx]
  show ?thesis using E(1-6) F(2) nx by (simp add: Translate_def Let_def)
qed

text \<open>
  C2: After a successful \<open>Map\<close>, every address of the range translates to the corresponding physical
  address, and is writable, executable and reachable from ring 3 exactly as the call asked for. The
  call must be one the tables can express: the two addresses have the same offset in their page, the
  range is at most \<open>2 ^ 47\<close> bytes and ends a page before the end of the address space, and the physical
  range lies below \<open>2 ^ 52\<close>.
\<close>

theorem Map_translates:
  assumes "pt_inv st" "unat v + unat sz + 4096 \<le> 2 ^ 64" "unat sz \<le> 2 ^ 47"
    and "unat p mod 4096 = unat v mod 4096" "unat p + unat sz \<le> 2 ^ 52"
    and "Paging_Map v p sz acc priv cach st = Ok (True, st')"
    and "unat v \<le> unat w" "unat w < unat v + unat sz"
  shows "Translate st' w = p + (w - v) \<and> (IsWritable st' w \<longleftrightarrow> acc = READ_WRITE) \<and>
    (IsExecutable st' w \<longleftrightarrow> acc = READ_EXECUTE \<or> \<not> s_NoExecuteAvailable st) \<and>
    (IsUserReadable st' w \<longleftrightarrow> priv = USER) \<and> (IsUserWritable st' w \<longleftrightarrow> priv = USER \<and> acc = READ_WRITE)"
  by (rule Paging_Map_maps [OF assms])

lemma example_map:
  "\<exists>st'. Paging_Map 0x400010 0x7010 0x20 READ_WRITE USER NORMAL example_paging = Ok (True, st')"
proof -
  have "case Paging_Map 0x400010 0x7010 0x20 READ_WRITE USER NORMAL example_paging of
      Inl e \<Rightarrow> False | Inr (ok, st') \<Rightarrow> ok"
    by code_simp
  then show ?thesis by (auto split: sum.split_asm)
qed

theorem Map_translates_witness:
  "\<exists>st'. Paging_Map 0x400010 0x7010 0x20 READ_WRITE USER NORMAL example_paging = Ok (True, st') \<and>
    Translate st' 0x400018 = 0x7018 \<and> IsUserWritable st' 0x400018 \<and> \<not> IsExecutable st' 0x400018"
proof -
  obtain st' where st': "Paging_Map 0x400010 0x7010 0x20 READ_WRITE USER NORMAL example_paging = Ok (True, st')"
    using example_map by blast
  have nx: "s_NoExecuteAvailable example_paging" by code_simp
  have "Translate st' 0x400018 = 0x7010 + (0x400018 - 0x400010) \<and> IsUserWritable st' 0x400018 \<and>
      \<not> IsExecutable st' 0x400018"
    using Map_translates [OF example_pt _ _ _ _ st', of "0x400018"] nx by simp
  then show ?thesis using st' by simp
qed

lemma Paging_Map_others:
  assumes "pt_inv st" "unat v + unat sz + 4096 \<le> 2 ^ 64"
  shows "\<exists>ok st'. Paging_Map v p sz acc priv cach st = Ok (ok, st') \<and> pt_inv st' \<and> same_regs st st' \<and>
    (\<not> ok \<longrightarrow> fst (Frame_Allocate (p_Frames st') 1) = 0) \<and>
    (\<forall>w. \<not> in_range v sz w \<longrightarrow> Effective st' w = Effective st w)"
proof -
  obtain ok st' where M: "Paging_Map v p sz acc priv cach st = Ok (ok, st')" "pt_inv st'" "same_regs st st'"
      "\<not> ok \<longrightarrow> fst (Frame_Allocate (p_Frames st') 1) = 0"
      "\<forall>w. leaf_of st' w = leaf_of st w \<or> in_range v sz w"
    using Paging_Map_ok [OF assms, of p acc priv cach] unfolding in_range_def by blast
  have "\<not> in_range v sz w \<longrightarrow> Effective st' w = Effective st w" for w
    using M(5) by (metis Effective_leaf assms(1) M(2))
  then show ?thesis using M(1-4) by blast
qed

text \<open>
  C3: for a range that ends at least one page before the end of the address space, \<open>Map\<close> returns, also
  when it runs out of page table frames half way; it fails only when the
  frame allocator has no reachable frame left, keeps the page table invariant, and leaves what
  the processor grants for every page outside the range exactly as it was. In particular mapping a
  user page never opens a kernel page that shares tables with it. The condition on the range is needed:
  where it reaches into the last page, the page counter of the loop wraps around to zero below the end
  address, and pages far outside the range are mapped.
\<close>

theorem Map_total_and_frames_others:
  assumes "pt_inv st" "unat v + unat sz + 4096 \<le> 2 ^ 64"
  shows "\<exists>ok st'. Paging_Map v p sz acc priv cach st = Ok (ok, st') \<and> pt_inv st' \<and>
    (\<not> ok \<longrightarrow> fst (Frame_Allocate (p_Frames st') 1) = 0) \<and>
    (\<forall>w. \<not> in_range v sz w \<longrightarrow> Effective st' w = Effective st w)"
  using Paging_Map_others [OF assms] by blast

theorem Map_total_and_frames_others_witness:
  "\<exists>ok st'. Paging_Map 0x400000 0x7000 0x100000 READ_WRITE USER NORMAL example_paging = Ok (ok, st') \<and> pt_inv st'"
proof -
  have "\<exists>ok st'. Paging_Map 0x400000 0x7000 0x100000 READ_WRITE USER NORMAL example_paging = Ok (ok, st') \<and>
    pt_inv st' \<and> (\<not> ok \<longrightarrow> fst (Frame_Allocate (p_Frames st') 1) = 0) \<and>
    (\<forall>w. \<not> in_range 0x400000 0x100000 w \<longrightarrow> Effective st' w = Effective example_paging w)"
    by (rule Map_total_and_frames_others [OF example_pt]) simp
  then show ?thesis by blast
qed

end
