(* ===== verification/HK_PagingProgress.thy ===== *)
theory HK_PagingProgress
  imports HK_PagingSafety
begin

text \<open>
  Progress of \<open>Paging::Map\<close>: a page costs at most three page table frames, so a mapping succeeds
  whenever enough free frames lie below the reachable limit.
\<close>

definition reach :: "frames \<Rightarrow> nat" where
  "reach fs = card (free_set fs \<inter> {..<unat (s_ReachableFrames fs)})"

lemma reach_Allocate:
  assumes inv: "frame_inv fs" and al: "Frame_Allocate fs n = (a, fs')"
  shows "frame_inv fs'" "reach fs \<le> unat n + reach fs'"
proof -
  have "frame_inv fs' \<and> reach fs \<le> unat n + reach fs'"
  proof (cases "n = 0 \<or> ChosenRun fs n = NOT_FOUND")
    case True
    then show ?thesis using al inv by (auto simp: Allocate_eq)
  next
    case False
    then have "0 < n" "ChosenRun fs n \<noteq> NOT_FOUND" by (auto simp: word_gt_0)
    note S = Allocate_success [OF inv this, unfolded al, simplified]
    let ?R = "{..<unat (s_ReachableFrames fs)}"
    have "free_set fs \<inter> ?R - block a n = free_set fs' \<inter> {..<unat (s_ReachableFrames fs')}"
      using S(6,9) by auto
    then have "card (free_set fs \<inter> ?R) - card (block a n) \<le> reach fs'"
      using diff_card_le_card_Diff [of "block a n" "free_set fs \<inter> ?R"] by (simp add: reach_def block_def)
    then show ?thesis using S(7) by (simp add: reach_def block_def)
  qed
  then show "frame_inv fs'" "reach fs \<le> unat n + reach fs'" by auto
qed

lemma reach_empty:
  assumes "frame_inv fs" "fst (Frame_Allocate fs 1) = 0"
  shows "reach fs = 0"
proof -
  have none: "\<not> run_free fs k 1" for k using Allocate_zero(1) [OF assms(1), of 1] assms(2) by simp
  have "free_set fs \<inter> {..<unat (s_ReachableFrames fs)} = {}"
  proof (intro equals0I)
    fix k
    assume "k \<in> free_set fs \<inter> {..<unat (s_ReachableFrames fs)}"
    then have "run_free fs k 1" by (auto simp: run_free_def free_set_def le_Suc_eq less_Suc_eq_le)
    then show False using none by blast
  qed
  then show ?thesis by (simp add: reach_def)
qed

definition spends :: "nat \<Rightarrow> paging \<Rightarrow> paging \<Rightarrow> bool" where
  "spends k st st' \<longleftrightarrow> frame_inv (p_Frames st') \<and> reach (p_Frames st) \<le> k + reach (p_Frames st')"

lemma Descend_step_spends:
  assumes "frame_inv (p_Frames st)" "Descend_step tf t i st = (r, st')"
  shows "spends 1 st st'"
proof (cases "p_Tables st t i AND PTE_PRESENT = 0")
  case True
  obtain a fs where al: "Frame_Allocate (p_Frames st) 1 = (a, fs)" by (cases "Frame_Allocate (p_Frames st) 1")
  then have "p_Frames st' = fs"
    using True assms(2) by (auto simp: Descend_step_def AllocateTable_def Let_def write_entry_def split: if_split_asm)
  then show ?thesis using reach_Allocate [OF assms(1) al] by (simp add: spends_def)
next
  case False
  then have "p_Frames st' = p_Frames st" using assms(2) by (auto simp: Descend_step_def Let_def write_entry_def)
  then show ?thesis using assms(1) by (simp add: spends_def)
qed

lemma spends_trans: "spends k a b \<Longrightarrow> spends l b c \<Longrightarrow> spends (k + l) a c"
  by (auto simp: spends_def)

lemma spends_mono: "spends k a b \<Longrightarrow> k \<le> l \<Longrightarrow> spends l a b"
  by (auto simp: spends_def)

lemma Descend_loop_spends:
  assumes "frame_inv (p_Frames st)" "Descend_loop v l tf level t st = (r, st')"
  shows "spends (level - l) st st'"
  using assms
proof (induction level arbitrary: t st)
  case 0
  then show ?case by (subst (asm) Descend_loop.simps) (auto simp: spends_def)
next
  case (Suc level)
  show ?case
  proof (cases "l < Suc level")
    case True
    obtain r1 st1 where st1: "Descend_step tf t (IndexAt v (Suc level)) st = (r1, st1)"
      by (cases "Descend_step tf t (IndexAt v (Suc level)) st")
    note S = Descend_step_spends [OF Suc.prems(1) st1]
    show ?thesis
    proof (cases r1)
      case None
      then have "st' = st1" using Suc.prems(2) True st1 by (subst (asm) Descend_loop.simps) simp
      then show ?thesis using spends_mono [OF S] True by simp
    next
      case (Some t1)
      then have L: "Descend_loop v l tf level t1 st1 = (r, st')"
        using Suc.prems(2) True st1 by (subst (asm) Descend_loop.simps) simp
      have "frame_inv (p_Frames st1)" using S by (simp add: spends_def)
      then have "spends (level - l) st1 st'" using L by (rule Suc.IH)
      from spends_trans [OF S this] show ?thesis using True by (simp add: Suc_diff_le)
    qed
  qed (use Suc.prems in \<open>subst (asm) Descend_loop.simps, auto simp: spends_def\<close>)
qed

lemma Map_loop_spends:
  assumes "Map_loop flags tf lim page source st = Some (ok, st')" "frame_inv (p_Frames st)"
    and "unat lim + 4096 \<le> 2 ^ 64"
  shows "spends (3 * page_count page lim) st st'"
  using assms(1,2)
proof (induction "unat lim - unat page" arbitrary: page source st rule: less_induct)
  case less
  show ?case
  proof (cases "page < lim")
    case False
    then show ?thesis using less.prems by (subst (asm) Map_loop.simps) (simp add: spends_def)
  next
    case True
    obtain r st1 where D: "Descend page LEAF_LEVEL tf st = (r, st1)" by (cases "Descend page LEAF_LEVEL tf st")
    have S: "spends 3 st st1"
      using Descend_loop_spends [OF less.prems(2) D [unfolded Descend_def]] by (simp add: TOP_LEVEL_def LEAF_LEVEL_def)
    have lt: "unat page < unat lim" using True by (simp add: word_nat)
    have nx: "unat (page + PAGE_SIZE) = unat page + 4096"
      using lt assms(3) by (subst unat_add_no_wrap) (simp_all add: config_defs)
    have n: "page_count page lim = Suc (page_count (page + PAGE_SIZE) lim)"
      unfolding page_count_def nx using ceil_step [of "unat lim - unat page"] lt by simp
    show ?thesis
    proof (cases r)
      case None
      then have "st' = st1" using less.prems(1) True D by (subst (asm) Map_loop.simps) simp
      then show ?thesis using spends_mono [OF S] n by simp
    next
      case (Some t)
      let ?st2 = "write_entry t (IndexAt page LEAF_LEVEL) (source OR flags) st1"
      have "Map_loop flags tf lim (page + PAGE_SIZE) (source + PAGE_SIZE) ?st2 = Some (ok, st')"
        using less.prems(1) True D Some by (subst (asm) Map_loop.simps) simp
      moreover have "p_Frames ?st2 = p_Frames st1" by (simp add: write_entry_def)
      moreover have "unat lim - unat (page + PAGE_SIZE) < unat lim - unat page" using lt nx by simp
      ultimately have "spends (3 * page_count (page + PAGE_SIZE) lim) st1 st'"
        using less.hyps S by (fastforce simp: spends_def)
      from spends_trans [OF S this] show ?thesis using n by simp
    qed
  qed
qed

lemma Paging_Map_spends:
  assumes "pt_inv st" "unat v + unat sz + 4096 \<le> 2 ^ 64" "Paging_Map v p sz acc priv cach st = Ok (ok, st')"
  shows "spends (3 * page_count (first_page v) (v + sz)) st st'"
proof -
  have lim: "unat (v + sz) + 4096 \<le> 2 ^ 64" using assms(2) by (subst unat_add_no_wrap) simp_all
  obtain fl tf where "Map_loop fl tf (v + sz) (first_page v) (first_page p) st = Some (ok, st')"
    using assms(3) by (auto simp: Paging_Map_def Let_def first_page_def returned_def split: option.split_asm)
  from Map_loop_spends [OF this _ lim] show ?thesis using assms(1) by (simp add: pt_inv_def)
qed

lemma Paging_Map_succeeds:
  assumes inv: "pt_inv st" and fits: "unat v + unat sz + 4096 \<le> 2 ^ 64"
    and room: "3 * page_count (first_page v) (v + sz) < reach (p_Frames st)"
  shows "\<exists>st'. Paging_Map v p sz acc priv cach st = Ok (True, st')"
proof -
  obtain ok st' where M: "Paging_Map v p sz acc priv cach st = Ok (ok, st')" "pt_inv st'"
      "\<not> ok \<longrightarrow> fst (Frame_Allocate (p_Frames st') 1) = 0"
    using Paging_Map_others [OF inv fits, of p acc priv cach] by blast
  have "spends (3 * page_count (first_page v) (v + sz)) st st'" by (rule Paging_Map_spends [OF inv fits M(1)])
  then have "0 < reach (p_Frames st')" using room by (simp add: spends_def)
  then have "ok" using M(2,3) reach_empty [of "p_Frames st'"] by (auto simp: pt_inv_def)
  then show ?thesis using M(1) by simp
qed

section \<open>A machine of 32 frames\<close>

text \<open>The first two frames are taken, the third holds an empty top-level table.\<close>

definition wide_frames :: frames where
  "wide_frames = \<lparr>s_Taken = [3], s_WordCount = 1, s_FrameCount = 32, s_ReachableFrames = 32,
     s_TotalFrames = 30, s_FreeFrames = 30, s_NextIndex = 0\<rparr>"

definition wide_paging :: paging where
  "wide_paging = (snd (AllocateTable (example_paging0\<lparr>p_Frames := wide_frames\<rparr>)))\<lparr>s_Root := 0x2000\<rparr>"

lemma wide_free: "free_set wide_frames = {2..<32}"
proof -
  have b: "k < 32 \<Longrightarrow> bit (3 :: u64) k \<longleftrightarrow> k < 2" for k :: nat
    by (auto simp: numeral_eq_Suc less_Suc_eq)
  have "taken wide_frames k \<longleftrightarrow> k < 2" if "k < 32" for k
    using that b [OF that] by (simp add: taken_def wide_frames_def)
  then show ?thesis by (fastforce simp: free_set_def wide_frames_def [THEN arg_cong [of _ _ s_FrameCount]])
qed

lemma wide_inv: "frame_inv wide_frames"
  using wide_free by (simp add: frame_inv_def shape_def counted_def) (simp add: wide_frames_def)

lemma wide_paging_ok:
  "pt_inv wide_paging" "Effective wide_paging w = 0" "29 \<le> reach (p_Frames wide_paging)"
proof -
  let ?s = "example_paging0\<lparr>p_Frames := wide_frames\<rparr>"
  have "fst (AllocateTable ?s) = 0x2000" by code_simp
  then have al: "AllocateTable ?s = (0x2000, snd (AllocateTable ?s))" by (metis prod.collapse)
  have fr: "frame_inv (p_Frames ?s)" "unat (s_FrameCount (p_Frames ?s)) \<le> 2 ^ 40"
    using wide_inv by (simp_all add: wide_frames_def)
  note R = pt_inv_root [OF fr al]
  show p: "pt_inv wide_paging" using R(1) by (simp add: wide_paging_def)
  show "Effective wide_paging w = 0"
    using R(2) [of w] by (subst Effective_leaf [OF p]) (simp add: wide_paging_def)
  obtain a fs where fs: "Frame_Allocate wide_frames 1 = (a, fs)" by (cases "Frame_Allocate wide_frames 1")
  then have "p_Frames wide_paging = fs" by (simp add: wide_paging_def AllocateTable_def)
  moreover have "free_set wide_frames \<inter> {..<unat (s_ReachableFrames wide_frames)} = {2..<32}"
    unfolding wide_free by (auto simp: wide_frames_def)
  then have "reach wide_frames = 30" by (simp add: reach_def)
  ultimately show "29 \<le> reach (p_Frames wide_paging)" using reach_Allocate(2) [OF wide_inv fs] by simp
qed

text \<open>
  C4: \<open>Map\<close> makes progress: whenever more than three free frames per page of the range lie below the
  reachable limit, it returns true, and every address of the range then translates to the corresponding
  physical address with the access asked for. The range must be one the tables can express: it ends at
  least one page before the end of the address space, is at most \<open>2 ^ 47\<close> bytes long, the two addresses
  have the same offset in their page, and the physical range lies below \<open>2 ^ 52\<close>.
\<close>

theorem Map_succeeds:
  assumes "pt_inv st" "unat v + unat sz + 4096 \<le> 2 ^ 64" "unat sz \<le> 2 ^ 47"
    and "unat p mod 4096 = unat v mod 4096" "unat p + unat sz \<le> 2 ^ 52"
    and "3 * page_count (first_page v) (v + sz) < reach (p_Frames st)"
  shows "\<exists>st'. Paging_Map v p sz acc priv cach st = Ok (True, st') \<and>
    (\<forall>w. unat v \<le> unat w \<and> unat w < unat v + unat sz \<longrightarrow> Translate st' w = p + (w - v) \<and>
       (IsWritable st' w \<longleftrightarrow> acc = READ_WRITE) \<and> (IsUserReadable st' w \<longleftrightarrow> priv = USER) \<and>
       (IsExecutable st' w \<longleftrightarrow> acc = READ_EXECUTE \<or> \<not> s_NoExecuteAvailable st))"
proof -
  obtain st' where st': "Paging_Map v p sz acc priv cach st = Ok (True, st')"
    using Paging_Map_succeeds [OF assms(1,2,6)] by blast
  then show ?thesis using Paging_Map_maps [OF assms(1-5) st'] by blast
qed

theorem Map_succeeds_witness:
  "\<exists>st'. Paging_Map 0x400000 0x7000 0x9000 READ_WRITE USER NORMAL wide_paging = Ok (True, st') \<and>
     Translate st' 0x408123 = 0xF123"
proof -
  have "3 * page_count (first_page 0x400000) (0x400000 + 0x9000) < reach (p_Frames wide_paging)"
    using wide_paging_ok(3) by (simp add: page_count_def first_page_def page_mask_nat)
  then obtain st' where "Paging_Map 0x400000 0x7000 0x9000 READ_WRITE USER NORMAL wide_paging = Ok (True, st')"
      and t: "\<forall>w. unat (0x400000 :: u64) \<le> unat w \<and> unat w < unat (0x400000 :: u64) + unat (0x9000 :: u64) \<longrightarrow>
        Translate st' w = 0x7000 + (w - 0x400000)"
    using Map_succeeds [OF wide_paging_ok(1), of "0x400000" "0x9000" "0x7000" READ_WRITE USER NORMAL] by auto
  then show ?thesis using t [rule_format, of "0x408123"] by auto
qed

end
