(* ===== verification/HK_PagingInit.thy ===== *)
theory HK_PagingInit
  imports HK_PagingProgress
begin

text \<open>
  What \<open>Paging::Initialize\<close> builds. It is a sequence of calls of \<open>Map\<close>; the last call that covers an
  address decides what the address translates to and how it may be used, and every call costs at most
  three frames a page. From the list of calls follow the layout of the kernel's address space, that
  nothing in it is writable and executable or reachable from ring 3, and how many frames are enough.
\<close>

section \<open>The kernel's address space\<close>










section \<open>The calls of Map\<close>






















section \<open>The steps of Initialize\<close>
























section \<open>The layout that results\<close>






























section \<open>The root table\<close>


section \<open>Properties of Initialize\<close>















end
