(* ===== verification/HK_KernelStack.thy ===== *)
theory HK_KernelStack
  imports HK_PagingInit
begin





section \<open>The stack region\<close>















section \<open>Any number of stacks\<close>










end
