(* ===== verification/HK_Heap.thy ===== *)
theory HK_Heap
  imports HK_String HK_Frame HK_Paging
begin

text \<open>
  \<open>Kernel/Memory/Heap.cpp\<close>: the buddy allocator behind \<open>malloc\<close>. Block headers live in the same
  byte memory as the payloads, at the layout of \<open>struct BlockHeader\<close>, so what a client writes and
  what the allocator reads back is the same memory. An operation runs under the heap's spin lock
  with interrupts off, and is one step here.
\<close>

section \<open>Block headers in memory\<close>

definition MIN_ORDER :: u8 where [config_defs]: "MIN_ORDER = 5"
definition MAX_ORDER :: u8 where [config_defs]: "MAX_ORDER = of_nat HEAP_LOG2"
definition ORDER_COUNT :: nat where [config_defs]: "ORDER_COUNT = unat MAX_ORDER - unat MIN_ORDER + 1"
definition HEAP_SIZE :: u64 where [config_defs]: "HEAP_SIZE = push_bit (unat MAX_ORDER) 1"
definition BLOCK_MAGIC :: u32 where [config_defs]: "BLOCK_MAGIC = 0x484B424C"
definition SIZEOF_BlockHeader :: u64 where [config_defs]: "SIZEOF_BlockHeader = 16"

record BlockHeader =
  Magic :: u32
  Order :: u8
  IsFree :: u8
  Padding :: u16
  NextFree :: u64

definition ReadHeader :: "memory \<Rightarrow> u64 \<Rightarrow> BlockHeader" where
  "ReadHeader m a = \<lparr>Magic = peek32 m a, Order = m (a + 4), IsFree = m (a + 5),
     Padding = peek16 m (a + 6), NextFree = peek64 m (a + 8)\<rparr>"

definition header_byte :: "BlockHeader \<Rightarrow> nat \<Rightarrow> u8" where
  "header_byte h i =
    (if i < 4 then ucast (drop_bit (8 * i) (Magic h)) else if i = 4 then Order h else if i = 5 then IsFree h
     else if i < 8 then ucast (drop_bit (8 * (i - 6)) (Padding h))
     else ucast (drop_bit (8 * (i - 8)) (NextFree h)))"

definition WriteHeader :: "u64 \<Rightarrow> BlockHeader \<Rightarrow> memory \<Rightarrow> memory" where
  "WriteHeader a h m = (\<lambda>x. if x - a < SIZEOF_BlockHeader then header_byte h (unat (x - a)) else m x)"

record heap =
  h_Memory :: memory
  h_Frames :: frames
  s_Region :: u64
  s_FreeLists :: "u64 list"
  s_UsedBytes :: u64
  s_Initialized :: bool

abbreviation header :: "heap \<Rightarrow> u64 \<Rightarrow> BlockHeader" where
  "header st a \<equiv> ReadHeader (h_Memory st) a"

definition SetHeader :: "u64 \<Rightarrow> (BlockHeader \<Rightarrow> BlockHeader) \<Rightarrow> heap \<Rightarrow> heap" where
  "SetHeader a f st = st\<lparr>h_Memory := WriteHeader a (f (header st a)) (h_Memory st)\<rparr>"

section \<open>The allocator\<close>

definition IndexOf :: "u8 \<Rightarrow> nat" where
  "IndexOf InOrder = unat InOrder - unat MIN_ORDER"

definition BlockAt :: "heap \<Rightarrow> u64 \<Rightarrow> u64" where
  "BlockAt st InOffset = s_Region st + InOffset"

definition OffsetOf :: "heap \<Rightarrow> u64 \<Rightarrow> u64" where
  "OffsetOf st InBlock = InBlock - s_Region st"

lemma unat_order_Suc: "unat order \<le> 24 \<Longrightarrow> unat (order + 1) = Suc (unat order)" for order :: u8
  by (simp add: unat_word_ariths)

lemma unat_order_pred: "0 < unat order \<Longrightarrow> unat (order - 1) = unat order - 1" for order :: u8
  by (subst unat_sub_le) (simp_all add: word_le_nat_alt)

lemma MAX_ORDER_nat [simp]: "unat MAX_ORDER = 24" "unat MIN_ORDER = 5"
  by (simp_all add: config_defs)

function OrderFor_loop :: "u64 \<Rightarrow> u8 \<Rightarrow> u8" where
  "OrderFor_loop InBytes order =
    (if push_bit (unat order) 1 < InBytes \<and> order < MAX_ORDER then OrderFor_loop InBytes (order + 1) else order)"
  by pat_completeness auto
termination
  by (relation "measure (\<lambda>(n, order). unat MAX_ORDER - unat order)")
    (auto simp: word_less_nat_alt unat_order_Suc)

declare OrderFor_loop.simps [simp del]

definition OrderFor :: "u64 \<Rightarrow> u8" where
  "OrderFor InBytes = OrderFor_loop InBytes MIN_ORDER"

definition PushFree :: "u64 \<Rightarrow> u8 \<Rightarrow> heap \<Rightarrow> heap" where
  "PushFree InBlock InOrder st =
    (let st1 = SetHeader InBlock (\<lambda>h. h\<lparr>Magic := BLOCK_MAGIC, Order := InOrder, IsFree := 1,
           NextFree := s_FreeLists st ! IndexOf InOrder\<rparr>) st
     in st1\<lparr>s_FreeLists := (s_FreeLists st1)[IndexOf InOrder := InBlock]\<rparr>)"

text \<open>
  \<open>RemoveFree\<close> walks with a pointer to a link: \<open>None\<close> is the head of the list, \<open>Some b\<close> the
  \<open>NextFree\<close> field of the block \<open>b\<close>.
\<close>

definition read_link :: "heap \<Rightarrow> nat \<Rightarrow> u64 option \<Rightarrow> u64" where
  "read_link st i link = (case link of None \<Rightarrow> s_FreeLists st ! i | Some b \<Rightarrow> NextFree (header st b))"

definition write_link :: "nat \<Rightarrow> u64 option \<Rightarrow> u64 \<Rightarrow> heap \<Rightarrow> heap" where
  "write_link i link v st =
    (case link of None \<Rightarrow> st\<lparr>s_FreeLists := (s_FreeLists st)[i := v]\<rparr>
     | Some b \<Rightarrow> SetHeader b (\<lambda>h. h\<lparr>NextFree := v\<rparr>) st)"

partial_function (option) RemoveFree_loop :: "u64 \<Rightarrow> nat \<Rightarrow> u64 option \<Rightarrow> heap \<Rightarrow> (bool \<times> heap) option" where
  "RemoveFree_loop InBlock i link st =
    (if read_link st i link \<noteq> 0 then
       if read_link st i link = InBlock then
         Some (True, SetHeader InBlock (\<lambda>h. h\<lparr>NextFree := 0, IsFree := 0\<rparr>)
                       (write_link i link (NextFree (header st InBlock)) st))
       else RemoveFree_loop InBlock i (Some (read_link st i link)) st
     else Some (False, st))"

declare RemoveFree_loop.simps [code]

definition RemoveFree :: "u64 \<Rightarrow> u8 \<Rightarrow> heap \<Rightarrow> (bool \<times> heap) option" where
  "RemoveFree InBlock InOrder st = RemoveFree_loop InBlock (IndexOf InOrder) None st"

definition Heap_Initialize :: "heap \<Rightarrow> heap result" where
  "Heap_Initialize st =
    (if s_Initialized st then Ok st
     else case Frame_Allocate (h_Frames st) (HEAP_SIZE div FRAME_SIZE) of (frames, fs) \<Rightarrow>
       let st1 = st\<lparr>h_Frames := fs, s_Region := if frames \<noteq> 0 then ToVirtual frames else 0\<rparr>
       in if s_Region st1 = 0 then Err (Panicked ''Not enough physical memory for the kernel heap'')
          else let st2 = st1\<lparr>s_FreeLists := replicate ORDER_COUNT 0\<rparr>;
                   st3 = PushFree (BlockAt st2 0) MAX_ORDER st2
               in Ok (st3\<lparr>s_UsedBytes := 0, s_Initialized := True\<rparr>))"

function FindOrder :: "heap \<Rightarrow> u8 \<Rightarrow> u8" where
  "FindOrder st order =
    (if order \<le> MAX_ORDER \<and> s_FreeLists st ! IndexOf order = 0 then FindOrder st (order + 1) else order)"
  by pat_completeness auto
termination
  by (relation "measure (\<lambda>(st, order). 25 - unat order)")
    (auto simp: word_le_nat_alt unat_order_Suc)

declare FindOrder.simps [simp del]

function SplitDown :: "u64 \<Rightarrow> u8 \<Rightarrow> u8 \<Rightarrow> heap \<Rightarrow> heap" where
  "SplitDown blk wanted order st =
    (if order > wanted then
       SplitDown blk wanted (order - 1)
         (PushFree (BlockAt st (OffsetOf st blk + push_bit (unat (order - 1)) 1)) (order - 1) st)
     else st)"
  by pat_completeness auto
termination
  by (relation "measure (\<lambda>(b, w, order, st). unat order)") (auto simp: word_less_nat_alt unat_order_pred)

declare SplitDown.simps [simp del]

definition Heap_Allocate :: "u64 \<Rightarrow> heap \<Rightarrow> (u64 \<times> heap) result" where
  "Heap_Allocate InSize st =
    (if InSize = 0 then Ok (0, st)
     else rbind (if \<not> s_Initialized st then Heap_Initialize st else Ok st) (\<lambda>st0.
       let needed = InSize + SIZEOF_BlockHeader
       in if needed > HEAP_SIZE then Ok (0, st0)
          else let wanted = OrderFor needed; order = FindOrder st0 wanted
               in if order > MAX_ORDER then Ok (0, st0)
                  else let blk = s_FreeLists st0 ! IndexOf order;
                           st1 = st0\<lparr>s_FreeLists := (s_FreeLists st0)[IndexOf order := NextFree (header st0 blk)]\<rparr>;
                           st2 = SplitDown blk wanted order st1;
                           st3 = SetHeader blk (\<lambda>h. h\<lparr>Magic := BLOCK_MAGIC, Order := wanted, IsFree := 0,
                                   NextFree := 0\<rparr>) st2;
                           st4 = st3\<lparr>s_UsedBytes := s_UsedBytes st3 + push_bit (unat wanted) 1\<rparr>
                       in Ok (blk + SIZEOF_BlockHeader, st4)))"

function MergeUp :: "u64 \<Rightarrow> u8 \<Rightarrow> heap \<Rightarrow> (u64 \<times> u8 \<times> heap) option" where
  "MergeUp offset order st =
    (if order < MAX_ORDER then
       let buddyOffset = offset XOR push_bit (unat order) 1; buddy = BlockAt st buddyOffset
       in if Magic (header st buddy) \<noteq> BLOCK_MAGIC \<or> IsFree (header st buddy) = 0 \<or> Order (header st buddy) \<noteq> order
          then Some (offset, order, st)
          else case RemoveFree buddy order st of
            None \<Rightarrow> None
          | Some (removed, st1) \<Rightarrow>
              if \<not> removed then Some (offset, order, st1)
              else MergeUp (if offset < buddyOffset then offset else buddyOffset) (order + 1) st1
     else Some (offset, order, st))"
  by pat_completeness auto
termination
  by (relation "measure (\<lambda>(offset, order, st). unat MAX_ORDER - unat order)")
    (auto simp: word_less_nat_alt unat_order_Suc)

declare MergeUp.simps [simp del]

definition Heap_Free :: "u64 \<Rightarrow> heap \<Rightarrow> heap result" where
  "Heap_Free InPointer st =
    (if InPointer = 0 then Ok st
     else let blk = InPointer - SIZEOF_BlockHeader
       in rbind (ASSERT ''block->Magic == BLOCK_MAGIC'' (Magic (header st blk) = BLOCK_MAGIC)) (\<lambda>_.
          rbind (ASSERT ''block->IsFree == 0'' (IsFree (header st blk) = 0)) (\<lambda>_.
          if Magic (header st blk) \<noteq> BLOCK_MAGIC \<or> IsFree (header st blk) \<noteq> 0 then Ok st
          else let order = Order (header st blk);
                   st1 = st\<lparr>s_UsedBytes := s_UsedBytes st - push_bit (unat order) 1\<rparr>
               in rbind (returned (MergeUp (OffsetOf st1 blk) order st1)) (\<lambda>(offset, order, st2).
                    Ok (PushFree (BlockAt st2 offset) order st2)))))"

definition Heap_Reallocate :: "u64 \<Rightarrow> u64 \<Rightarrow> heap \<Rightarrow> (u64 \<times> heap) result" where
  "Heap_Reallocate InPointer InSize st =
    (if InPointer = 0 then Heap_Allocate InSize st
     else if InSize = 0 then rbind (Heap_Free InPointer st) (\<lambda>st1. Ok (0, st1))
     else let blk = InPointer - SIZEOF_BlockHeader
       in rbind (ASSERT ''block->Magic == BLOCK_MAGIC'' (Magic (header st blk) = BLOCK_MAGIC)) (\<lambda>_.
          let oldPayload = push_bit (unat (Order (header st blk))) 1 - SIZEOF_BlockHeader
          in if InSize \<le> oldPayload \<and> OrderFor (InSize + SIZEOF_BlockHeader) = Order (header st blk)
             then Ok (InPointer, st)
             else rbind (Heap_Allocate InSize st) (\<lambda>(replacement, st1).
               if replacement \<noteq> 0 then
                 let st2 = st1\<lparr>h_Memory := memcpy (h_Memory st1) replacement InPointer
                       (if InSize < oldPayload then InSize else oldPayload)\<rparr>
                 in rbind (Heap_Free InPointer st2) (\<lambda>st3. Ok (replacement, st3))
               else Ok (replacement, st1))))"

definition Heap_GetTotalBytes :: u64 where "Heap_GetTotalBytes = HEAP_SIZE"

definition Heap_GetUsedBytes :: "heap \<Rightarrow> u64" where "Heap_GetUsedBytes st = s_UsedBytes st"

definition malloc :: "u64 \<Rightarrow> heap \<Rightarrow> (u64 \<times> heap) result" where
  "malloc InSize st = Heap_Allocate InSize st"

definition free :: "u64 \<Rightarrow> heap \<Rightarrow> heap result" where
  "free InPointer st = Heap_Free InPointer st"

definition calloc :: "u64 \<Rightarrow> u64 \<Rightarrow> heap \<Rightarrow> (u64 \<times> heap) result" where
  "calloc InCount InSize st =
    (let total = InCount * InSize
     in if InCount \<noteq> 0 \<and> total div InCount \<noteq> InSize then Ok (0, st)
        else rbind (Heap_Allocate total st) (\<lambda>(ptr, st1).
          Ok (ptr, if ptr \<noteq> 0 then st1\<lparr>h_Memory := memset (h_Memory st1) ptr 0 total\<rparr> else st1)))"

definition realloc :: "u64 \<Rightarrow> u64 \<Rightarrow> heap \<Rightarrow> (u64 \<times> heap) result" where
  "realloc InPointer InSize st = Heap_Reallocate InPointer InSize st"

end
