(* ===== verification/HK_Buddy.thy ===== *)
theory HK_Buddy
  imports HK_Prelude
begin

text \<open>
  The block maps a buddy allocator moves between: a map from the offset of a block to its order and
  to whether it is free. \<open>tiling\<close> says that the blocks are aligned to their size and cover the
  region without overlap; splitting a block and merging a block with its buddy keep it.
\<close>

type_synonym blocks = "nat \<rightharpoonup> nat \<times> bool"

definition buddy :: "nat \<Rightarrow> nat \<Rightarrow> nat" where
  "buddy off k = (if even (off div 2 ^ k) then off + 2 ^ k else off - 2 ^ k)"

definition inside :: "blocks \<Rightarrow> nat \<Rightarrow> nat \<Rightarrow> bool" where
  "inside M off x \<longleftrightarrow> (\<exists>k f. M off = Some (k, f) \<and> off \<le> x \<and> x < off + 2 ^ k)"

definition tiling :: "nat \<Rightarrow> nat \<Rightarrow> blocks \<Rightarrow> bool" where
  "tiling L N M \<longleftrightarrow>
     (\<forall>off k f. M off = Some (k, f) \<longrightarrow> L \<le> k \<and> k \<le> N \<and> 2 ^ k dvd off \<and> off + 2 ^ k \<le> 2 ^ N) \<and>
     (\<forall>x < 2 ^ N. \<exists>off. inside M off x) \<and>
     (\<forall>x off off'. inside M off x \<and> inside M off' x \<longrightarrow> off = off')"

lemma tiling_block:
  assumes "tiling L N M" "M off = Some (k, f)"
  shows "L \<le> k" "k \<le> N" "2 ^ k dvd off" "off + 2 ^ k \<le> 2 ^ N" "off < 2 ^ N"
proof -
  show "L \<le> k" "k \<le> N" "2 ^ k dvd off" and le: "off + 2 ^ k \<le> 2 ^ N" using assms by (auto simp: tiling_def)
  have "0 < (2 :: nat) ^ k" by simp
  then show "off < 2 ^ N" using le by linarith
qed

lemma tiling_cover:
  assumes "tiling L N M" "x < 2 ^ N"
  obtains off k f where "M off = Some (k, f)" "off \<le> x" "x < off + 2 ^ k"
  using assms unfolding tiling_def inside_def by blast

lemma tiling_disjoint:
  assumes "tiling L N M" "M off = Some (k, f)" "M off' = Some (k', f')"
    "off \<le> x" "x < off + 2 ^ k" "off' \<le> x" "x < off' + 2 ^ k'"
  shows "off = off'"
  using assms unfolding tiling_def inside_def by blast

text \<open>Two blocks that are aligned to their size are nested or disjoint.\<close>

lemma dyadic_nested:
  fixes off off' x :: nat
  assumes "2 ^ k dvd off" "2 ^ k' dvd off'" "k \<le> k'"
    and "off \<le> x" "x < off + 2 ^ k" "off' \<le> x" "x < off' + 2 ^ k'"
  shows "off' \<le> off" "off + 2 ^ k \<le> off' + 2 ^ k'"
proof -
  obtain q where q: "off = 2 ^ k * q" using assms(1) by (auto elim: dvdE)
  have "(2 :: nat) ^ k dvd 2 ^ k'" using assms(3) by (rule le_imp_power_dvd)
  then obtain m where m: "(2 :: nat) ^ k' = 2 ^ k * m" by (auto elim: dvdE)
  obtain q' where q': "off' = 2 ^ k' * q'" using assms(2) by (auto elim: dvdE)
  have "2 ^ k * q < 2 ^ k * (m * q' + m)" using assms(4,7) unfolding q q' m by (simp add: algebra_simps)
  then have hi: "q < m * q' + m" by simp
  have "2 ^ k * (m * q') < 2 ^ k * (q + 1)" using assms(5,6) unfolding q q' m by (simp add: algebra_simps)
  then have lo: "m * q' \<le> q" by (simp only: mult_less_cancel1) simp
  show "off' \<le> off" unfolding q q' m using lo by simp
  have "2 ^ k * (q + 1) \<le> 2 ^ k * (m * q' + m)" using hi by (intro mult_left_mono) simp_all
  then show "off + 2 ^ k \<le> off' + 2 ^ k'" unfolding q q' m by (simp add: algebra_simps)
qed

lemma buddy_facts:
  assumes "2 ^ k dvd off"
  shows "2 ^ k dvd buddy off k" "buddy (buddy off k) k = off" "buddy off k \<noteq> off"
    "2 ^ Suc k dvd min off (buddy off k)" "max off (buddy off k) = min off (buddy off k) + 2 ^ k"
    "min off (buddy off k) = off div 2 ^ Suc k * 2 ^ Suc k"
proof -
  obtain q where q: "off = 2 ^ k * q" using assms by (auto elim: dvdE)
  have p: "0 < (2 :: nat) ^ k" by simp
  have d: "off div 2 ^ k = q" unfolding q using p by simp
  define bd where "bd = buddy off k"
  have "2 ^ k dvd bd \<and> buddy bd k = off \<and> bd \<noteq> off \<and> 2 ^ Suc k dvd min off bd \<and>
    max off bd = min off bd + 2 ^ k \<and> min off bd = off div 2 ^ Suc k * 2 ^ Suc k"
  proof (cases "even q")
    case True
    then obtain r where r: "q = 2 * r" by (auto elim: evenE)
    have b: "bd = 2 ^ k * (2 * r + 1)" using True d by (simp add: bd_def buddy_def q r)
    have off: "off = 2 ^ Suc k * r" using q r by simp
    have "bd div 2 ^ k = 2 * r + 1" unfolding b using p by simp
    then have "buddy bd k = off" using b off by (simp add: buddy_def)
    then show ?thesis using b off p by (simp add: min_def max_def)
  next
    case False
    then obtain r where r: "q = 2 * r + 1" by (auto elim: oddE)
    have b: "bd = 2 ^ Suc k * r" using False d by (simp add: bd_def buddy_def q r)
    have off: "off = 2 ^ Suc k * r + 2 ^ k" using q r by (simp add: algebra_simps)
    have "bd div 2 ^ k = 2 * r" unfolding b using p by simp
    then have "buddy bd k = off" using b off by (simp add: buddy_def)
    moreover have "off div 2 ^ Suc k = r" unfolding off using p by simp
    ultimately show ?thesis using b off p by (simp add: min_def max_def)
  qed
  then show "2 ^ k dvd buddy off k" "buddy (buddy off k) k = off" "buddy off k \<noteq> off"
    "2 ^ Suc k dvd min off (buddy off k)" "max off (buddy off k) = min off (buddy off k) + 2 ^ k"
    "min off (buddy off k) = off div 2 ^ Suc k * 2 ^ Suc k" unfolding bd_def by blast+
qed

section \<open>Operations on block maps\<close>

lemma tiling_whole: "L \<le> N \<Longrightarrow> tiling L N [0 \<mapsto> (N, f)]"
  by (auto simp: tiling_def inside_def split: if_split_asm)

lemma tiling_flag:
  assumes "tiling L N M" "M off = Some (k, f)"
  shows "tiling L N (M(off \<mapsto> (k, g)))"
proof -
  have "inside (M(off \<mapsto> (k, g))) off' x = inside M off' x" for off' x
    using assms(2) by (auto simp: inside_def)
  moreover have "L \<le> k' \<and> k' \<le> N \<and> 2 ^ k' dvd x \<and> x + 2 ^ k' \<le> 2 ^ N"
    if "(M(off \<mapsto> (k, g))) x = Some (k', f')" for x k' f'
    using that tiling_block [OF assms] tiling_block [OF assms(1), of x k' f'] by (auto split: if_split_asm)
  ultimately show ?thesis using assms(1) unfolding tiling_def by metis
qed

lemma tiling_upper_free:
  assumes "tiling L N M" "M off = Some (Suc k, f)"
  shows "M (off + 2 ^ k) = None"
proof (rule ccontr)
  assume "M (off + 2 ^ k) \<noteq> None"
  then obtain k' f' where "M (off + 2 ^ k) = Some (k', f')" by auto
  from tiling_disjoint [OF assms this, of "off + 2 ^ k"] show False by simp
qed

lemma tiling_split:
  assumes T: "tiling L N M" and b: "M off = Some (Suc k, f)" and L: "L \<le> k"
  shows "tiling L N (M(off \<mapsto> (k, g), off + 2 ^ k \<mapsto> (k, h)))" (is "tiling L N ?M")
proof -
  have up: "M (off + 2 ^ k) = None" by (rule tiling_upper_free [OF T b])
  note B = tiling_block [OF T b]
  have al: "2 ^ k dvd off" "2 ^ k dvd off + 2 ^ k" using B(3) by (auto simp: power_Suc dest: dvd_mult_right)
  have other: "inside ?M x y = inside M x y" if "x \<noteq> off" "x \<noteq> off + 2 ^ k" for x y
    using that by (simp add: inside_def)
  have lo: "inside ?M off y \<longleftrightarrow> off \<le> y \<and> y < off + 2 ^ k" for y by (auto simp: inside_def)
  have hi: "inside ?M (off + 2 ^ k) y \<longleftrightarrow> off + 2 ^ k \<le> y \<and> y < off + 2 ^ k + 2 ^ k" for y by (auto simp: inside_def)
  have old: "inside M off y \<longleftrightarrow> off \<le> y \<and> y < off + 2 ^ k + 2 ^ k" for y
    using b by (auto simp: inside_def algebra_simps)
  have none: "\<not> inside M (off + 2 ^ k) y" for y using up by (simp add: inside_def)
  have par: "inside M (if x = off + 2 ^ k then off else x) y" if "inside ?M x y" for x y
  proof (cases "x = off \<or> x = off + 2 ^ k")
    case True
    then show ?thesis using that lo [of y] hi [of y] old [of y] by auto
  next
    case False
    then show ?thesis using that other [of x y] by auto
  qed
  have wf: "L \<le> k' \<and> k' \<le> N \<and> 2 ^ k' dvd x \<and> x + 2 ^ k' \<le> 2 ^ N" if "?M x = Some (k', f')" for x k' f'
    using that B L al tiling_block [OF T, of x k' f'] by (auto split: if_split_asm)
  have cover: "\<exists>x. inside ?M x y" if "y < 2 ^ N" for y
  proof -
    obtain x where x: "inside M x y" using T \<open>y < 2 ^ N\<close> by (auto simp: tiling_def)
    then have "x \<noteq> off + 2 ^ k" using none by blast
    then show ?thesis using x other [of x y] lo [of y] hi [of y] old [of y] by (cases "x = off") force+
  qed
  have disj: "x = x'" if i: "inside ?M x y" "inside ?M x' y" for x x' y
  proof -
    have "(if x = off + 2 ^ k then off else x) = (if x' = off + 2 ^ k then off else x')"
      using par [OF i(1)] par [OF i(2)] T unfolding tiling_def by blast
    then show ?thesis using i lo [of y] hi [of y] by (auto split: if_split_asm)
  qed
  show ?thesis unfolding tiling_def using wf cover disj by blast
qed

lemma tiling_merge:
  assumes T: "tiling L N M" and b: "M off = Some (k, f)" "M (buddy off k) = Some (k, g)" and k: "k < N"
  shows "tiling L N (M(max off (buddy off k) := None, min off (buddy off k) \<mapsto> (Suc k, h)))"
proof -
  let ?lo = "min off (buddy off k)" and ?hi = "max off (buddy off k)"
  let ?M = "M(?hi := None, ?lo \<mapsto> (Suc k, h))"
  note B = tiling_block [OF T b(1)] and F = buddy_facts [OF tiling_block(3) [OF T b(1)]]
  have hl: "?hi = ?lo + 2 ^ k" by (rule F(5))
  then have ne: "?lo \<noteq> ?hi" by simp
  obtain f1 f2 where M: "M ?lo = Some (k, f1)" "M ?hi = Some (k, f2)"
    using b by (cases "off \<le> buddy off k") (auto simp: min_def max_def)
  have new: "inside ?M ?lo y \<longleftrightarrow> inside M ?lo y \<or> inside M ?hi y" for y
  proof -
    have "inside ?M ?lo y \<longleftrightarrow> ?lo \<le> y \<and> y < ?lo + 2 ^ Suc k" by (simp add: inside_def)
    moreover have "inside M ?lo y \<longleftrightarrow> ?lo \<le> y \<and> y < ?lo + 2 ^ k" using M(1) by (simp add: inside_def)
    moreover have "inside M ?hi y \<longleftrightarrow> ?lo + 2 ^ k \<le> y \<and> y < ?lo + 2 ^ k + 2 ^ k"
      using M(2) hl by (auto simp: inside_def)
    ultimately show ?thesis by (auto simp: power_Suc)
  qed
  have gone: "\<not> inside ?M ?hi y" for y using ne by (simp add: inside_def)
  have other: "inside ?M x y = inside M x y" if "x \<noteq> ?lo" "x \<noteq> ?hi" for x y using that by (simp add: inside_def)
  have uniq: "x = x'" if "inside M x y" "inside M x' y" for x x' y using T that unfolding tiling_def by blast
  have wf: "L \<le> k' \<and> k' \<le> N \<and> 2 ^ k' dvd x \<and> x + 2 ^ k' \<le> 2 ^ N" if "?M x = Some (k', f')" for x k' f'
  proof (cases "x = ?lo")
    case True
    have "?lo + 2 ^ k + 2 ^ k \<le> 2 ^ N" using tiling_block(4) [OF T M(2)] hl by simp
    then show ?thesis using that True F(4) k B(1) by (auto simp: algebra_simps)
  next
    case False
    then have "M x = Some (k', f')" using that by (auto split: if_split_asm)
    from tiling_block [OF T this] show ?thesis by simp
  qed
  have cover: "\<exists>x. inside ?M x y" if "y < 2 ^ N" for y
  proof -
    obtain x where "inside M x y" using T \<open>y < 2 ^ N\<close> by (auto simp: tiling_def)
    then show ?thesis using new [of y] other [of x y] by metis
  qed
  have disj: "x = x'" if "inside ?M x y" "inside ?M x' y" for x x' y
    using that new [of y] gone [of y] other [of x y] other [of x' y] uniq [of _ y] by metis
  show ?thesis unfolding tiling_def using wf cover disj by blast
qed

text \<open>The buddy of a block is where a block of at most its order starts.\<close>

lemma tiling_buddy:
  assumes T: "tiling L N M" and b: "M off = Some (k, f)" and k: "k < N"
  obtains k' g where "M (buddy off k) = Some (k', g)" "k' \<le> k"
proof -
  let ?b = "buddy off k"
  note B = tiling_block [OF T b] and F = buddy_facts [OF tiling_block(3) [OF T b]]
  have "(2 :: nat) ^ Suc k dvd 2 ^ N" using k by (intro le_imp_power_dvd) simp
  then obtain m where m: "(2 :: nat) ^ N = 2 ^ Suc k * m" by (auto elim: dvdE)
  have "off div 2 ^ Suc k < m" using B(5) unfolding m by (simp add: less_mult_imp_div_less mult.commute)
  then have "(off div 2 ^ Suc k + 1) * 2 ^ Suc k \<le> m * 2 ^ Suc k" by (intro mult_right_mono) simp_all
  then have top: "min off ?b + 2 ^ Suc k \<le> 2 ^ N" unfolding F(6) m by (simp add: algebra_simps)
  have mx: "min off ?b + 2 ^ k + 2 ^ k \<le> 2 ^ N" using top by simp
  have "?b \<le> min off ?b + 2 ^ k" "0 < (2 :: nat) ^ k" using F(5) max.cobounded2 [of ?b off] by simp_all
  then have "?b < 2 ^ N" using mx by linarith
  then obtain x k' g where x: "M x = Some (k', g)" "x \<le> ?b" "?b < x + 2 ^ k'" using tiling_cover [OF T] by metis
  note X = tiling_block [OF T x(1)]
  have "k' \<le> k"
  proof (rule ccontr)
    assume "\<not> k' \<le> k"
    then have kk: "Suc k \<le> k'" by simp
    have "min off ?b \<le> ?b" "?b < min off ?b + 2 ^ Suc k"
      using F(5) by (auto simp: min_def max_def split: if_split_asm)
    from dyadic_nested [OF F(4) X(3) kk this x(2,3)]
    have "x \<le> min off ?b" "min off ?b + 2 ^ Suc k \<le> x + 2 ^ k'" by auto
    moreover have "min off ?b \<le> off" "off < min off ?b + 2 ^ Suc k"
      using F(5) by (auto simp: min_def max_def split: if_split_asm)
    ultimately have "x = off" using tiling_disjoint [OF T x(1) b, of off] by simp
    then show False using x(1) b kk by simp
  qed
  moreover have "x = ?b"
  proof -
    have "?b \<le> ?b" "?b < ?b + 2 ^ k" by simp_all
    from dyadic_nested(1) [OF X(3) F(1) \<open>k' \<le> k\<close> x(2,3) this] show ?thesis using x(2) by simp
  qed
  ultimately show ?thesis using that x(1) by blast
qed

section \<open>Coalescing\<close>

definition coalesced :: "nat \<Rightarrow> blocks \<Rightarrow> bool" where
  "coalesced N M \<longleftrightarrow> (\<forall>off k. M off = Some (k, True) \<and> k < N \<longrightarrow> M (buddy off k) \<noteq> Some (k, True))"

lemma coalesced_whole:
  assumes T: "tiling L N M" and C: "coalesced N M" and free: "\<And>off k f. M off = Some (k, f) \<Longrightarrow> f"
  shows "M = [0 \<mapsto> (N, True)]"
proof -
  have "0 < (2 :: nat) ^ N" by simp
  then obtain x0 k0 f0 where "M x0 = Some (k0, f0)" by (rule tiling_cover [OF T])
  then have ex: "\<exists>k off. M off = Some (k, True)" using free [of x0 k0 f0] by auto
  define k where "k = (LEAST k. \<exists>off. M off = Some (k, True))"
  obtain off where off: "M off = Some (k, True)" using LeastI_ex [OF ex] unfolding k_def by blast
  have least: "k \<le> k'" if "M x = Some (k', f)" for x k' f
    using that free [OF that] unfolding k_def by (intro Least_le) auto
  have "\<not> k < N"
  proof
    assume k: "k < N"
    obtain k' g where "M (buddy off k) = Some (k', g)" "k' \<le> k" by (rule tiling_buddy [OF T off k])
    moreover from this have "k' = k" "g" using least free by (auto simp: le_antisym)
    ultimately show False using C off k by (simp add: coalesced_def)
  qed
  have all: "x = 0 \<and> k' = N \<and> f" if "M x = Some (k', f)" for x k' f
  proof -
    have "k' = N" using \<open>\<not> k < N\<close> least [OF that] tiling_block(2) [OF T that] by simp
    then show ?thesis using tiling_block(4) [OF T that] free [OF that] by simp
  qed
  have zero: "M 0 = Some (N, True)" using off all [OF off] by simp
  show ?thesis
  proof
    fix x
    have "M x = None" if "x \<noteq> 0" using that all [of x] by (metis option.exhaust surj_pair)
    then show "M x = [0 \<mapsto> (N, True)] x" using zero by (cases "x = 0") simp_all
  qed
qed

section \<open>Space in use\<close>

definition used :: "nat set \<Rightarrow> blocks \<Rightarrow> nat" where
  "used H M = (\<Sum>off | off \<notin> H \<and> (\<exists>k. M off = Some (k, False)). 2 ^ fst (the (M off)))"

lemma tiling_finite: "tiling L N M \<Longrightarrow> finite {off. off \<notin> H \<and> (\<exists>k. M off = Some (k, f))}"
  by (rule finite_subset [of _ "{..<2 ^ N}"]) (auto dest: tiling_block(5))

lemma used_bound:
  assumes T: "tiling L N M"
  shows "used H M \<le> 2 ^ N"
proof -
  let ?A = "{off. off \<notin> H \<and> (\<exists>k. M off = Some (k, False))}"
  let ?I = "\<lambda>off. {off..<off + 2 ^ fst (the (M off))}"
  have "used H M = (\<Sum>off \<in> ?A. card (?I off))" by (simp add: used_def)
  also have "\<dots> = card (\<Union>off \<in> ?A. ?I off)"
  proof (rule card_UN_disjoint [symmetric])
    show "finite ?A" by (rule tiling_finite [OF T])
    show "\<forall>i \<in> ?A. \<forall>j \<in> ?A. i \<noteq> j \<longrightarrow> ?I i \<inter> ?I j = {}"
    proof (intro ballI impI equals0I)
      fix i j x
      assume i: "i \<in> ?A" and j: "j \<in> ?A" and ne: "i \<noteq> j" and x: "x \<in> ?I i \<inter> ?I j"
      from i j obtain k k' where "M i = Some (k, False)" "M j = Some (k', False)" by auto
      from tiling_disjoint [OF T this, of x] show False using x ne \<open>M i = _\<close> \<open>M j = _\<close> by auto
    qed
  qed simp
  also have "\<dots> \<le> card {..<(2 :: nat) ^ N}"
    by (rule card_mono) (use tiling_block(4) [OF T] in \<open>fastforce+\<close>)
  finally show ?thesis by simp
qed

end
