(* ===== verification/HK_HeapInv.thy ===== *)
theory HK_HeapInv
  imports HK_Heap HK_Buddy
begin

text \<open>
  The heap refines the block maps of \<open>HK_Buddy\<close>: \<open>heap_rep\<close> ties the headers, the free lists and
  the byte counter in memory to a block map, and every loop of the allocator is a step on it.
\<close>

section \<open>Headers in byte memory\<close>

definition granule :: "u64 \<Rightarrow> bool" where "granule a \<longleftrightarrow> 32 dvd unat a"

lemma div_8_add:
  "(8 + i) div 8 = 1 + i div 8" "(16 + i) div 8 = 2 + i div 8" "(32 + i) div 8 = 4 + i div 8"
  "(8 + i) mod 8 = i mod 8" "(16 + i) mod 8 = i mod 8" "(32 + i) mod 8 = i mod 8" for i :: nat
  by presburger+

lemma bit_peek16: "bit (peek16 m a) n \<longleftrightarrow> n < 16 \<and> bit (m (a + of_nat (n div 8))) (n mod 8)"
proof (cases "n < 8")
  case False
  then obtain i where n: "n = 8 + i" using le_Suc_ex [of 8 n] by auto
  show ?thesis
    by (cases "i < 8") (auto simp: n peek16_def bit_or_iff bit_ucast_iff bit_push_bit_iff div_8_add dest: bit_imp_le_length)
qed (auto simp: peek16_def bit_or_iff bit_ucast_iff bit_push_bit_iff)

lemma bit_peek32: "bit (peek32 m a) n \<longleftrightarrow> n < 32 \<and> bit (m (a + of_nat (n div 8))) (n mod 8)"
proof (cases "n < 16")
  case False
  then obtain i where n: "n = 16 + i" using le_Suc_ex [of 16 n] by auto
  show ?thesis by (auto simp: n peek32_def bit_or_iff bit_ucast_iff bit_push_bit_iff bit_peek16 div_8_add add.assoc)
qed (auto simp: peek32_def bit_or_iff bit_ucast_iff bit_push_bit_iff bit_peek16)

lemma bit_peek64: "bit (peek64 m a) n \<longleftrightarrow> n < 64 \<and> bit (m (a + of_nat (n div 8))) (n mod 8)"
proof (cases "n < 32")
  case False
  then obtain i where n: "n = 32 + i" using le_Suc_ex [of 32 n] by auto
  show ?thesis by (auto simp: n peek64_def bit_or_iff bit_ucast_iff bit_push_bit_iff bit_peek32 div_8_add add.assoc)
qed (auto simp: peek64_def bit_or_iff bit_ucast_iff bit_push_bit_iff bit_peek32)

lemma Write_byte: "i < 16 \<Longrightarrow> WriteHeader a h m (a + of_nat i) = header_byte h i"
proof -
  assume i: "i < 16"
  then have "unat (of_nat i :: u64) = i" by (intro unat_of_nat_small) simp
  then show ?thesis using i by (simp add: WriteHeader_def word_less_nat_alt SIZEOF_BlockHeader_def)
qed

lemma Read_Write: "ReadHeader (WriteHeader a h m) a = h"
proof -
  let ?m = "WriteHeader a h m"
  have b: "?m (a + of_nat (k + n div 8)) = header_byte h (k + n div 8)" if "k + n div 8 < 16" for k n
    using that by (rule Write_byte)
  have q: "8 * (n div 8) + n mod 8 = n" for n :: nat by simp
  have "peek32 ?m a = Magic h"
    using b [of 0] by (intro bit_word_eqI) (auto simp: bit_peek32 header_byte_def bit_ucast_iff bit_drop_bit_eq q)
  moreover have "?m (a + 4) = Order h" "?m (a + 5) = IsFree h"
    using Write_byte [of 4 a h m] Write_byte [of 5 a h m] by (simp_all add: header_byte_def)
  moreover have "peek16 ?m (a + 6) = Padding h"
    using b [of 6] by (intro bit_word_eqI)
      (auto simp: bit_peek16 header_byte_def bit_ucast_iff bit_drop_bit_eq q add.assoc)
  moreover have "peek64 ?m (a + 8) = NextFree h"
    using b [of 8] by (intro bit_word_eqI)
      (auto simp: bit_peek64 header_byte_def bit_ucast_iff bit_drop_bit_eq q add.assoc)
  ultimately show ?thesis by (simp add: ReadHeader_def)
qed

lemma Read_cong:
  assumes "\<And>i. i < 16 \<Longrightarrow> m' (a + of_nat i) = m (a + of_nat i)"
  shows "ReadHeader m' a = ReadHeader m a"
proof -
  have b: "m' (a + of_nat (k + n div 8)) = m (a + of_nat (k + n div 8))" if "k + n div 8 < 16" for k n
    using that by (rule assms)
  have "peek32 m' a = peek32 m a" using b [of 0] by (intro bit_word_eqI) (auto simp: bit_peek32)
  moreover have "m' (a + 4) = m (a + 4)" "m' (a + 5) = m (a + 5)" using assms [of 4] assms [of 5] by simp_all
  moreover have "peek16 m' (a + 6) = peek16 m (a + 6)"
    using b [of 6] by (intro bit_word_eqI) (auto simp: bit_peek16 add.assoc)
  moreover have "peek64 m' (a + 8) = peek64 m (a + 8)"
    using b [of 8] by (intro bit_word_eqI) (auto simp: bit_peek64 add.assoc)
  ultimately show ?thesis by (simp add: ReadHeader_def)
qed

lemma Write_outside: "\<not> x - a < 16 \<Longrightarrow> WriteHeader a h m x = m x"
  by (simp add: WriteHeader_def SIZEOF_BlockHeader_def)

lemma Read_Write_other:
  assumes "granule a" "granule b" "a \<noteq> b"
  shows "ReadHeader (WriteHeader a h m) b = ReadHeader m b"
proof (rule Read_cong)
  fix i :: nat
  assume i: "i < 16"
  define d where "d = unat (b - a)"
  have dv: "32 dvd d"
    using assms(1,2) by (auto simp: d_def granule_def unat_sub_if' intro!: dvd_diff_nat dvd_add)
  have "d \<noteq> 0" using assms(3) by (simp add: d_def unat_eq_zero)
  then have lo: "32 \<le> d" using dv by (simp add: dvd_imp_le)
  have "d < 32 * 2 ^ 59" using unat64_bound [of "b - a"] by (simp add: d_def)
  then have "d div 32 < 2 ^ 59" by (simp add: less_mult_imp_div_less)
  moreover have "d = 32 * (d div 32)" using dv by simp
  ultimately have "d + 16 < 2 ^ 64" by simp
  moreover have "unat (of_nat i :: u64) = i" using i by (intro unat_of_nat_small) simp
  ultimately have "unat ((b - a) + of_nat i) = d + i"
    using i by (subst unat_add_no_wrap) (simp_all add: d_def)
  moreover have "b + of_nat i - a = (b - a) + of_nat i" by simp
  ultimately have "unat (b + of_nat i - a) = d + i" by (simp only:)
  then show "WriteHeader a h m (b + of_nat i) = m (b + of_nat i)"
    using lo by (intro Write_outside) (simp add: word_less_nat_alt)
qed

section \<open>The representation\<close>

definition adr :: "heap \<Rightarrow> nat \<Rightarrow> u64" where "adr st off = s_Region st + of_nat off"

definition region_ok :: "u64 \<Rightarrow> bool" where
  "region_ok R \<longleftrightarrow> R \<noteq> 0 \<and> 32 dvd unat R \<and> unat R + 2 ^ 24 \<le> 2 ^ 64"

fun flist :: "memory \<Rightarrow> u64 \<Rightarrow> u64 list \<Rightarrow> bool" where
  "flist m p [] \<longleftrightarrow> p = 0"
| "flist m p (x # xs) \<longleftrightarrow> p = x \<and> x \<noteq> 0 \<and> flist m (NextFree (ReadHeader m x)) xs"

definition free_blocks :: "blocks \<Rightarrow> nat \<Rightarrow> nat set" where
  "free_blocks M k = {off. M off = Some (k, True)}"

definition hdr_ok :: "BlockHeader \<Rightarrow> nat \<Rightarrow> bool \<Rightarrow> bool" where
  "hdr_ok h k f \<longleftrightarrow> Magic h = BLOCK_MAGIC \<and> Order h = of_nat k \<and> IsFree h = (if f then 1 else 0)"

lemma hdr_ok_NextFree: "hdr_ok (h\<lparr>NextFree := v\<rparr>) k f = hdr_ok h k f"
  by (simp add: hdr_ok_def)

definition list_ok :: "heap \<Rightarrow> blocks \<Rightarrow> nat \<Rightarrow> bool" where
  "list_ok st M k \<longleftrightarrow> (\<exists>xs. flist (h_Memory st) (s_FreeLists st ! (k - 5)) xs \<and> distinct xs \<and>
     set xs = adr st ` free_blocks M k)"

text \<open>
  \<open>H\<close> holds the blocks an operation has taken off the books: their headers are not yet written,
  they are on no free list and are not counted as used.
\<close>

definition heap_rep :: "nat set \<Rightarrow> blocks \<Rightarrow> heap \<Rightarrow> bool" where
  "heap_rep H M st \<longleftrightarrow> s_Initialized st \<and> length (s_FreeLists st) = 20 \<and> region_ok (s_Region st) \<and>
     tiling 5 24 M \<and> coalesced 24 M \<and>
     (\<forall>off k f. M off = Some (k, f) \<longrightarrow> off \<notin> H \<longrightarrow> hdr_ok (header st (adr st off)) k f) \<and>
     (\<forall>off \<in> H. \<exists>k. M off = Some (k, False)) \<and>
     (\<forall>k. 5 \<le> k \<and> k \<le> 24 \<longrightarrow> list_ok st M k) \<and>
     s_UsedBytes st = of_nat (used H M)"

lemma adr_nat:
  assumes "region_ok (s_Region st)" "off < 2 ^ 24"
  shows "unat (adr st off) = unat (s_Region st) + off"
proof -
  have o: "unat (of_nat off :: u64) = off" using assms(2) by (intro unat_of_nat_small) simp
  then show ?thesis using assms unfolding adr_def by (subst unat_add_no_wrap) (simp_all add: region_ok_def)
qed

lemma adr_eq_iff:
  assumes "region_ok (s_Region st)" "off < 2 ^ 24" "off' < 2 ^ 24"
  shows "adr st off = adr st off' \<longleftrightarrow> off = off'"
  using adr_nat [OF assms(1,2)] adr_nat [OF assms(1,3)] by (auto simp: word_unat_eq_iff)

lemma block_bounds:
  assumes "heap_rep H M st" "M off = Some (k, f)"
  shows "5 \<le> k" "k \<le> 24" "off < 2 ^ 24" "off + 2 ^ k \<le> 2 ^ 24" "32 dvd off" "2 ^ k dvd off"
    "granule (adr st off)" "adr st off \<noteq> 0" "unat (adr st off) = unat (s_Region st) + off"
proof -
  have T: "tiling 5 24 M" and R: "region_ok (s_Region st)" using assms(1) by (auto simp: heap_rep_def)
  note B = tiling_block [OF T assms(2)]
  show "5 \<le> k" "k \<le> 24" "off < 2 ^ 24" "off + 2 ^ k \<le> 2 ^ 24" "2 ^ k dvd off" using B by auto
  have "(2 :: nat) ^ 5 dvd 2 ^ k" using B(1) by (rule le_imp_power_dvd)
  then show d: "32 dvd off" using B(3) by (simp add: dvd_trans)
  show a: "unat (adr st off) = unat (s_Region st) + off" using R B(5) by (rule adr_nat)
  then show "granule (adr st off)" using R d by (simp add: granule_def region_ok_def)
  show "adr st off \<noteq> 0" using a R by (auto simp: region_ok_def unat_eq_zero)
qed

lemma block_adr_eq:
  assumes "heap_rep H M st" "M off = Some (k, f)" "M off' = Some (k', f')"
  shows "adr st off = adr st off' \<longleftrightarrow> off = off'"
  using assms block_bounds(3) [OF assms(1,2)] block_bounds(3) [OF assms(1,3)]
  by (intro adr_eq_iff) (auto simp: heap_rep_def)

lemma flist_cong:
  "(\<And>x. x \<in> set xs \<Longrightarrow> NextFree (ReadHeader m' x) = NextFree (ReadHeader m x)) \<Longrightarrow> flist m' p xs = flist m p xs"
  by (induction xs arbitrary: p) auto

lemma used_insert:
  assumes "tiling L N M" "M off = Some (k, False)" "off \<notin> H"
  shows "used H M = used (insert off H) M + 2 ^ k"
proof -
  let ?A = "{x. x \<notin> H \<and> (\<exists>k. M x = Some (k, False))}"
  have "?A = insert off {x. x \<notin> insert off H \<and> (\<exists>k. M x = Some (k, False))}" using assms(2,3) by auto
  then show ?thesis
    using tiling_finite [OF assms(1), of "insert off H" False] assms(2) by (simp add: used_def)
qed

lemma used_cong:
  assumes "\<And>x k. x \<notin> H \<and> M x = Some (k, False) \<longleftrightarrow> x \<notin> H' \<and> M' x = Some (k, False)"
  shows "used H M = used H' M'"
proof -
  have "{x. x \<notin> H \<and> (\<exists>k. M x = Some (k, False))} = {x. x \<notin> H' \<and> (\<exists>k. M' x = Some (k, False))}"
    using assms by blast
  moreover have "M x = M' x" if "x \<notin> H'" "M' x = Some (k, False)" for x k
    using assms [of x k] that by simp
  ultimately show ?thesis unfolding used_def by (intro sum.cong) (auto intro: assms)
qed

section \<open>Steps on the representation\<close>

lemma IndexOf_nat: "k \<le> 24 \<Longrightarrow> IndexOf (of_nat k) = k - 5"
  by (simp add: IndexOf_def unat_of_nat_small)

lemma order_nat: "k \<le> 24 \<Longrightarrow> unat (of_nat k :: u8) = k"
  by (simp add: unat_of_nat_small)

lemma list_ok_frame:
  assumes "list_ok st M k" "s_FreeLists st' ! (k - 5) = s_FreeLists st ! (k - 5)" "s_Region st' = s_Region st"
    "free_blocks M' k = free_blocks M k"
    "\<And>off. M off = Some (k, True) \<Longrightarrow> NextFree (header st' (adr st off)) = NextFree (header st (adr st off))"
  shows "list_ok st' M' k"
proof -
  obtain xs where xs: "flist (h_Memory st) (s_FreeLists st ! (k - 5)) xs" "distinct xs"
      "set xs = adr st ` free_blocks M k" using assms(1) by (auto simp: list_ok_def)
  have "adr st' = adr st" using assms(3) by (simp add: adr_def fun_eq_iff)
  moreover have "flist (h_Memory st') (s_FreeLists st ! (k - 5)) xs"
    using xs(1,3) assms(5) by (subst flist_cong [of xs _ "h_Memory st"]) (auto simp: free_blocks_def)
  ultimately show ?thesis using xs(2,3) assms(2,4) by (auto simp: list_ok_def)
qed

lemma header_SetHeader:
  "header (SetHeader a f st) a = f (header st a)"
  "granule a \<Longrightarrow> granule b \<Longrightarrow> a \<noteq> b \<Longrightarrow> header (SetHeader a f st) b = header st b"
  by (simp_all add: SetHeader_def Read_Write Read_Write_other)

lemma SetHeader_fields [simp]:
  "s_Region (SetHeader a f st) = s_Region st" "s_FreeLists (SetHeader a f st) = s_FreeLists st"
  "s_UsedBytes (SetHeader a f st) = s_UsedBytes st" "s_Initialized (SetHeader a f st) = s_Initialized st"
  "h_Frames (SetHeader a f st) = h_Frames st"
  by (simp_all add: SetHeader_def)

lemma heap_rep_dest:
  assumes "heap_rep H M st"
  shows "tiling 5 24 M" "coalesced 24 M" "region_ok (s_Region st)" "length (s_FreeLists st) = 20" "s_Initialized st"
    "M off = Some (k, f) \<Longrightarrow> off \<notin> H \<Longrightarrow> hdr_ok (header st (adr st off)) k f"
    "off \<in> H \<Longrightarrow> \<exists>k. M off = Some (k, False)"
    "5 \<le> k \<Longrightarrow> k \<le> 24 \<Longrightarrow> list_ok st M k" "s_UsedBytes st = of_nat (used H M)"
  using assms by (auto simp: heap_rep_def)

lemma not_free_adr:
  assumes "heap_rep H M st" "M off = Some (k, False)"
  shows "adr st off \<notin> adr st ` free_blocks M k'"
proof
  assume "adr st off \<in> adr st ` free_blocks M k'"
  then obtain x where x: "M x = Some (k', True)" "adr st off = adr st x" by (auto simp: free_blocks_def)
  then have "off = x" using block_adr_eq [OF assms x(1)] by blast
  then show False using assms(2) x(1) by simp
qed

lemma PushFree_rep:
  assumes rep: "heap_rep (insert off H) M st" and b: "M off = Some (k, False)" and H: "off \<notin> H"
    and bud: "k < 24 \<Longrightarrow> M (buddy off k) \<noteq> Some (k, True)"
  shows "heap_rep H (M(off \<mapsto> (k, True))) (PushFree (adr st off) (of_nat k) st)"
proof -
  let ?M = "M(off \<mapsto> (k, True))" and ?st = "PushFree (adr st off) (of_nat k) st" and ?a = "adr st off"
  note D = heap_rep_dest [OF rep] and B = block_bounds [OF rep b]
  have idx: "IndexOf (of_nat k) = k - 5" by (rule IndexOf_nat [OF B(2)])
  have fields: "s_Region ?st = s_Region st" "s_UsedBytes ?st = s_UsedBytes st" "s_Initialized ?st"
      "s_FreeLists ?st = (s_FreeLists st)[k - 5 := ?a]"
    using D(5) by (simp_all add: PushFree_def Let_def idx)
  have adr: "adr ?st = adr st" using fields(1) by (simp add: adr_def fun_eq_iff)
  have new: "header ?st ?a = (header st ?a)\<lparr>Magic := BLOCK_MAGIC, Order := of_nat k, IsFree := 1,
      NextFree := s_FreeLists st ! (k - 5)\<rparr>"
    by (simp add: PushFree_def Let_def header_SetHeader(1) idx)
  have other: "header ?st (adr st x) = header st (adr st x)" if "M x = Some (k', f)" "x \<noteq> off" for x k' f
  proof -
    have "adr st x \<noteq> ?a" using block_adr_eq [OF rep that(1) b] that(2) by simp
    then show ?thesis using block_bounds(7) [OF rep that(1)] B(7)
      by (simp add: PushFree_def Let_def header_SetHeader(2))
  qed
  have hdrs: "hdr_ok (header ?st (adr ?st x)) k' f" if "?M x = Some (k', f)" "x \<notin> H" for x k' f
  proof (cases "x = off")
    case True
    then show ?thesis using that new adr by (auto simp: hdr_ok_def)
  next
    case False
    then show ?thesis using that other [of x k' f] D(6) [of x k' f] adr by simp
  qed
  have fb: "free_blocks ?M k' = (if k' = k then insert off (free_blocks M k) else free_blocks M k')" for k'
    using b by (auto simp: free_blocks_def)
  have lists: "list_ok ?st ?M k'" if k': "5 \<le> k'" "k' \<le> 24" for k'
  proof (cases "k' = k")
    case True
    obtain xs where xs: "flist (h_Memory st) (s_FreeLists st ! (k - 5)) xs" "distinct xs"
        "set xs = adr st ` free_blocks M k" using D(8) [OF B(1,2)] by (auto simp: list_ok_def)
    have na: "?a \<notin> set xs" using not_free_adr [OF rep b] xs(3) by simp
    have "flist (h_Memory ?st) (s_FreeLists st ! (k - 5)) xs"
      using xs(1,3) other b by (subst flist_cong [of xs _ "h_Memory st"]) (force simp: free_blocks_def)+
    then have "flist (h_Memory ?st) (s_FreeLists ?st ! (k - 5)) (?a # xs)"
      using fields(4) D(4) B(1,2,8) new by simp
    then show ?thesis unfolding list_ok_def True fb adr using na xs(2,3) by (intro exI [of _ "?a # xs"]) simp
  next
    case False
    then have ne: "k' - 5 \<noteq> k - 5" using k' B(1) by simp
    show ?thesis
    proof (rule list_ok_frame [OF D(8) [OF k']])
      fix x
      assume "M x = Some (k', True)"
      then show "NextFree (header ?st (adr st x)) = NextFree (header st (adr st x))" using other [of x] b by force
    qed (use fields(1,4) fb [of k'] False ne in simp_all)
  qed
  have "coalesced 24 ?M"
  proof -
    have bb: "buddy (buddy off k) k = off" using buddy_facts(2) [OF B(6)] .
    have "?M (buddy x k') \<noteq> Some (k', True)" if "?M x = Some (k', True)" "k' < 24" for x k'
    proof (cases "x = off \<or> buddy x k' = off")
      case False
      then show ?thesis using that D(2) by (simp add: coalesced_def)
    next
      case x: True
      show ?thesis
      proof (cases "x = off")
        case True
        then show ?thesis using that bud buddy_facts(3) [OF B(6)] by auto
      next
        case False
        then have M: "M x = Some (k', True)" "buddy x k' = off" using x that by auto
        have "buddy off k' = x" using M(2) buddy_facts(2) [OF block_bounds(6) [OF rep M(1)]] by simp
        then show ?thesis using M that bud by auto
      qed
    qed
    then show ?thesis by (auto simp: coalesced_def)
  qed
  moreover have "tiling 5 24 ?M" by (rule tiling_flag [OF D(1) b])
  moreover have "used (insert off H) M = used H ?M" using H by (intro used_cong) auto
  moreover have "\<exists>k. ?M x = Some (k, False)" if "x \<in> H" for x using that H D(7) [of x] by auto
  ultimately show ?thesis unfolding heap_rep_def
    using hdrs lists fields D(3,4,9) by simp
qed

text \<open>Steps that only regroup blocks which are off the books.\<close>

lemma coalesced_free: "coalesced N M \<longleftrightarrow> (\<forall>k < N. \<forall>off \<in> free_blocks M k. buddy off k \<notin> free_blocks M k)"
  by (auto simp: coalesced_def free_blocks_def)

lemma heap_rep_regroup:
  assumes rep: "heap_rep H M st" and T: "tiling 5 24 M'"
    and free: "\<And>k. free_blocks M' k = free_blocks M k"
    and live: "\<And>x k. x \<notin> H \<and> M x = Some (k, False) \<longleftrightarrow> x \<notin> H' \<and> M' x = Some (k, False)"
    and hole: "\<And>x. x \<in> H' \<Longrightarrow> \<exists>k. M' x = Some (k, False)"
  shows "heap_rep H' M' st"
proof -
  note D = heap_rep_dest [OF rep]
  have h: "hdr_ok (header st (adr st x)) k f" if "M' x = Some (k, f)" "x \<notin> H'" for x k f
  proof (cases f)
    case True
    then have "M x = Some (k, True)" using that free [of k] by (auto simp: free_blocks_def)
    moreover from this have "x \<notin> H" using D(7) by force
    ultimately show ?thesis using D(6) True by simp
  next
    case False
    then show ?thesis using that live [of x k] D(6) [of x k] by simp
  qed
  have "list_ok st M' k" if "5 \<le> k" "k \<le> 24" for k
    using list_ok_frame [OF D(8) [OF that]] free [of k] by simp
  moreover have "coalesced 24 M'" using D(2) free by (simp add: coalesced_free)
  moreover have "used H M = used H' M'" by (rule used_cong [OF live])
  ultimately show ?thesis unfolding heap_rep_def using D(3-5,9) T h hole by simp
qed

lemma split_rep:
  assumes rep: "heap_rep H M st" and b: "M off = Some (Suc k, False)" "off \<in> H" and k: "5 \<le> k"
  shows "heap_rep (insert (off + 2 ^ k) H) (M(off \<mapsto> (k, False), off + 2 ^ k \<mapsto> (k, False))) st"
proof (rule heap_rep_regroup [OF rep])
  let ?M = "M(off \<mapsto> (k, False), off + 2 ^ k \<mapsto> (k, False))"
  note D = heap_rep_dest [OF rep]
  have up: "M (off + 2 ^ k) = None" by (rule tiling_upper_free [OF D(1) b(1)])
  show "tiling 5 24 ?M" by (rule tiling_split [OF D(1) b(1) k])
  show "free_blocks ?M k' = free_blocks M k'" for k' using b up by (auto simp: free_blocks_def)
  show "x \<notin> H \<and> M x = Some (k', False) \<longleftrightarrow> x \<notin> insert (off + 2 ^ k) H \<and> ?M x = Some (k', False)" for x k'
    using b(2) up by auto
  show "\<exists>k. ?M x = Some (k, False)" if "x \<in> insert (off + 2 ^ k) H" for x using that D(7) [of x] by auto
qed

lemma merge_rep:
  assumes rep: "heap_rep (insert (buddy off k) (insert off H)) M st" and k: "k < 24"
    and b: "M off = Some (k, False)" "M (buddy off k) = Some (k, False)" and H: "off \<notin> H" "buddy off k \<notin> H"
  shows "heap_rep (insert (min off (buddy off k)) H)
    (M(max off (buddy off k) := None, min off (buddy off k) \<mapsto> (Suc k, False))) st"
proof (rule heap_rep_regroup [OF rep])
  let ?lo = "min off (buddy off k)" and ?hi = "max off (buddy off k)"
  let ?M = "M(?hi := None, ?lo \<mapsto> (Suc k, False))"
  note D = heap_rep_dest [OF rep]
  have ne: "buddy off k \<noteq> off" by (rule buddy_facts(3) [OF block_bounds(6) [OF rep b(1)]])
  have lh: "(x = ?lo \<or> x = ?hi) = (x = off \<or> x = buddy off k)" for x by (auto simp: min_def max_def)
  show "tiling 5 24 ?M" by (rule tiling_merge [OF D(1) b k])
  have same: "?M x = M x" if "x \<noteq> off" "x \<noteq> buddy off k" for x using that lh [of x] by auto
  have ends: "?M x = None \<or> ?M x = Some (Suc k, False) \<and> x = ?lo" if "x = off \<or> x = buddy off k" for x
    using that lh [of x] by auto
  show "free_blocks ?M k' = free_blocks M k'" for k'
  proof -
    have "?M x = Some (k', True) \<longleftrightarrow> M x = Some (k', True)" for x
      using same [of x] ends [of x] b by (cases "x = off \<or> x = buddy off k") auto
    then show ?thesis by (simp add: free_blocks_def)
  qed
  show "x \<notin> insert (buddy off k) (insert off H) \<and> M x = Some (k', False) \<longleftrightarrow>
      x \<notin> insert ?lo H \<and> ?M x = Some (k', False)" for x k'
    using same [of x] ends [of x] lh [of x] by (cases "x = off \<or> x = buddy off k") auto
  show "\<exists>k. ?M x = Some (k, False)" if "x \<in> insert ?lo H" for x
  proof (cases "x = ?lo")
    case False
    then have "x \<in> H" using that by simp
    then have "x \<noteq> off" "x \<noteq> buddy off k" "\<exists>k. M x = Some (k, False)" using H D(7) [of x] by auto
    then show ?thesis unfolding same [OF \<open>x \<noteq> off\<close> \<open>x \<noteq> buddy off k\<close>] by blast
  qed simp
qed

lemma claim_rep:
  assumes rep: "heap_rep (insert off H) M st" and b: "M off = Some (k, False)" and H: "off \<notin> H"
    and hdr: "\<And>h. hdr_ok (f h) k False"
  shows "heap_rep H M ((SetHeader (adr st off) f st)\<lparr>s_UsedBytes := s_UsedBytes st + 2 ^ k\<rparr>)"
proof -
  let ?st = "(SetHeader (adr st off) f st)\<lparr>s_UsedBytes := s_UsedBytes st + 2 ^ k\<rparr>"
  note D = heap_rep_dest [OF rep] and B = block_bounds [OF rep b]
  have adr: "adr ?st = adr st" by (simp add: adr_def fun_eq_iff)
  have other: "header ?st (adr st x) = header st (adr st x)" if "M x = Some (k', f')" "x \<noteq> off" for x k' f'
    using block_adr_eq [OF rep that(1) b] that(2) block_bounds(7) [OF rep that(1)] B(7)
    by (simp add: header_SetHeader(2))
  have "hdr_ok (header ?st (adr ?st x)) k' f'" if "M x = Some (k', f')" "x \<notin> H" for x k' f'
    using that b hdr other [of x k' f'] D(6) [of x k' f'] adr by (cases "x = off") (auto simp: header_SetHeader(1))
  moreover have "list_ok ?st M k'" if "5 \<le> k'" "k' \<le> 24" for k'
  proof (rule list_ok_frame [OF D(8) [OF that]])
    fix x
    assume "M x = Some (k', True)"
    then show "NextFree (header ?st (adr st x)) = NextFree (header st (adr st x))" using other [of x] b by force
  qed simp_all
  moreover have "used H M = used (insert off H) M + 2 ^ k" by (rule used_insert [OF D(1) b H])
  ultimately show ?thesis unfolding heap_rep_def using D by (simp add: of_nat_add)
qed

lemma unclaim_rep:
  assumes rep: "heap_rep H M st" and b: "M off = Some (k, False)" and H: "off \<notin> H"
  shows "heap_rep (insert off H) M (st\<lparr>s_UsedBytes := s_UsedBytes st - 2 ^ k\<rparr>)"
proof -
  let ?st = "st\<lparr>s_UsedBytes := s_UsedBytes st - 2 ^ k\<rparr>"
  note D = heap_rep_dest [OF rep]
  have adr: "adr ?st = adr st" by (simp add: adr_def fun_eq_iff)
  have "list_ok ?st M k'" if "5 \<le> k'" "k' \<le> 24" for k' by (rule list_ok_frame [OF D(8) [OF that]]) simp_all
  moreover have "used H M = used (insert off H) M + 2 ^ k" by (rule used_insert [OF D(1) b H])
  ultimately show ?thesis unfolding heap_rep_def using D b adr by auto
qed

text \<open>Taking a block off its free list.\<close>

lemma take_rep:
  assumes rep: "heap_rep H M st" and b: "M off = Some (k, True)"
    and fields: "s_Region st' = s_Region st" "s_UsedBytes st' = s_UsedBytes st" "s_Initialized st'"
      "length (s_FreeLists st') = 20" "\<And>j. j \<noteq> k - 5 \<Longrightarrow> s_FreeLists st' ! j = s_FreeLists st ! j"
    and hdrs: "\<And>x k' f. M x = Some (k', f) \<Longrightarrow> x \<noteq> off \<Longrightarrow> hdr_ok (header st (adr st x)) k' f \<Longrightarrow>
      hdr_ok (header st' (adr st x)) k' f"
    and links: "\<And>x k'. M x = Some (k', True) \<Longrightarrow> k' \<noteq> k \<Longrightarrow>
      NextFree (header st' (adr st x)) = NextFree (header st (adr st x))"
    and rest: "flist (h_Memory st') (s_FreeLists st' ! (k - 5)) (ys @ zs)" "distinct (ys @ adr st off # zs)"
      "set (ys @ adr st off # zs) = adr st ` free_blocks M k"
  shows "heap_rep (insert off H) (M(off \<mapsto> (k, False))) st'"
proof -
  let ?M = "M(off \<mapsto> (k, False))"
  note D = heap_rep_dest [OF rep] and B = block_bounds [OF rep b]
  have adr: "adr st' = adr st" using fields(1) by (simp add: adr_def fun_eq_iff)
  have H: "off \<notin> H" using D(7) [of off] b by auto
  have fb: "free_blocks ?M k' = (if k' = k then free_blocks M k - {off} else free_blocks M k')" for k'
    using b by (auto simp: free_blocks_def)
  have lists: "list_ok st' ?M k'" if k': "5 \<le> k'" "k' \<le> 24" for k'
  proof (cases "k' = k")
    case True
    have inj: "inj_on (adr st) (free_blocks M k)"
      using block_adr_eq [OF rep] by (auto simp: inj_on_def free_blocks_def)
    have "adr st ` (free_blocks M k - {off}) = adr st ` free_blocks M k - {adr st off}"
      using inj b by (subst inj_on_image_set_diff [of _ "free_blocks M k"]) (auto simp: free_blocks_def)
    also have "\<dots> = set (ys @ zs)" using rest(2,3) by auto
    finally show ?thesis unfolding list_ok_def True fb adr using rest(1,2) by auto
  next
    case False
    show ?thesis
    proof (rule list_ok_frame [OF D(8) [OF k']])
      show "s_FreeLists st' ! (k' - 5) = s_FreeLists st ! (k' - 5)"
        using fields(5) [of "k' - 5"] False k' B(1) by simp
    qed (use fields(1) fb [of k'] False links in simp_all)
  qed
  have "coalesced 24 ?M" using D(2) fb by (auto simp: coalesced_free split: if_split_asm)
  moreover have "tiling 5 24 ?M" by (rule tiling_flag [OF D(1) b])
  moreover have "used H M = used (insert off H) ?M" using b by (intro used_cong) auto
  moreover have "\<exists>k. ?M x = Some (k, False)" if "x \<in> insert off H" for x using that D(7) [of x] by auto
  moreover have "hdr_ok (header st' (adr st' x)) k' f" if "?M x = Some (k', f)" "x \<notin> insert off H" for x k' f
    using that hdrs [of x k' f] D(6) [of x k' f] adr by auto
  ultimately show ?thesis unfolding heap_rep_def using lists fields(1-4) D(3,9) by simp
qed

lemma pop_rep:
  assumes rep: "heap_rep H M st" and k: "5 \<le> k" "k \<le> 24" and p: "s_FreeLists st ! (k - 5) \<noteq> 0"
  obtains off where "M off = Some (k, True)" "s_FreeLists st ! (k - 5) = adr st off"
    "heap_rep (insert off H) (M(off \<mapsto> (k, False)))
       (st\<lparr>s_FreeLists := (s_FreeLists st)[k - 5 := NextFree (header st (adr st off))]\<rparr>)"
proof -
  note D = heap_rep_dest [OF rep]
  obtain xs where xs: "flist (h_Memory st) (s_FreeLists st ! (k - 5)) xs" "distinct xs"
      "set xs = adr st ` free_blocks M k" using D(8) [OF k] by (auto simp: list_ok_def)
  obtain y zs where yz: "xs = y # zs" using xs(1) p by (cases xs) simp_all
  then have zs: "xs = s_FreeLists st ! (k - 5) # zs" using xs(1) by simp
  then have "s_FreeLists st ! (k - 5) \<in> set xs" by simp
  then obtain off where off: "M off = Some (k, True)" "s_FreeLists st ! (k - 5) = adr st off"
    unfolding xs(3) by (auto simp: free_blocks_def)
  have "heap_rep (insert off H) (M(off \<mapsto> (k, False)))
       (st\<lparr>s_FreeLists := (s_FreeLists st)[k - 5 := NextFree (header st (adr st off))]\<rparr>)"
  proof (rule take_rep [OF rep off(1), where ys = "[]" and zs = zs])
    show "set ([] @ adr st off # zs) = adr st ` free_blocks M k" using xs(3) unfolding zs off(2) by simp
    show "distinct ([] @ adr st off # zs)" using xs(2) unfolding zs off(2) by simp
  qed (use xs(1) zs off(2) D(4,5) k in simp_all)
  then show ?thesis using off that by blast
qed

lemma RemoveFree_loop_found:
  assumes "flist (h_Memory st) (read_link st i link) (ys @ a # zs)" "distinct (ys @ a # zs)"
  shows "RemoveFree_loop a i link st = Some (True, SetHeader a (\<lambda>h. h\<lparr>NextFree := 0, IsFree := 0\<rparr>)
    (write_link i (if ys = [] then link else Some (last ys)) (NextFree (header st a)) st))"
  using assms
proof (induction ys arbitrary: link)
  case Nil
  then show ?case by (subst RemoveFree_loop.simps) auto
next
  case (Cons y ys)
  then have y: "read_link st i link = y" "y \<noteq> 0" "y \<noteq> a"
    and fl: "flist (h_Memory st) (read_link st i (Some y)) (ys @ a # zs)"
    by (auto simp: read_link_def)
  have "RemoveFree_loop a i link st = RemoveFree_loop a i (Some y) st"
    using y by (subst RemoveFree_loop.simps) simp
  also have "\<dots> = Some (True, SetHeader a (\<lambda>h. h\<lparr>NextFree := 0, IsFree := 0\<rparr>)
    (write_link i (if ys = [] then Some y else Some (last ys)) (NextFree (header st a)) st))"
    using Cons.prems(2) by (intro Cons.IH [OF fl]) simp
  finally show ?case by simp
qed

lemma flist_unlink:
  assumes "flist m p (ys @ a # zs)" "distinct (ys @ a # zs)"
    and "\<And>x. x \<in> set (ys @ zs) \<Longrightarrow> NextFree (ReadHeader m' x) =
      (if ys \<noteq> [] \<and> x = last ys then NextFree (ReadHeader m a) else NextFree (ReadHeader m x))"
  shows "flist m' (if ys = [] then NextFree (ReadHeader m a) else p) (ys @ zs)"
  using assms
proof (induction ys arbitrary: p)
  case Nil
  then show ?case using flist_cong [of zs m' m] by auto
next
  case (Cons y ys)
  have y: "p = y" "y \<noteq> 0" and fl: "flist m (NextFree (ReadHeader m y)) (ys @ a # zs)" using Cons.prems(1) by auto
  have d: "distinct (ys @ a # zs)" "y \<notin> set (ys @ a # zs)" using Cons.prems(2) by auto
  have "flist m' (if ys = [] then NextFree (ReadHeader m a) else NextFree (ReadHeader m y)) (ys @ zs)"
  proof (rule Cons.IH [OF fl d(1)])
    fix x
    assume x: "x \<in> set (ys @ zs)"
    then show "NextFree (ReadHeader m' x) =
      (if ys \<noteq> [] \<and> x = last ys then NextFree (ReadHeader m a) else NextFree (ReadHeader m x))"
      using Cons.prems(3) [of x] d(2) by (cases "ys = []") auto
  qed
  moreover have "NextFree (ReadHeader m' y) = (if ys = [] then NextFree (ReadHeader m a) else NextFree (ReadHeader m y))"
    using Cons.prems(3) [of y] d(2) last_in_set [of ys] by auto
  ultimately show ?case using y by simp
qed

section \<open>What the allocator writes\<close>

definition spare :: "nat set \<Rightarrow> blocks \<Rightarrow> nat set" where
  "spare H M = {x. \<exists>off k f. M off = Some (k, f) \<and> (f \<or> off \<in> H) \<and> off \<le> x \<and> x < off + 2 ^ k}"

lemma spareI: "M off = Some (k, f) \<Longrightarrow> f \<or> off \<in> H \<Longrightarrow> off \<le> x \<Longrightarrow> x < off + 2 ^ k \<Longrightarrow> x \<in> spare H M"
  by (auto simp: spare_def)

lemma spare_flag:
  assumes "M off = Some (k, f)" "f \<or> off \<in> H" "\<And>x. x \<in> H' \<Longrightarrow> x = off \<or> x \<in> H"
  shows "spare H' (M(off \<mapsto> (k, g))) \<subseteq> spare H M"
proof
  fix x
  assume "x \<in> spare H' (M(off \<mapsto> (k, g)))"
  then obtain y j h where y: "(M(off \<mapsto> (k, g))) y = Some (j, h)" "h \<or> y \<in> H'" "y \<le> x" "x < y + 2 ^ j"
    by (auto simp: spare_def)
  then show "x \<in> spare H M"
    using assms(1,2) assms(3) [of y] by (cases "y = off") (auto intro: spareI)
qed

definition writes :: "nat set \<Rightarrow> heap \<Rightarrow> heap \<Rightarrow> bool" where
  "writes S st st' \<longleftrightarrow> s_Region st' = s_Region st \<and> h_Frames st' = h_Frames st \<and>
     (\<forall>x. h_Memory st' x \<noteq> h_Memory st x \<longrightarrow> (\<exists>y \<in> S. x = adr st y))"

lemma writes_trans: "writes S a b \<Longrightarrow> writes S b c \<Longrightarrow> writes S a c"
  by (auto simp: writes_def adr_def) metis

lemma writes_mono: "writes S a b \<Longrightarrow> S \<subseteq> S' \<Longrightarrow> writes S' a b"
  unfolding writes_def by blast

lemma writes_refl: "h_Memory st' = h_Memory st \<Longrightarrow> s_Region st' = s_Region st \<Longrightarrow> h_Frames st' = h_Frames st \<Longrightarrow>
    writes S st st'"
  by (simp add: writes_def)

lemma writes_SetHeader:
  assumes "{off..<off + 16} \<subseteq> S"
  shows "writes S st (SetHeader (adr st off) f st)"
  unfolding writes_def
proof (intro conjI allI impI)
  fix x
  assume "h_Memory (SetHeader (adr st off) f st) x \<noteq> h_Memory st x"
  then have lt: "x - adr st off < 16" using Write_outside [of x "adr st off"] by (auto simp: SetHeader_def)
  have "x = adr st (off + unat (x - adr st off))" by (simp add: adr_def)
  moreover have "off + unat (x - adr st off) \<in> S" using assms lt by (auto simp: word_less_nat_alt)
  ultimately show "\<exists>y \<in> S. x = adr st y" by blast
qed (simp_all add: SetHeader_def)

lemma spare_header:
  assumes "heap_rep H M st" "M off = Some (k, f)" "f \<or> off \<in> H"
  shows "{off..<off + 16} \<subseteq> spare H M"
proof -
  have "(2 :: nat) ^ 5 \<le> 2 ^ k" using block_bounds(1) [OF assms(1,2)] by (rule power_increasing) simp
  then show ?thesis using assms(2,3) by (force simp: spare_def)
qed

lemma PushFree_writes:
  assumes "{off..<off + 16} \<subseteq> S"
  shows "writes S st (PushFree (adr st off) k st)"
proof -
  have "h_Memory (PushFree (adr st off) k st) = h_Memory (SetHeader (adr st off) (\<lambda>h. h\<lparr>Magic := BLOCK_MAGIC,
      Order := k, IsFree := 1, NextFree := s_FreeLists st ! IndexOf k\<rparr>) st)"
    by (simp add: PushFree_def Let_def)
  then show ?thesis using writes_SetHeader [OF assms, of st] by (simp add: writes_def PushFree_def Let_def)
qed

lemma RemoveFree_rep:
  assumes rep: "heap_rep H M st" and b: "M off = Some (k, True)"
  obtains st' where "RemoveFree (adr st off) (of_nat k) st = Some (True, st')"
    "heap_rep (insert off H) (M(off \<mapsto> (k, False))) st'" "writes (spare H M) st st'"
proof -
  let ?a = "adr st off"
  note D = heap_rep_dest [OF rep] and B = block_bounds [OF rep b]
  have idx: "IndexOf (of_nat k) = k - 5" by (rule IndexOf_nat [OF B(2)])
  obtain xs where xs: "flist (h_Memory st) (s_FreeLists st ! (k - 5)) xs" "distinct xs"
      "set xs = adr st ` free_blocks M k" using D(8) [OF B(1,2)] by (auto simp: list_ok_def)
  have "?a \<in> set xs" unfolding xs(3) using b by (simp add: free_blocks_def)
  then obtain ys zs where yz: "xs = ys @ ?a # zs" by (auto simp: in_set_conv_decomp)
  have f: "flist (h_Memory st) (s_FreeLists st ! (k - 5)) (ys @ ?a # zs)" "distinct (ys @ ?a # zs)"
    using xs(1,2) unfolding yz by blast+
  let ?fa = "\<lambda>h. h\<lparr>NextFree := 0, IsFree := 0\<rparr>" and ?n = "NextFree (header st ?a)"
  define st1 where "st1 = write_link (k - 5) (if ys = [] then None else Some (last ys)) ?n st"
  define st' where "st' = SetHeader ?a ?fa st1"
  have R: "RemoveFree ?a (of_nat k) st = Some (True, st')"
    unfolding RemoveFree_def idx st'_def st1_def
    using f by (intro RemoveFree_loop_found) (simp_all only: read_link_def option.case)
  have listed: "\<exists>x. M x = Some (k, True) \<and> y = adr st x" if "y \<in> set xs" for y
    using that unfolding xs(3) by (auto simp: free_blocks_def)
  have gr: "granule y" if "y \<in> set xs" for y using listed [OF that] block_bounds(7) [OF rep] by blast
  have last: "last ys \<in> set xs" "last ys \<noteq> ?a" if "ys \<noteq> []"
    using last_in_set [OF that] xs(2) yz by auto
  have h1: "header st1 y = (if ys \<noteq> [] \<and> y = last ys then (header st y)\<lparr>NextFree := ?n\<rparr> else header st y)"
    if "granule y" for y
    using that gr last by (auto simp: st1_def write_link_def header_SetHeader)
  have h': "header st' y = (if ys \<noteq> [] \<and> y = last ys then (header st y)\<lparr>NextFree := ?n\<rparr> else header st y)"
    if "granule y" "y \<noteq> ?a" for y
    using that h1 [of y] B(7) by (simp add: st'_def header_SetHeader(2))
  have fields: "s_Region st' = s_Region st" "s_UsedBytes st' = s_UsedBytes st" "s_Initialized st'"
      "h_Frames st' = h_Frames st" "s_FreeLists st' = (if ys = [] then (s_FreeLists st)[k - 5 := ?n] else s_FreeLists st)"
    using D(5) by (simp_all add: st'_def st1_def write_link_def split: option.split)
  have rep': "heap_rep (insert off H) (M(off \<mapsto> (k, False))) st'"
  proof (rule take_rep [OF rep b, where ys = ys and zs = zs])
    show "distinct (ys @ ?a # zs)" "set (ys @ ?a # zs) = adr st ` free_blocks M k" using xs(2,3) yz by simp_all
    have "flist (h_Memory st') (if ys = [] then ?n else s_FreeLists st ! (k - 5)) (ys @ zs)"
    proof (rule flist_unlink)
      show "flist (h_Memory st) (s_FreeLists st ! (k - 5)) (ys @ ?a # zs)" "distinct (ys @ ?a # zs)"
        by (rule f)+
      fix x
      assume "x \<in> set (ys @ zs)"
      then have "granule x" "x \<noteq> ?a" using gr [of x] xs(2) yz by auto
      from h' [OF this] show "NextFree (header st' x) =
        (if ys \<noteq> [] \<and> x = last ys then ?n else NextFree (header st x))" by simp
    qed
    then show "flist (h_Memory st') (s_FreeLists st' ! (k - 5)) (ys @ zs)"
      using fields(5) D(4) B(1,2) by (cases "ys = []") simp_all
    fix x k' f
    assume x: "M x = Some (k', f)" "x \<noteq> off" "hdr_ok (header st (adr st x)) k' f"
    have "adr st x \<noteq> ?a" using block_adr_eq [OF rep x(1) b] x(2) by simp
    from h' [OF block_bounds(7) [OF rep x(1)] this] show "hdr_ok (header st' (adr st x)) k' f"
      using x(3) hdr_ok_NextFree by (cases "ys \<noteq> [] \<and> adr st x = last ys") simp_all
  next
    fix x k'
    assume x: "M x = Some (k', True)" "k' \<noteq> k"
    have "adr st x \<noteq> y" if "y \<in> set xs" for y
      using listed [OF that] block_adr_eq [OF rep x(1)] x by force
    then have "adr st x \<noteq> ?a" "ys \<noteq> [] \<Longrightarrow> adr st x \<noteq> last ys" using last(1) yz by auto
    then show "NextFree (header st' (adr st x)) = NextFree (header st (adr st x))"
      using h' [OF block_bounds(7) [OF rep x(1)]] by (cases "ys = []") simp_all
  qed (use fields D(4) in simp_all)
  have sp: "{x..<x + 16} \<subseteq> spare H M" if "M x = Some (k, True)" for x using spare_header [OF rep that] by simp
  have "writes (spare H M) st st1"
  proof (cases "ys = []")
    case False
    obtain l where l: "M l = Some (k, True)" "last ys = adr st l" using listed [OF last(1) [OF False]] by blast
    then show ?thesis using False writes_SetHeader [OF sp [OF l(1)], of st] by (simp add: st1_def write_link_def)
  qed (simp add: st1_def write_link_def writes_def)
  moreover have "writes (spare H M) st1 st'"
  proof -
    have "adr st1 off = ?a" by (simp add: adr_def st1_def write_link_def split: option.split)
    then show ?thesis using writes_SetHeader [OF sp [OF b], of st1] by (simp add: st'_def)
  qed
  ultimately have "writes (spare H M) st st'" by (rule writes_trans)
  then show ?thesis using that R rep' by blast
qed

section \<open>The loops of the allocator\<close>

definition live :: "nat set \<Rightarrow> blocks \<Rightarrow> (nat \<times> nat) set" where
  "live H M = {(off, k). off \<notin> H \<and> M off = Some (k, False)}"

definition evolves :: "nat set \<Rightarrow> blocks \<Rightarrow> heap \<Rightarrow> nat set \<Rightarrow> blocks \<Rightarrow> heap \<Rightarrow> bool" where
  "evolves H M st H' M' st' \<longleftrightarrow> heap_rep H' M' st' \<and> live H' M' = live H M \<and> spare H' M' \<subseteq> spare H M \<and>
     writes (spare H M) st st'"

lemma evolves_trans: "evolves H M st H1 M1 st1 \<Longrightarrow> evolves H1 M1 st1 H2 M2 st2 \<Longrightarrow> evolves H M st H2 M2 st2"
  unfolding evolves_def by (metis order_trans writes_mono writes_trans)

lemma evolves_adr: "evolves H M st H' M' st' \<Longrightarrow> adr st' = adr st"
  by (simp add: evolves_def writes_def adr_def fun_eq_iff)

lemma evolves_push:
  assumes "heap_rep (insert off H) M st" "M off = Some (k, False)" "off \<notin> H"
    and "k < 24 \<Longrightarrow> M (buddy off k) \<noteq> Some (k, True)"
  shows "evolves (insert off H) M st H (M(off \<mapsto> (k, True))) (PushFree (adr st off) (of_nat k) st)"
proof -
  have "live H (M(off \<mapsto> (k, True))) = live (insert off H) M" by (auto simp: live_def split: if_split_asm)
  moreover have "spare H (M(off \<mapsto> (k, True))) \<subseteq> spare (insert off H) M"
    using assms(2) by (intro spare_flag [where f = False]) auto
  moreover have "writes (spare (insert off H) M) st (PushFree (adr st off) (of_nat k) st)"
    using spare_header [OF assms(1,2)] by (intro PushFree_writes) simp
  ultimately show ?thesis using PushFree_rep [OF assms] by (simp add: evolves_def)
qed

lemma evolves_remove:
  assumes "heap_rep H M st" "M off = Some (k, True)"
  obtains st' where "RemoveFree (adr st off) (of_nat k) st = Some (True, st')"
    "evolves H M st (insert off H) (M(off \<mapsto> (k, False))) st'"
proof -
  obtain st' where st': "RemoveFree (adr st off) (of_nat k) st = Some (True, st')"
    "heap_rep (insert off H) (M(off \<mapsto> (k, False))) st'" "writes (spare H M) st st'"
    by (rule RemoveFree_rep [OF assms])
  moreover have "live (insert off H) (M(off \<mapsto> (k, False))) = live H M"
    using assms(2) by (auto simp: live_def)
  moreover have "spare (insert off H) (M(off \<mapsto> (k, False))) \<subseteq> spare H M"
    using assms(2) by (intro spare_flag [where f = True]) auto
  ultimately show ?thesis using that by (simp add: evolves_def)
qed

lemma evolves_split:
  assumes "heap_rep H M st" "M off = Some (Suc k, False)" "off \<in> H" "5 \<le> k"
  shows "evolves H M st (insert (off + 2 ^ k) H) (M(off \<mapsto> (k, False), off + 2 ^ k \<mapsto> (k, False))) st"
proof -
  let ?M = "M(off \<mapsto> (k, False), off + 2 ^ k \<mapsto> (k, False))"
  have up: "M (off + 2 ^ k) = None" by (rule tiling_upper_free [OF heap_rep_dest(1) [OF assms(1)] assms(2)])
  have "live (insert (off + 2 ^ k) H) ?M = live H M" using assms(3) up by (auto simp: live_def split: if_split_asm)
  moreover have "spare (insert (off + 2 ^ k) H) ?M \<subseteq> spare H M"
  proof
    fix x
    assume "x \<in> spare (insert (off + 2 ^ k) H) ?M"
    then obtain y k' f where y: "?M y = Some (k', f)" "f \<or> y \<in> insert (off + 2 ^ k) H" "y \<le> x" "x < y + 2 ^ k'"
      by (auto simp: spare_def)
    show "x \<in> spare H M"
    proof (cases "y = off \<or> y = off + 2 ^ k")
      case True
      then have "off \<le> x" "x < off + 2 ^ Suc k" using y by (auto split: if_split_asm)
      then show ?thesis using assms(2,3) unfolding spare_def by blast
    next
      case False
      then show ?thesis using y unfolding spare_def by auto
    qed
  qed
  ultimately show ?thesis using split_rep [OF assms] by (simp add: evolves_def writes_refl)
qed

lemma evolves_merge:
  assumes "heap_rep (insert (buddy off k) (insert off H)) M st" "k < 24"
    and "M off = Some (k, False)" "M (buddy off k) = Some (k, False)" "off \<notin> H" "buddy off k \<notin> H"
  shows "evolves (insert (buddy off k) (insert off H)) M st (insert (min off (buddy off k)) H)
    (M(max off (buddy off k) := None, min off (buddy off k) \<mapsto> (Suc k, False))) st"
proof -
  let ?lo = "min off (buddy off k)" and ?hi = "max off (buddy off k)"
  let ?M = "M(?hi := None, ?lo \<mapsto> (Suc k, False))" and ?H = "insert (buddy off k) (insert off H)"
  note F = buddy_facts [OF block_bounds(6) [OF assms(1,3)]]
  have lh: "x = ?lo \<or> x = ?hi \<longleftrightarrow> x = off \<or> x = buddy off k" for x by (auto simp: min_def max_def)
  have same: "?M x = M x" if "x \<noteq> off" "x \<noteq> buddy off k" for x using that lh [of x] by auto
  have "(x, j) \<in> live (insert ?lo H) ?M \<longleftrightarrow> (x, j) \<in> live ?H M" for x j
    using same [of x] lh [of x] by (cases "x = off \<or> x = buddy off k") (auto simp: live_def)
  moreover have "x \<in> spare ?H M" if x: "x \<in> spare (insert ?lo H) ?M" for x
  proof -
    obtain y k' f where y: "?M y = Some (k', f)" "f \<or> y \<in> insert ?lo H" "y \<le> x" "x < y + 2 ^ k'"
      using x by (auto simp: spare_def)
    show ?thesis
    proof (cases "y = off \<or> y = buddy off k")
      case True
      then have "y = ?lo" "k' = Suc k" using y(1) lh [of y] by (auto split: if_split_asm)
      then have "?lo \<le> x \<and> x < ?lo + 2 ^ k \<or> ?hi \<le> x \<and> x < ?hi + 2 ^ k" using y(3,4) F(5) by auto
      then show ?thesis using assms(3,4) unfolding spare_def by (auto simp: min_def max_def split: if_split_asm)
    next
      case False
      then have "M y = Some (k', f)" "f \<or> y \<in> ?H" using y(1,2) same [of y] lh [of y] by auto
      then show ?thesis using y(3,4) by (rule spareI)
    qed
  qed
  ultimately show ?thesis
    using merge_rep [OF assms] by (auto simp: evolves_def writes_refl)
qed

end
