(* ===== verification/HK_HeapSafety.thy ===== *)
theory HK_HeapSafety
  imports HK_HeapInv
begin

text \<open>
  \<open>Allocate\<close>, \<open>Free\<close> and \<open>Reallocate\<close> on the representation, and the properties of the heap.
\<close>

section \<open>Loops\<close>

lemma xor_buddy:
  assumes "2 ^ k dvd off" "off < 2 ^ 24" "k < 24"
  shows "(of_nat off :: u64) XOR push_bit k 1 = of_nat (buddy off k)"
proof -
  have bit: "bit (of_nat off :: u64) k \<longleftrightarrow> odd (off div 2 ^ k)"
    using assms(3) bit_iff_odd [of off k] by (simp add: bit_of_nat_iff)
  have "(of_nat off :: u64) XOR push_bit k 1 = flip_bit k (of_nat off)" by (simp add: flip_bit_eq_xor)
  also have "\<dots> = of_nat (buddy off k)"
  proof (cases "even (off div 2 ^ k)")
    case True
    then show ?thesis using bit by (simp add: flip_bit_eq_if set_bit_eq buddy_def)
  next
    case False
    then have "2 ^ k \<le> off" by (metis even_zero not_le div_less)
    then show ?thesis using bit False by (simp add: flip_bit_eq_if unset_bit_eq buddy_def of_nat_diff)
  qed
  finally show ?thesis .
qed

lemma SplitDown_evolves:
  assumes "heap_rep {off} M st" "M off = Some (k, False)" "5 \<le> w" "w \<le> k" "k \<le> 24"
  obtains M' where "evolves {off} M st {off} M' (SplitDown (adr st off) (of_nat w) (of_nat k) st)"
    "M' off = Some (w, False)"
proof -
  have "\<exists>M'. evolves {off} M st {off} M' (SplitDown (adr st off) (of_nat w) (of_nat k) st) \<and> M' off = Some (w, False)"
    using assms(4,5,1,2)
  proof (induction k arbitrary: M st rule: dec_induct)
    case base
    then show ?case by (subst SplitDown.simps) (auto simp: evolves_def writes_refl intro!: exI [of _ M])
  next
    case (step j)
    have j: "unat (of_nat (Suc j) :: u8) = Suc j" "unat (of_nat j :: u8) = j" "unat (of_nat w :: u8) = w"
      by (rule order_nat; use step.hyps step.prems(1) in simp)+
    have pred: "of_nat (Suc j) - 1 = (of_nat j :: u8)" by simp
    let ?up = "off + 2 ^ j"
    let ?M1 = "M(off \<mapsto> (j, False), ?up \<mapsto> (j, False))" and ?st2 = "PushFree (adr st ?up) (of_nat j) st"
    have at: "BlockAt st (OffsetOf st (adr st off) + 2 ^ j) = adr st ?up"
      by (simp add: BlockAt_def OffsetOf_def adr_def)
    have eq: "SplitDown (adr st off) (of_nat w) (of_nat (Suc j)) st = SplitDown (adr st off) (of_nat w) (of_nat j) ?st2"
      using step.hyps j by (subst SplitDown.simps) (simp add: word_less_nat_alt pred at del: of_nat_Suc)
    have 5: "5 \<le> j" using step.hyps assms(3) by simp
    have E1: "evolves {off} M st {?up, off} ?M1 st"
      by (rule evolves_split [OF step.prems(2,3) _ 5]) simp
    then have rep1: "heap_rep {?up, off} ?M1 st" by (simp add: evolves_def)
    obtain q where q: "off = 2 ^ Suc j * q" using block_bounds(6) [OF step.prems(2,3)] by (auto elim: dvdE)
    have "?up = 2 ^ j * (2 * q + 1)" using q by simp
    then have "?up div 2 ^ j = 2 * q + 1" by simp
    then have bud: "buddy ?up j = off" by (simp add: buddy_def)
    have E2: "evolves {?up, off} ?M1 st {off} (?M1(?up \<mapsto> (j, True))) ?st2"
      using bud by (intro evolves_push [OF rep1]) auto
    then have rep2: "heap_rep {off} (?M1(?up \<mapsto> (j, True))) ?st2" by (simp add: evolves_def)
    have j24: "j \<le> 24" and Mj: "(?M1(?up \<mapsto> (j, True))) off = Some (j, False)" using step.prems(1) by simp_all
    obtain M' where M': "evolves {off} (?M1(?up \<mapsto> (j, True))) ?st2 {off} M'
        (SplitDown (adr ?st2 off) (of_nat w) (of_nat j) ?st2)" "M' off = Some (w, False)"
      using step.IH [OF j24 rep2 Mj] by blast
    have "adr ?st2 off = adr st off" using evolves_adr [OF E2] by simp
    then show ?case using evolves_trans [OF evolves_trans [OF E1 E2] M'(1)] M'(2) unfolding eq by metis
  qed
  then show ?thesis using that by blast
qed

lemma of_nat_order_eq: "j \<le> 24 \<Longrightarrow> k \<le> 24 \<Longrightarrow> (of_nat j :: u8) = of_nat k \<longleftrightarrow> j = k"
  using order_nat [of j] order_nat [of k] by metis

lemma offset_min:
  "a < 2 ^ 24 \<Longrightarrow> b < 2 ^ 24 \<Longrightarrow> (if (of_nat a :: u64) < of_nat b then of_nat a else of_nat b) = (of_nat (min a b) :: u64)"
  by (auto simp: word_less_nat_alt unat_of_nat_small min_def)

lemma MergeUp_evolves:
  assumes "heap_rep {off} M st" "M off = Some (k, False)"
  shows "\<exists>off' k' M' st'. MergeUp (of_nat off) (of_nat k) st = Some (of_nat off', of_nat k', st') \<and>
    evolves {off} M st {off'} M' st' \<and> M' off' = Some (k', False) \<and>
    (k' < 24 \<longrightarrow> M' (buddy off' k') \<noteq> Some (k', True))"
  using assms
proof (induction "24 - k" arbitrary: off k M st)
  case 0
  then have "k = 24" using block_bounds(2) [OF 0(2,3)] by simp
  then have "MergeUp (of_nat off) (of_nat k) st = Some (of_nat off, of_nat k, st)"
    by (subst MergeUp.simps) (simp add: word_less_nat_alt)
  then show ?case using 0 \<open>k = 24\<close>
    by (intro exI [of _ off] exI [of _ k] exI [of _ M] exI [of _ st]) (simp add: evolves_def writes_refl)
next
  case (Suc n)
  note rep = Suc.prems(1) and b = Suc.prems(2)
  let ?b = "buddy off k"
  have k: "k < 24" using Suc.hyps(2) by simp
  note D = heap_rep_dest [OF rep] and B = block_bounds [OF rep b]
  obtain j g where j: "M ?b = Some (j, g)" "j \<le> k" by (rule tiling_buddy [OF D(1) b k])
  have ne: "?b \<noteq> off" by (rule buddy_facts(3) [OF B(6)])
  have hdr: "hdr_ok (header st (adr st ?b)) j g" using D(6) [OF j(1)] ne by simp
  have lt: "(of_nat k :: u8) < MAX_ORDER" using k by (simp add: word_less_nat_alt order_nat)
  have xor: "(of_nat off :: u64) XOR push_bit (unat (of_nat k :: u8)) 1 = of_nat ?b"
    using xor_buddy [OF B(6,3) k] k by (simp add: order_nat)
  have at: "BlockAt st (of_nat ?b) = adr st ?b" by (simp add: BlockAt_def adr_def)
  have test: "Magic (header st (adr st ?b)) \<noteq> BLOCK_MAGIC \<or> IsFree (header st (adr st ?b)) = 0 \<or>
      Order (header st (adr st ?b)) \<noteq> of_nat k \<longleftrightarrow> \<not> (g \<and> j = k)"
    using hdr j(2) k by (auto simp: hdr_ok_def of_nat_order_eq split: if_split_asm)
  show ?case
  proof (cases "g \<and> j = k")
    case False
    then have "MergeUp (of_nat off) (of_nat k) st = Some (of_nat off, of_nat k, st)"
      using test by (subst MergeUp.simps) (simp only: lt xor at Let_def if_True if_False simp_thms)
    then show ?thesis using rep b j(1) False
      by (intro exI [of _ off] exI [of _ k] exI [of _ M] exI [of _ st]) (auto simp: evolves_def writes_refl)
  next
    case True
    let ?lo = "min off ?b" and ?M1 = "M(?b \<mapsto> (k, False))"
    let ?M2 = "?M1(max off ?b := None, ?lo \<mapsto> (Suc k, False))"
    have free: "M ?b = Some (k, True)" using j(1) True by simp
    obtain st1 where R: "RemoveFree (adr st ?b) (of_nat k) st = Some (True, st1)"
        and E1: "evolves {off} M st {?b, off} ?M1 st1"
      by (rule evolves_remove [OF rep free])
    then have rep1: "heap_rep {?b, off} ?M1 st1" by (simp add: evolves_def)
    have E2: "evolves {?b, off} ?M1 st1 {?lo} ?M2 st1"
      using ne b by (intro evolves_merge [OF rep1 k]) simp_all
    then have rep2: "heap_rep {?lo} ?M2 st1" by (simp add: evolves_def)
    have M2: "?M2 ?lo = Some (Suc k, False)" by simp
    have n: "n = 24 - Suc k" using Suc.hyps(2) by simp
    obtain off' k' M' st' where IH: "MergeUp (of_nat ?lo) (of_nat (Suc k)) st1 = Some (of_nat off', of_nat k', st')"
        "evolves {?lo} ?M2 st1 {off'} M' st'" "M' off' = Some (k', False)"
        "k' < 24 \<longrightarrow> M' (buddy off' k') \<noteq> Some (k', True)"
      using Suc.hyps(1) [OF n rep2 M2] by blast
    have "?b < 2 ^ 24" by (rule block_bounds(3) [OF rep free])
    then have mn: "(if (of_nat off :: u64) < of_nat ?b then of_nat off else of_nat ?b) = (of_nat ?lo :: u64)"
      using offset_min [OF B(3)] by blast
    have suc: "(of_nat k :: u8) + 1 = of_nat (Suc k)" by simp
    have "MergeUp (of_nat off) (of_nat k) st = MergeUp (of_nat ?lo) (of_nat (Suc k)) st1"
      using test True R
      by (subst MergeUp.simps) (simp only: lt xor at Let_def mn suc if_True if_False option.case prod.case
          not_True_eq_False simp_thms)
    then have "MergeUp (of_nat off) (of_nat k) st = Some (of_nat off', of_nat k', st')" using IH(1) by simp
    moreover have "evolves {off} M st {off'} M' st'" by (rule evolves_trans [OF evolves_trans [OF E1 E2] IH(2)])
    ultimately show ?thesis using IH(3,4) by blast
  qed
qed

lemma shift_nat: "k \<le> 24 \<Longrightarrow> unat (push_bit (unat (of_nat k :: u8)) 1 :: u64) = 2 ^ k"
proof -
  assume k: "k \<le> 24"
  then have "(2 :: nat) ^ k < 2 ^ 64" by (intro power_strict_increasing) simp_all
  then have "unat (of_nat (2 ^ k) :: u64) = 2 ^ k" by (intro unat_of_nat_small) simp
  then show ?thesis using k by (simp add: order_nat)
qed

definition order_for :: "nat \<Rightarrow> nat" where
  "order_for n = (LEAST k. 5 \<le> k \<and> n \<le> 2 ^ k)"

lemma OrderFor_loop_spec:
  assumes "5 \<le> k" "k \<le> 24" "unat n \<le> 2 ^ 24" "\<And>j. 5 \<le> j \<Longrightarrow> j < k \<Longrightarrow> 2 ^ j < unat n"
  shows "OrderFor_loop n (of_nat k) = of_nat (order_for (unat n)) \<and> order_for (unat n) \<le> 24"
  using assms
proof (induction "24 - k" arbitrary: k)
  case 0
  then have "k = 24" by simp
  moreover have "order_for (unat n) = 24"
    unfolding order_for_def
  proof (rule Least_equality)
    fix y
    assume y: "5 \<le> y \<and> unat n \<le> 2 ^ y"
    show "24 \<le> y"
    proof (rule ccontr)
      assume "\<not> 24 \<le> y"
      then show False using 0(5) [of y] y \<open>k = 24\<close> by simp
    qed
  qed (use 0 in simp)
  ultimately show ?case by (subst OrderFor_loop.simps) (simp add: word_less_nat_alt)
next
  case (Suc d)
  then have k: "k < 24" by simp
  have c: "push_bit (unat (of_nat k :: u8)) 1 < n \<and> (of_nat k :: u8) < MAX_ORDER \<longleftrightarrow> 2 ^ k < unat n"
    using k shift_nat [of k] by (simp add: word_less_nat_alt order_nat)
  show ?case
  proof (cases "2 ^ k < unat n")
    case True
    have "OrderFor_loop n (of_nat k) = OrderFor_loop n (of_nat k + 1)"
      using True c by (subst OrderFor_loop.simps) (simp only: if_True)
    also have "(of_nat k :: u8) + 1 = of_nat (Suc k)" by simp
    finally have eq: "OrderFor_loop n (of_nat k) = OrderFor_loop n (of_nat (Suc k))" .
    have "OrderFor_loop n (of_nat (Suc k)) = of_nat (order_for (unat n)) \<and> order_for (unat n) \<le> 24"
      using Suc.hyps(2) Suc.prems True k by (intro Suc.hyps(1)) (auto simp: less_Suc_eq)
    then show ?thesis unfolding eq .
  next
    case False
    then have "OrderFor_loop n (of_nat k) = of_nat k" using c by (subst OrderFor_loop.simps) (simp only: if_False)
    moreover have "order_for (unat n) = k"
      unfolding order_for_def
    proof (rule Least_equality)
      fix y
      assume y: "5 \<le> y \<and> unat n \<le> 2 ^ y"
      show "k \<le> y"
      proof (rule ccontr)
        assume "\<not> k \<le> y"
        then show False using Suc.prems(4) [of y] y by simp
      qed
    qed (use False Suc.prems in simp)
    ultimately show ?thesis using k by simp
  qed
qed

lemma OrderFor_spec:
  assumes "unat n \<le> 2 ^ 24"
  shows "OrderFor n = of_nat (order_for (unat n))" "5 \<le> order_for (unat n)" "order_for (unat n) \<le> 24"
    "unat n \<le> 2 ^ order_for (unat n)"
proof -
  have "MIN_ORDER = of_nat 5" by (simp add: config_defs)
  then show "OrderFor n = of_nat (order_for (unat n))" "order_for (unat n) \<le> 24"
    using OrderFor_loop_spec [of 5 n] assms by (simp_all add: OrderFor_def)
  have "5 \<le> order_for (unat n) \<and> unat n \<le> 2 ^ order_for (unat n)"
    unfolding order_for_def by (rule LeastI [of _ 24]) (use assms in simp)
  then show "5 \<le> order_for (unat n)" "unat n \<le> 2 ^ order_for (unat n)" by auto
qed

lemma FindOrder_spec:
  assumes "5 \<le> k" "k \<le> 25"
  shows "\<exists>r. FindOrder st (of_nat k) = of_nat r \<and> k \<le> r \<and> r \<le> 25 \<and>
    (\<forall>j. k \<le> j \<and> j < r \<longrightarrow> s_FreeLists st ! (j - 5) = 0) \<and> (r \<le> 24 \<longrightarrow> s_FreeLists st ! (r - 5) \<noteq> 0)"
  using assms
proof (induction "25 - k" arbitrary: k)
  case 0
  then have "k = 25" by simp
  then show ?case
    by (subst FindOrder.simps) (auto simp: word_le_nat_alt intro!: exI [of _ 25])
next
  case (Suc d)
  then have k: "k \<le> 24" by simp
  have c: "(of_nat k :: u8) \<le> MAX_ORDER \<and> s_FreeLists st ! IndexOf (of_nat k) = 0 \<longleftrightarrow> s_FreeLists st ! (k - 5) = 0"
    using k by (simp add: word_le_nat_alt order_nat IndexOf_nat)
  show ?case
  proof (cases "s_FreeLists st ! (k - 5) = 0")
    case True
    have "FindOrder st (of_nat k) = FindOrder st (of_nat k + 1)"
      using True c by (subst FindOrder.simps) simp
    also have "(of_nat k :: u8) + 1 = of_nat (Suc k)" by simp
    finally have eq: "FindOrder st (of_nat k) = FindOrder st (of_nat (Suc k))" .
    have d: "d = 25 - Suc k" "5 \<le> Suc k" "Suc k \<le> 25" using Suc.hyps(2) Suc.prems k by simp_all
    obtain r where r: "FindOrder st (of_nat (Suc k)) = of_nat r" "Suc k \<le> r" "r \<le> 25"
        "\<forall>j. Suc k \<le> j \<and> j < r \<longrightarrow> s_FreeLists st ! (j - 5) = 0" "r \<le> 24 \<longrightarrow> s_FreeLists st ! (r - 5) \<noteq> 0"
      using Suc.hyps(1) [OF d] by blast
    have "s_FreeLists st ! (j - 5) = 0" if "k \<le> j" "j < r" for j
      using that True r(4) by (cases "j = k") auto
    then show ?thesis unfolding eq using r by (intro exI [of _ r]) auto
  next
    case False
    then have "FindOrder st (of_nat k) = of_nat k" using c by (subst FindOrder.simps) auto
    then show ?thesis using False k by (intro exI [of _ k]) auto
  qed
qed

lemma free_list_empty:
  assumes "heap_rep H M st" "5 \<le> k" "k \<le> 24"
  shows "s_FreeLists st ! (k - 5) = 0 \<longleftrightarrow> free_blocks M k = {}"
proof -
  obtain xs where xs: "flist (h_Memory st) (s_FreeLists st ! (k - 5)) xs" "set xs = adr st ` free_blocks M k"
    using heap_rep_dest(8) [OF assms] by (auto simp: list_ok_def)
  have "s_FreeLists st ! (k - 5) = 0 \<longleftrightarrow> xs = []" using xs(1) by (cases xs) auto
  then show ?thesis using xs(2) by auto
qed

section \<open>Allocate and Free\<close>

lemma evolves_pop:
  assumes rep: "heap_rep H M st" and k: "5 \<le> k" "k \<le> 24" and p: "s_FreeLists st ! (k - 5) \<noteq> 0"
  obtains off where "M off = Some (k, True)" "s_FreeLists st ! (k - 5) = adr st off"
    "evolves H M st (insert off H) (M(off \<mapsto> (k, False)))
       (st\<lparr>s_FreeLists := (s_FreeLists st)[k - 5 := NextFree (header st (adr st off))]\<rparr>)"
proof -
  obtain off where off: "M off = Some (k, True)" "s_FreeLists st ! (k - 5) = adr st off"
    and rep': "heap_rep (insert off H) (M(off \<mapsto> (k, False)))
       (st\<lparr>s_FreeLists := (s_FreeLists st)[k - 5 := NextFree (header st (adr st off))]\<rparr>)"
    by (rule pop_rep [OF assms])
  have "live (insert off H) (M(off \<mapsto> (k, False))) = live H M" using off(1) by (auto simp: live_def)
  moreover have "spare (insert off H) (M(off \<mapsto> (k, False))) \<subseteq> spare H M"
    using off(1) by (intro spare_flag [where f = True]) auto
  ultimately show ?thesis using that off rep' by (simp add: evolves_def writes_refl)
qed

lemma block_in_spare: "M off = Some (k, False) \<Longrightarrow> {off..<off + 2 ^ k} \<subseteq> spare (insert off H) M"
  by (auto intro: spareI)

lemma Heap_Allocate_cases:
  assumes rep: "heap_rep {} M st" and n: "n \<noteq> 0" "unat (n + SIZEOF_BlockHeader) \<le> 2 ^ 24"
  defines "w \<equiv> order_for (unat (n + SIZEOF_BlockHeader))"
  obtains (none) "Heap_Allocate n st = Ok (0, st)" "\<And>k. w \<le> k \<Longrightarrow> k \<le> 24 \<Longrightarrow> free_blocks M k = {}"
  | (found) off M' st' where "Heap_Allocate n st = Ok (adr st off + 16, st')" "heap_rep {} M' st'"
      "live {} M' = insert (off, w) (live {} M)" "(off, w) \<notin> live {} M"
      "{off..<off + 2 ^ w} \<subseteq> spare {} M" "spare {} M' \<subseteq> spare {} M" "writes (spare {} M) st st'"
proof -
  let ?n = "n + SIZEOF_BlockHeader"
  note O = OrderFor_spec [OF n(2), folded w_def]
  have le: "\<not> ?n > HEAP_SIZE" using n(2) by (simp add: word_less_nat_alt HEAP_SIZE_def)
  have n0: "n \<noteq> 0" by (rule n(1))
  obtain r where r: "FindOrder st (of_nat w) = of_nat r" "w \<le> r" "r \<le> 25"
      "\<forall>j. w \<le> j \<and> j < r \<longrightarrow> s_FreeLists st ! (j - 5) = 0" "r \<le> 24 \<longrightarrow> s_FreeLists st ! (r - 5) \<noteq> 0"
    using FindOrder_spec [of w st] O(2,3) by auto
  have init: "s_Initialized st" using rep by (simp add: heap_rep_def)
  show ?thesis
  proof (cases "r = 25")
    case True
    then have "FindOrder st (of_nat w) > MAX_ORDER" using r(1) by (simp add: word_less_nat_alt)
    then have "Heap_Allocate n st = Ok (0, st)"
      using n0 le init O(1) by (simp add: Heap_Allocate_def Let_def)
    moreover have "free_blocks M k = {}" if "w \<le> k" "k \<le> 24" for k
      using that r(4) True free_list_empty [OF rep, of k] O(2) by auto
    ultimately show ?thesis by (rule none)
  next
    case False
    then have r24: "r \<le> 24" using r(3) by simp
    have r5: "5 \<le> r" using r(2) O(2) by simp
    have p: "s_FreeLists st ! (r - 5) \<noteq> 0" using r(5) r24 by simp
    obtain off where off: "M off = Some (r, True)" "s_FreeLists st ! (r - 5) = adr st off"
      and E1: "evolves {} M st {off} (M(off \<mapsto> (r, False)))
        (st\<lparr>s_FreeLists := (s_FreeLists st)[r - 5 := NextFree (header st (adr st off))]\<rparr>)"
      (is "evolves _ _ _ _ ?M1 ?st1")
      by (rule evolves_pop [OF rep r5 r24 p])
    have rep1: "heap_rep {off} ?M1 ?st1" using E1 by (simp add: evolves_def)
    have a1: "adr ?st1 = adr st" by (rule evolves_adr [OF E1])
    obtain M2 where E2: "evolves {off} ?M1 ?st1 {off} M2 (SplitDown (adr ?st1 off) (of_nat w) (of_nat r) ?st1)"
      and M2: "M2 off = Some (w, False)"
      by (rule SplitDown_evolves [OF rep1 _ O(2) r(2) r24]) auto
    let ?st2 = "SplitDown (adr st off) (of_nat w) (of_nat r) ?st1"
    have E: "evolves {} M st {off} M2 ?st2" using evolves_trans [OF E1 E2] a1 by simp
    then have rep2: "heap_rep {off} M2 ?st2" by (simp add: evolves_def)
    have a2: "adr ?st2 off = adr st off" using evolves_adr [OF E] by simp
    let ?f = "\<lambda>h. h\<lparr>Magic := BLOCK_MAGIC, Order := of_nat w, IsFree := 0, NextFree := 0\<rparr>"
    let ?st3 = "SetHeader (adr st off) ?f ?st2"
    let ?st4 = "?st3\<lparr>s_UsedBytes := s_UsedBytes ?st2 + 2 ^ w\<rparr>"
    have rep4: "heap_rep {} M2 ?st4"
      using claim_rep [OF rep2 M2, of ?f] a2 by (simp add: hdr_ok_def)
    have w3: "writes (spare {off} M2) ?st2 ?st3"
      using writes_SetHeader [OF spare_header [OF rep2 M2], of ?st2] a2 by simp
    have "writes (spare {} M) st ?st3"
      using E w3 by (auto simp: evolves_def intro: writes_trans writes_mono)
    then have wr: "writes (spare {} M) st ?st4" by (simp add: writes_def)
    have idx: "IndexOf (of_nat r) = r - 5" by (rule IndexOf_nat [OF r24])
    have pw: "push_bit (unat (of_nat w :: u8)) 1 = (2 :: u64) ^ w" using O(3) by (simp add: order_nat)
    have nr: "\<not> FindOrder st (of_nat w) > MAX_ORDER" using r(1) r24 by (simp add: word_less_nat_alt order_nat)
    have "Heap_Allocate n st = Ok (adr st off + 16, ?st4)"
      unfolding Heap_Allocate_def Let_def O(1)
      using n0 le init nr by (simp add: r(1) idx off(2) pw SIZEOF_BlockHeader_def del: push_bit_of_1)
    moreover have "live {} M2 = insert (off, w) (live {off} M2)" using M2 by (auto simp: live_def)
    then have "live {} M2 = insert (off, w) (live {} M)" using E by (simp add: evolves_def)
    moreover have "(off, w) \<notin> live {} M" using off(1) by (simp add: live_def)
    moreover have "{off..<off + 2 ^ w} \<subseteq> spare {} M"
      using block_in_spare [of M2 off w "{}"] M2 E by (auto simp: evolves_def)
    moreover have "spare {} M2 \<subseteq> spare {} M"
    proof -
      have "spare {} M2 \<subseteq> spare {off} M2" by (auto simp: spare_def)
      then show ?thesis using E by (auto simp: evolves_def)
    qed
    ultimately show ?thesis using rep4 wr by (intro found)
  qed
qed

lemma Heap_Free_live:
  assumes rep: "heap_rep {} M st" and b: "(off, k) \<in> live {} M"
  obtains M' st' where "Heap_Free (adr st off + 16) st = Ok st'" "heap_rep {} M' st'"
    "live {} M' = live {} M - {(off, k)}" "spare {} M' \<subseteq> spare {off} M" "writes (spare {off} M) st st'"
proof -
  have M: "M off = Some (k, False)" using b by (simp add: live_def)
  note B = block_bounds [OF rep M]
  let ?st1 = "st\<lparr>s_UsedBytes := s_UsedBytes st - 2 ^ k\<rparr>"
  have rep1: "heap_rep {off} M ?st1" using unclaim_rep [OF rep M] by simp
  obtain off' k' M' st2 where U: "MergeUp (of_nat off) (of_nat k) ?st1 = Some (of_nat off', of_nat k', st2)"
      "evolves {off} M ?st1 {off'} M' st2" "M' off' = Some (k', False)"
      "k' < 24 \<longrightarrow> M' (buddy off' k') \<noteq> Some (k', True)"
    using MergeUp_evolves [OF rep1 M] by blast
  have rep2: "heap_rep {off'} M' st2" using U(2) by (simp add: evolves_def)
  let ?M = "M'(off' \<mapsto> (k', True))" and ?st = "PushFree (adr st2 off') (of_nat k') st2"
  have "evolves {off'} M' st2 {} ?M ?st" using U(3,4) by (intro evolves_push [OF rep2]) auto
  with U(2) have E: "evolves {off} M ?st1 {} ?M ?st" by (rule evolves_trans)
  have hdr: "hdr_ok (header st (adr st off)) k False" using heap_rep_dest(6) [OF rep M] by simp
  have nz: "adr st off + 16 \<noteq> 0"
  proof -
    have "(2 :: nat) ^ 5 \<le> 2 ^ k" using B(1) by (rule power_increasing) simp
    then have "unat (adr st off + 16) = unat (adr st off) + 16"
      using B(4,9) heap_rep_dest(3) [OF rep] by (subst unat_add_no_wrap) (auto simp: region_ok_def)
    then show ?thesis by (metis add_is_0 unat_0 zero_neq_numeral)
  qed
  have "Heap_Free (adr st off + 16) st = Ok ?st"
    unfolding Heap_Free_def Let_def
    using hdr nz U(1) B(2)
    by (simp add: hdr_ok_def SIZEOF_BlockHeader_def ASSERT_def OffsetOf_def BlockAt_def order_nat adr_def)
  moreover have "live {} ?M = live {} M - {(off, k)}"
  proof -
    have "live {off} M = live {} M - {(off, k)}" using M by (auto simp: live_def)
    then show ?thesis using E by (simp add: evolves_def)
  qed
  moreover have "writes (spare {off} M) st ?st"
    using E by (auto simp: evolves_def writes_def adr_def)
  ultimately show ?thesis using that E by (auto simp: evolves_def)
qed

lemma Heap_Allocate_refused:
  assumes "s_Initialized st" "n = 0 \<or> 2 ^ 24 < unat (n + SIZEOF_BlockHeader)"
  shows "Heap_Allocate n st = Ok (0, st)"
  using assms by (auto simp: Heap_Allocate_def word_less_nat_alt HEAP_SIZE_def Let_def)

section \<open>Start-up\<close>

lemma Heap_Initialize_rep:
  assumes "\<not> s_Initialized st" "frame_inv (h_Frames st)" "unat (s_FrameCount (h_Frames st)) \<le> 2 ^ 35"
    and ok: "Heap_Initialize st = Ok st'"
  shows "heap_rep {} [0 \<mapsto> (24, True)] st'"
proof -
  have sz: "HEAP_SIZE div FRAME_SIZE = 4096" by (simp add: HEAP_SIZE_def FRAME_SIZE_def KIB_def)
  obtain a fs where al: "Frame_Allocate (h_Frames st) 4096 = (a, fs)" by (cases "Frame_Allocate (h_Frames st) 4096")
  let ?R = "ToVirtual a"
  let ?st2 = "st\<lparr>h_Frames := fs, s_Region := ?R, s_FreeLists := replicate ORDER_COUNT 0\<rparr>"
  let ?st3 = "PushFree (BlockAt ?st2 0) MAX_ORDER ?st2"
  have a: "a \<noteq> 0" and st': "st' = ?st3\<lparr>s_UsedBytes := 0, s_Initialized := True\<rparr>"
    using ok assms(1) by (auto simp: Heap_Initialize_def sz al Let_def split: if_split_asm)
  have A: "block_ok (unat (s_FrameCount (h_Frames st))) a 4096"
    using frame_alloc.alloc_some [OF assms(2) al a] by simp
  have "unat a div 4096 + 4096 \<le> 0x800000000" using A assms(3) by (simp add: block_ok_def)
  moreover have al4: "unat a = 4096 * (unat a div 4096)" using A by (auto simp: block_ok_def)
  ultimately have hi: "unat a + 0x1000000 \<le> 0x800000000000" by linarith
  have uR: "unat ?R = unat a + 0xFFFF800000000000"
    using hi by (simp add: ToVirtual_def DIRECT_MAP_BASE_def) (subst unat_add_no_wrap; simp)
  have "unat a = 32 * (128 * (unat a div 4096))" using al4 by simp
  then have "32 dvd unat a" by (rule dvdI)
  then have R: "region_ok ?R" unfolding region_ok_def uR using hi by (auto simp: unat_eq_zero [symmetric] uR)
  let ?s = "?st2\<lparr>s_UsedBytes := 0, s_Initialized := True\<rparr>" and ?M = "[0 \<mapsto> (24, False)] :: blocks"
  have T: "tiling 5 24 ?M" by (rule tiling_whole) simp
  have fb: "free_blocks ?M k = {}" for k by (simp add: free_blocks_def)
  have "used {0} ?M = 0" by (simp add: used_def)
  moreover have "list_ok ?s ?M k" if "5 \<le> k" "k \<le> 24" for k
    using that by (auto simp: list_ok_def fb ORDER_COUNT_def intro!: exI [of _ "[]"])
  ultimately have "heap_rep {0} ?M ?s"
    using T R fb by (simp add: heap_rep_def coalesced_free ORDER_COUNT_def)
  then have "heap_rep {} (?M(0 \<mapsto> (24, True))) (PushFree (adr ?s 0) (of_nat 24) ?s)"
    by (intro PushFree_rep) simp_all
  moreover have "PushFree (adr ?s 0) (of_nat 24) ?s = st'"
    unfolding st' by (simp add: PushFree_def Let_def SetHeader_def adr_def BlockAt_def MAX_ORDER_def HEAP_LOG2_def)
  ultimately show ?thesis by simp
qed

end
