(* ===== verification/HK_HeapClient.thy ===== *)
theory HK_HeapClient
  imports HK_HeapSafety
begin

text \<open>
  What a client of \<open>malloc\<close> relies on, as an interface: the memory of a live allocation belongs to
  its holder. The client's theorem is proved once against the interface and holds for the heap.
\<close>

definition chunk_span :: "u64 \<Rightarrow> nat \<Rightarrow> u64 set" where
  "chunk_span p c = (\<lambda>i. p + of_nat i) ` {..<c}"

section \<open>A client\<close>

text \<open>
  A client allocates, frees its \<open>i\<close>-th allocation and stores bytes into it. Each allocation is
  recorded with the size asked for and with what was stored in it.
\<close>

datatype heap_op = HAlloc u64 | HFree nat | HStore nat nat u8

type_synonym chunk = "u64 \<times> nat \<times> (nat \<Rightarrow> u8 option)"

fun client_step :: "(u64 \<Rightarrow> 's \<Rightarrow> (u64 \<times> 's) result) \<Rightarrow> (u64 \<Rightarrow> 's \<Rightarrow> 's result) \<Rightarrow> (u64 \<Rightarrow> u8 \<Rightarrow> 's \<Rightarrow> 's) \<Rightarrow>
    heap_op \<Rightarrow> chunk list \<times> 's \<Rightarrow> (chunk list \<times> 's) result" where
  "client_step alloc dealloc store (HAlloc n) (cs, s) =
     rbind (alloc n s) (\<lambda>(p, s'). Ok (if p = 0 then cs else cs @ [(p, unat n, \<lambda>_. None)], s'))"
| "client_step alloc dealloc store (HFree i) (cs, s) =
     (if i < length cs then rbind (dealloc (fst (cs ! i)) s) (\<lambda>s'. Ok (take i cs @ drop (Suc i) cs, s'))
      else Ok (cs, s))"
| "client_step alloc dealloc store (HStore i j v) (cs, s) =
     (if i < length cs then
        case cs ! i of (p, n, c) \<Rightarrow>
          if j < n then Ok (cs[i := (p, n, c(j \<mapsto> v))], store (p + of_nat j) v s) else Ok (cs, s)
      else Ok (cs, s))"

fun client_run :: "(u64 \<Rightarrow> 's \<Rightarrow> (u64 \<times> 's) result) \<Rightarrow> (u64 \<Rightarrow> 's \<Rightarrow> 's result) \<Rightarrow> (u64 \<Rightarrow> u8 \<Rightarrow> 's \<Rightarrow> 's) \<Rightarrow>
    heap_op list \<Rightarrow> chunk list \<times> 's \<Rightarrow> (chunk list \<times> 's) result" where
  "client_run alloc dealloc store [] cs = Ok cs"
| "client_run alloc dealloc store (op # ops) cs =
     rbind (client_step alloc dealloc store op cs) (client_run alloc dealloc store ops)"

definition kept :: "memory \<Rightarrow> (u64 \<Rightarrow> nat) \<Rightarrow> chunk list \<Rightarrow> bool" where
  "kept m cap cs \<longleftrightarrow> (\<forall>p n c. (p, n, c) \<in> set cs \<longrightarrow> n \<le> cap p \<and>
     (\<forall>j v. j < n \<and> c j = Some v \<longrightarrow> m (p + of_nat j) = v))"

lemma keptD:
  assumes "kept m cap cs" "(p, n, c) \<in> set cs"
  shows "n \<le> cap p" "j < n \<Longrightarrow> c j = Some v \<Longrightarrow> m (p + of_nat j) = v"
  using assms unfolding kept_def by blast+

lemma keptI:
  assumes "\<And>p n c. (p, n, c) \<in> set cs \<Longrightarrow> n \<le> cap p"
    "\<And>p n c j v. (p, n, c) \<in> set cs \<Longrightarrow> j < n \<Longrightarrow> c j = Some v \<Longrightarrow> m (p + of_nat j) = v"
  shows "kept m cap cs"
  using assms unfolding kept_def by blast

definition grants :: "(u64 \<Rightarrow> nat) \<Rightarrow> chunk list \<Rightarrow> (u64 \<times> nat) set" where
  "grants cap cs = (\<lambda>p. (p, cap p)) ` fst ` set cs"

definition books :: "('s \<Rightarrow> (u64 \<times> nat) set \<Rightarrow> bool) \<Rightarrow> ('s \<Rightarrow> memory) \<Rightarrow> 's \<Rightarrow> chunk list \<Rightarrow> bool" where
  "books holds mem s cs \<longleftrightarrow> (\<exists>cap. holds s (grants cap cs) \<and> distinct (map fst cs) \<and>
     kept (mem s) cap cs)"

lemma of_nat64_eq: "a < 2 ^ 64 \<Longrightarrow> b < 2 ^ 64 \<Longrightarrow> (of_nat a :: u64) = of_nat b \<longleftrightarrow> a = b"
proof -
  assume "a < 2 ^ 64" "b < 2 ^ 64"
  then have "unat (of_nat a :: u64) = a" "unat (of_nat b :: u64) = b" by (simp_all add: unat_of_nat_small)
  then show ?thesis by metis
qed

lemma chunk_span_mem: "j < c \<Longrightarrow> p + of_nat j \<in> chunk_span p c"
  by (auto simp: chunk_span_def)

locale malloc_interface =
  fixes holds :: "'s \<Rightarrow> (u64 \<times> nat) set \<Rightarrow> bool"
    and mem :: "'s \<Rightarrow> memory"
    and alloc :: "u64 \<Rightarrow> 's \<Rightarrow> (u64 \<times> 's) result"
    and dealloc :: "u64 \<Rightarrow> 's \<Rightarrow> 's result"
    and store :: "u64 \<Rightarrow> u8 \<Rightarrow> 's \<Rightarrow> 's"
    and sane :: "u64 \<Rightarrow> bool"
  assumes separate: "holds s L \<Longrightarrow> (p, c) \<in> L \<Longrightarrow> (q, d) \<in> L \<Longrightarrow> p \<noteq> q \<Longrightarrow> chunk_span p c \<inter> chunk_span q d = {}"
    and small: "holds s L \<Longrightarrow> (p, c) \<in> L \<Longrightarrow> c < 2 ^ 64"
    and aligned: "holds s L \<Longrightarrow> (p, c) \<in> L \<Longrightarrow> unat p mod 16 = 0"
    and alloc_law: "holds s L \<Longrightarrow> sane n \<Longrightarrow> \<exists>p s'. alloc n s = Ok (p, s') \<and>
      (p = 0 \<and> s' = s \<or>
       p \<noteq> 0 \<and> p \<notin> fst ` L \<and> (\<exists>c \<ge> unat n. holds s' (insert (p, c) L)) \<and>
       (\<forall>(q, d) \<in> L. \<forall>x \<in> chunk_span q d. mem s' x = mem s x))"
    and dealloc_law: "holds s L \<Longrightarrow> (p, c) \<in> L \<Longrightarrow> \<exists>s'. dealloc p s = Ok s' \<and> holds s' (L - {(p, c)}) \<and>
      (\<forall>(q, d) \<in> L - {(p, c)}. \<forall>x \<in> chunk_span q d. mem s' x = mem s x)"
    and store_law: "holds s L \<Longrightarrow> (p, c) \<in> L \<Longrightarrow> x \<in> chunk_span p c \<Longrightarrow>
      holds (store x v s) L \<and> mem (store x v s) = (mem s)(x := v)"
begin

lemma step_alloc:
  assumes "books holds mem s cs" "sane n"
  shows "\<exists>cs' s'. client_step alloc dealloc store (HAlloc n) (cs, s) = Ok (cs', s') \<and> books holds mem s' cs'"
proof -
  obtain cap where B: "holds s (grants cap cs)" "distinct (map fst cs)" "kept (mem s) cap cs"
    using assms(1) unfolding books_def by blast
  let ?L = "grants cap cs"
  obtain p s' where A: "alloc n s = Ok (p, s')"
      and alt: "p = 0 \<and> s' = s \<or> p \<noteq> 0 \<and> p \<notin> fst ` ?L \<and> (\<exists>c \<ge> unat n. holds s' (insert (p, c) ?L)) \<and>
       (\<forall>(q, d) \<in> ?L. \<forall>x \<in> chunk_span q d. mem s' x = mem s x)"
    using alloc_law [OF B(1) assms(2)] by blast
  show ?thesis
  proof (cases "p = 0")
    case True
    then show ?thesis using A alt assms(1) by simp
  next
    case False
    then obtain c where c: "unat n \<le> c" "holds s' (insert (p, c) ?L)" and p: "p \<notin> fst ` set cs"
        and keep: "\<And>q x. q \<in> fst ` set cs \<Longrightarrow> x \<in> chunk_span q (cap q) \<Longrightarrow> mem s' x = mem s x"
      using alt by (auto simp: grants_def image_image)
    let ?cs = "cs @ [(p, unat n, \<lambda>_. None)]"
    have old: "q \<noteq> p" "q \<in> fst ` set cs" if "(q, n', d) \<in> set cs" for q n' d using that p by force+
    have "kept (mem s') (cap(p := c)) ?cs"
    proof (rule keptI)
      show "n' \<le> (cap(p := c)) q" if "(q, n', d) \<in> set ?cs" for q n' d
        using that c(1) keptD(1) [OF B(3)] old(1) by fastforce
      show "mem s' (q + of_nat j) = v" if "(q, n', d) \<in> set ?cs" "j < n'" "d j = Some v" for q n' d j v
      proof -
        have q: "(q, n', d) \<in> set cs" using that(1,3) by auto
        then have "q + of_nat j \<in> chunk_span q (cap q)" using keptD(1) [OF B(3) q] that(2) by (intro chunk_span_mem) simp
        then show ?thesis using keep [OF old(2) [OF q]] keptD(2) [OF B(3) q that(2,3)] by simp
      qed
    qed
    moreover have "(\<lambda>q. (q, (cap(p := c)) q)) ` fst ` set cs = (\<lambda>q. (q, cap q)) ` fst ` set cs"
      using p by (intro image_cong) auto
    then have "insert (p, c) ?L = grants (cap(p := c)) ?cs" by (simp add: grants_def)
    moreover have "distinct (map fst ?cs)" using B(2) p by simp
    ultimately have "books holds mem s' ?cs" unfolding books_def using c(2) by metis
    then show ?thesis using A False by simp
  qed
qed

lemma step_free:
  assumes "books holds mem s cs"
  shows "\<exists>cs' s'. client_step alloc dealloc store (HFree i) (cs, s) = Ok (cs', s') \<and> books holds mem s' cs'"
proof (cases "i < length cs")
  case i: True
  obtain cap where B: "holds s (grants cap cs)" "distinct (map fst cs)" "kept (mem s) cap cs"
    using assms unfolding books_def by blast
  let ?L = "grants cap cs" and ?p = "fst (cs ! i)"
  let ?cs = "take i cs @ drop (Suc i) cs"
  have split: "cs = take i cs @ cs ! i # drop (Suc i) cs" using i by (rule id_take_nth_drop)
  have "(?p, cap ?p) \<in> ?L" using i by (simp add: grants_def)
  then obtain s' where A: "dealloc ?p s = Ok s'" "holds s' (?L - {(?p, cap ?p)})"
      and keep: "\<forall>(q, d) \<in> ?L - {(?p, cap ?p)}. \<forall>x \<in> chunk_span q d. mem s' x = mem s x"
    using dealloc_law [OF B(1)] by blast
  have d: "distinct (map fst (take i cs @ cs ! i # drop (Suc i) cs))" using B(2) split by metis
  have sets: "set cs = insert (cs ! i) (set ?cs)" by (subst split) auto
  have ne: "q \<noteq> ?p" if "q \<in> fst ` set ?cs" for q using that d by (auto simp: image_iff)
  have "kept (mem s') cap ?cs"
  proof (rule keptI)
    show "n' \<le> cap q" if "(q, n', e) \<in> set ?cs" for q n' e using that keptD(1) [OF B(3)] sets by blast
    show "mem s' (q + of_nat j) = v" if "(q, n', e) \<in> set ?cs" "j < n'" "e j = Some v" for q n' e j v
    proof -
      have q: "(q, n', e) \<in> set cs" using that(1) sets by blast
      have "q \<in> fst ` set ?cs" using that(1) by force
      then have "(q, cap q) \<in> ?L - {(?p, cap ?p)}" using ne q by (force simp: grants_def)
      moreover have "q + of_nat j \<in> chunk_span q (cap q)" using keptD(1) [OF B(3) q] that(2) by (intro chunk_span_mem) simp
      ultimately show ?thesis using keep keptD(2) [OF B(3) q that(2,3)] by fastforce
    qed
  qed
  moreover have "?L - {(?p, cap ?p)} = grants cap ?cs" unfolding grants_def sets using ne by auto
  moreover have "distinct (map fst ?cs)" using d by auto
  ultimately have "books holds mem s' ?cs" unfolding books_def using A(2) by metis
  then show ?thesis using A(1) i by simp
qed (use assms in simp)

lemma step_store:
  assumes "books holds mem s cs"
  shows "\<exists>cs' s'. client_step alloc dealloc store (HStore i j v) (cs, s) = Ok (cs', s') \<and> books holds mem s' cs'"
proof -
  obtain p n c where pnc: "cs ! i = (p, n, c)" by (cases "cs ! i")
  show ?thesis
  proof (cases "i < length cs \<and> j < n")
    case False
    then show ?thesis using assms pnc by auto
  next
    case True
    obtain cap where B: "holds s (grants cap cs)" "distinct (map fst cs)" "kept (mem s) cap cs"
      using assms(1) unfolding books_def by blast
    let ?x = "p + of_nat j" and ?cs = "cs[i := (p, n, c(j \<mapsto> v))]"
    have p: "(p, n, c) \<in> set cs" using True pnc by (metis nth_mem)
    have j: "j < cap p" using keptD(1) [OF B(3) p] True by simp
    have L: "(q, cap q) \<in> grants cap cs" if "(q, n', d) \<in> set cs" for q n' d using that by (force simp: grants_def)
    have S: "holds (store ?x v s) (grants cap cs)" "mem (store ?x v s) = (mem s)(?x := v)"
      using store_law [OF B(1) L [OF p] chunk_span_mem [OF j]] by simp_all
    have mf: "map fst ?cs = map fst cs"
      using True pnc by (intro nth_equalityI) (auto simp: nth_list_update)
    have "set (map fst ?cs) = set (map fst cs)" by (simp only: mf)
    then have "grants cap ?cs = grants cap cs" by (simp add: grants_def)
    moreover have "kept ((mem s)(?x := v)) cap ?cs"
    proof (rule keptI)
      fix q n' d
      assume "(q, n', d) \<in> set ?cs"
      then obtain i' where i': "i' < length cs" "?cs ! i' = (q, n', d)" by (auto simp: in_set_conv_nth)
      show "n' \<le> cap q"
        using i' keptD(1) [OF B(3)] p True by (cases "i' = i") (auto simp: in_set_conv_nth)
      fix j' v'
      assume j': "j' < n'" "d j' = Some v'"
      show "((mem s)(?x := v)) (q + of_nat j') = v'"
      proof (cases "i' = i")
        case True
        then have q: "q = p" "n' = n" "d = c(j \<mapsto> v)" using i' by auto
        have "j' = j" if "p + of_nat j' = ?x"
        proof -
          have "j' < 2 ^ 64" "j < 2 ^ 64"
            using small [OF B(1) L [OF p]] keptD(1) [OF B(3) p] j'(1) q(2) j by simp_all
          moreover have "(of_nat j' :: u64) = of_nat j" using that by simp
          ultimately show ?thesis by (simp only: of_nat64_eq)
        qed
        then show ?thesis using q j' keptD(2) [OF B(3) p, of j' v'] by (cases "j' = j") auto
      next
        case False
        then have q: "(q, n', d) \<in> set cs" using i' by (metis nth_list_update_neq nth_mem)
        have "fst (cs ! i') = q" "fst (cs ! i) = p" using False i' pnc by auto
        then have "q \<noteq> p" using nth_eq_iff_index_eq [OF B(2), of i' i] False i'(1) True by simp
        then have "chunk_span q (cap q) \<inter> chunk_span p (cap p) = {}" using separate [OF B(1) L [OF q] L [OF p]] by blast
        moreover have "q + of_nat j' \<in> chunk_span q (cap q)" using keptD(1) [OF B(3) q] j'(1) by (intro chunk_span_mem) simp
        ultimately have "q + of_nat j' \<noteq> ?x" using chunk_span_mem [OF j, of p] by auto
        then show ?thesis using keptD(2) [OF B(3) q j'] by simp
      qed
    qed
    ultimately have "books holds mem (store ?x v s) ?cs" unfolding books_def using S B(2) mf by metis
    then show ?thesis using True pnc by simp
  qed
qed

lemma run_books:
  assumes "books holds mem s cs" "\<And>n. HAlloc n \<in> set ops \<Longrightarrow> sane n"
  shows "\<exists>cs' s'. client_run alloc dealloc store ops (cs, s) = Ok (cs', s') \<and> books holds mem s' cs'"
  using assms
proof (induction ops arbitrary: s cs)
  case (Cons op ops)
  have "\<exists>cs' s'. client_step alloc dealloc store op (cs, s) = Ok (cs', s') \<and> books holds mem s' cs'"
    using Cons.prems by (cases op) (simp_all only: step_alloc step_free step_store list.set_intros(1))
  then obtain cs1 s1 where 1: "client_step alloc dealloc store op (cs, s) = Ok (cs1, s1)" "books holds mem s1 cs1"
    by blast
  obtain cs' s' where "client_run alloc dealloc store ops (cs1, s1) = Ok (cs', s')" "books holds mem s' cs'"
    using Cons.IH [OF 1(2)] Cons.prems(2) by auto
  then show ?case using 1(1) by simp
qed simp

text \<open>What the client sees: allocations are aligned, apart from each other, and keep what was stored.\<close>

lemma client_safe:
  assumes "holds s {}" "\<And>n. HAlloc n \<in> set ops \<Longrightarrow> sane n"
  shows "\<exists>cs s'. client_run alloc dealloc store ops ([], s) = Ok (cs, s') \<and>
    (\<forall>p n c. (p, n, c) \<in> set cs \<longrightarrow> unat p mod 16 = 0 \<and> (\<forall>j v. j < n \<and> c j = Some v \<longrightarrow> mem s' (p + of_nat j) = v)) \<and>
    (\<forall>i j. i < length cs \<and> j < length cs \<and> i \<noteq> j \<longrightarrow>
       chunk_span (fst (cs ! i)) (fst (snd (cs ! i))) \<inter> chunk_span (fst (cs ! j)) (fst (snd (cs ! j))) = {}) \<and>
    (cs = [] \<longrightarrow> holds s' {})"
proof -
  have "books holds mem s []" unfolding books_def using assms(1) by (simp add: grants_def kept_def)
  then obtain cs s' where R: "client_run alloc dealloc store ops ([], s) = Ok (cs, s')" "books holds mem s' cs"
    using run_books assms(2) by blast
  then obtain cap where B: "holds s' (grants cap cs)" "distinct (map fst cs)" "kept (mem s') cap cs"
    unfolding books_def by blast
  have L: "(q, cap q) \<in> grants cap cs" if "(q, n', d) \<in> set cs" for q n' d using that by (force simp: grants_def)
  have "chunk_span (fst (cs ! i)) (fst (snd (cs ! i))) \<inter> chunk_span (fst (cs ! j)) (fst (snd (cs ! j))) = {}"
    if ij: "i < length cs" "j < length cs" "i \<noteq> j" for i j
  proof -
    obtain p n c q m d where e: "cs ! i = (p, n, c)" "cs ! j = (q, m, d)" by (metis surj_pair)
    then have m: "(p, n, c) \<in> set cs" "(q, m, d) \<in> set cs" using ij by (metis nth_mem)+
    have "p \<noteq> q" using nth_eq_iff_index_eq [OF B(2), of i j] ij e by simp
    then have "chunk_span p (cap p) \<inter> chunk_span q (cap q) = {}" using separate [OF B(1) L [OF m(1)] L [OF m(2)]] by blast
    moreover have "chunk_span p n \<subseteq> chunk_span p (cap p)" "chunk_span q m \<subseteq> chunk_span q (cap q)"
      using keptD(1) [OF B(3) m(1)] keptD(1) [OF B(3) m(2)] by (auto simp: chunk_span_def)
    ultimately show ?thesis unfolding e by auto
  qed
  moreover have "unat p mod 16 = 0" if "(p, n, c) \<in> set cs" for p n c using aligned [OF B(1) L [OF that]] .
  moreover have "cs = [] \<longrightarrow> holds s' {}" using B(1) by (auto simp: grants_def)
  ultimately show ?thesis using R(1) keptD(2) [OF B(3)] by blast
qed

end

section \<open>The heap implements the interface\<close>

definition poke :: "u64 \<Rightarrow> u8 \<Rightarrow> heap \<Rightarrow> heap" where
  "poke x v st = st\<lparr>h_Memory := (h_Memory st)(x := v)\<rparr>"

definition payload :: "heap \<Rightarrow> nat \<times> nat \<Rightarrow> u64 \<times> nat" where
  "payload st b = (adr st (fst b) + 16, 2 ^ snd b - 16)"

definition heap_holds :: "heap \<Rightarrow> (u64 \<times> nat) set \<Rightarrow> bool" where
  "heap_holds st L \<longleftrightarrow> (\<exists>M. heap_rep {} M st \<and> L = payload st ` live {} M)"

lemma order_room: "5 \<le> k \<Longrightarrow> 32 \<le> (2 :: nat) ^ k"
  using power_increasing [of 5 k "2 :: nat"] by simp

lemma heap_holdsE:
  assumes "heap_holds st L" "(p, c) \<in> L"
  obtains M off k where "heap_rep {} M st" "L = payload st ` live {} M" "M off = Some (k, False)"
    "p = adr st off + 16" "c = 2 ^ k - 16"
  using assms by (auto simp: heap_holds_def live_def payload_def)

lemma payload_addr: "x \<in> chunk_span (adr st off + 16) (2 ^ k - 16) \<Longrightarrow> \<exists>y. off + 16 \<le> y \<and> y < off + 2 ^ k \<and> x = adr st y"
proof -
  assume "x \<in> chunk_span (adr st off + 16) (2 ^ k - 16)"
  then obtain i where i: "i < 2 ^ k - 16" "x = adr st off + 16 + of_nat i" by (auto simp: chunk_span_def)
  have "x = adr st (off + 16 + i)" using i(2) by (simp add: adr_def)
  moreover have "off + 16 + i < off + 2 ^ k" using i(1) by linarith
  ultimately show ?thesis by (intro exI [of _ "off + 16 + i"]) simp
qed

lemma live_not_spare:
  assumes "heap_rep H M st" "M off = Some (k, False)" "off \<notin> H" "off \<le> y" "y < off + 2 ^ k"
  shows "y \<notin> spare H M"
proof
  assume "y \<in> spare H M"
  then obtain z j f where z: "M z = Some (j, f)" "f \<or> z \<in> H" "z \<le> y" "y < z + 2 ^ j" by (auto simp: spare_def)
  have "off = z" by (rule tiling_disjoint [OF heap_rep_dest(1) [OF assms(1)] assms(2) z(1) assms(4,5) z(3,4)])
  then show False using z assms by auto
qed

lemma spare_bound: "heap_rep H M st \<Longrightarrow> y \<in> spare H M \<Longrightarrow> y < 2 ^ 24"
  using tiling_block(4) [OF heap_rep_dest(1)] by (fastforce simp: spare_def)

lemma live_unchanged:
  assumes rep: "heap_rep {} M st" and b: "M off = Some (k, False)" and w: "writes (spare H M) st st'" and H: "off \<notin> H"
    and hole: "\<And>x. x \<in> H \<Longrightarrow> \<exists>j. M x = Some (j, False)"
    and x: "x \<in> chunk_span (adr st off + 16) (2 ^ k - 16)"
  shows "h_Memory st' x = h_Memory st x"
proof (rule ccontr)
  assume "h_Memory st' x \<noteq> h_Memory st x"
  then obtain z where z: "z \<in> spare H M" "x = adr st z" using w by (auto simp: writes_def)
  obtain y where y: "off + 16 \<le> y" "y < off + 2 ^ k" "x = adr st y" using payload_addr [OF x] by blast
  obtain u j f where u: "M u = Some (j, f)" "f \<or> u \<in> H" "u \<le> z" "z < u + 2 ^ j" using z(1) by (auto simp: spare_def)
  have "z < 2 ^ 24" "y < 2 ^ 24" using u(4) block_bounds(4) [OF rep u(1)] y(2) block_bounds(4) [OF rep b] by linarith+
  then have "y = z" using adr_eq_iff [OF heap_rep_dest(3) [OF rep]] y(3) z(2) by metis
  moreover have "off \<le> y" using y(1) by simp
  ultimately have "off = u"
    using tiling_disjoint [OF heap_rep_dest(1) [OF rep] b u(1), of y] y(2) u(3,4) by simp
  then show False using u b H by auto
qed

lemma heap_rep_memory:
  assumes rep: "heap_rep {} M st" and b: "M off = Some (k, False)"
    and ch: "\<And>x. m x \<noteq> h_Memory st x \<Longrightarrow> x \<in> chunk_span (adr st off + 16) (2 ^ k - 16)"
  shows "heap_rep {} M (st\<lparr>h_Memory := m\<rparr>)"
proof -
  let ?st = "st\<lparr>h_Memory := m\<rparr>"
  note D = heap_rep_dest [OF rep]
  have hdr: "header ?st (adr st u) = header st (adr st u)" if u: "M u = Some (j, f)" for u j f
  proof (rule Read_cong, rule ccontr)
    fix i :: nat
    assume i: "i < 16" and "h_Memory ?st (adr st u + of_nat i) \<noteq> h_Memory st (adr st u + of_nat i)"
    then have "adr st u + of_nat i \<in> chunk_span (adr st off + 16) (2 ^ k - 16)" by (intro ch) simp
    moreover have "adr st u + of_nat i = adr st (u + i)" by (simp add: adr_def)
    ultimately obtain y where y: "off + 16 \<le> y" "y < off + 2 ^ k" "adr st (u + i) = adr st y"
      using payload_addr by metis
    have r: "32 \<le> (2 :: nat) ^ j" by (rule order_room [OF block_bounds(1) [OF rep u]])
    have "u + i < 2 ^ 24" "y < 2 ^ 24"
      using i r y(2) block_bounds(4) [OF rep u] block_bounds(4) [OF rep b] by linarith+
    then have e: "u + i = y" using adr_eq_iff [OF D(3)] y(3) by metis
    have "u = off" using tiling_disjoint [OF D(1) u b, of y] y(1,2) e i r by simp
    then show False using e i y(1) by simp
  qed
  have adr: "adr ?st = adr st" by (simp add: adr_def fun_eq_iff)
  have "list_ok ?st M j" if "5 \<le> j" "j \<le> 24" for j
    by (rule list_ok_frame [OF D(8) [OF that]]) (use hdr in auto)
  then show ?thesis unfolding heap_rep_def adr using D hdr by auto
qed

lemma heap_holds_memory:
  assumes "heap_holds st L" "(p, c) \<in> L" "\<And>x. m x \<noteq> h_Memory st x \<Longrightarrow> x \<in> chunk_span p c"
  shows "heap_holds (st\<lparr>h_Memory := m\<rparr>) L"
proof -
  obtain M off k where rep: "heap_rep {} M st" and L: "L = payload st ` live {} M" and b: "M off = Some (k, False)"
      and p: "p = adr st off + 16" "c = 2 ^ k - 16"
    by (rule heap_holdsE [OF assms(1,2)])
  have "heap_rep {} M (st\<lparr>h_Memory := m\<rparr>)" using heap_rep_memory [OF rep b, of m] assms(3) p by simp
  moreover have "payload (st\<lparr>h_Memory := m\<rparr>) = payload st" by (simp add: payload_def adr_def fun_eq_iff)
  ultimately show ?thesis using L by (auto simp: heap_holds_def)
qed

lemma payload_nonnull:
  assumes rep: "heap_rep H M st" and b: "M off = Some (k, f)"
  shows "unat (adr st off + 16) = unat (s_Region st) + off + 16" "adr st off + 16 \<noteq> 0"
proof -
  have "32 \<le> (2 :: nat) ^ k" by (rule order_room [OF block_bounds(1) [OF rep b]])
  then show u: "unat (adr st off + 16) = unat (s_Region st) + off + 16"
    using block_bounds(4,9) [OF rep b] heap_rep_dest(3) [OF rep]
    by (subst unat_add_no_wrap) (auto simp: region_ok_def)
  then show "adr st off + 16 \<noteq> 0" by (metis add_is_0 unat_0 zero_neq_numeral)
qed

lemma payload_eq_iff:
  assumes rep: "heap_rep H M st" and b: "M off = Some (k, f)" "M off' = Some (k', f')"
  shows "adr st off + 16 = adr st off' + 16 \<longleftrightarrow> off = off'"
  using payload_nonnull(1) [OF rep b(1)] payload_nonnull(1) [OF rep b(2)] by (auto simp: word_unat_eq_iff)

lemma heap_alloc_law:
  assumes "heap_holds st L" "unat n + 16 < 2 ^ 64"
  shows "\<exists>p st'. Heap_Allocate n st = Ok (p, st') \<and>
      (p = 0 \<and> st' = st \<or>
       p \<noteq> 0 \<and> p \<notin> fst ` L \<and> (\<exists>c \<ge> unat n. heap_holds st' (insert (p, c) L)) \<and>
       (\<forall>(q, d) \<in> L. \<forall>x \<in> chunk_span q d. h_Memory st' x = h_Memory st x))"
proof -
  obtain M where rep: "heap_rep {} M st" and L: "L = payload st ` live {} M" using assms(1) by (auto simp: heap_holds_def)
  have un: "unat (n + SIZEOF_BlockHeader) = unat n + 16"
    using assms(2) by (subst unat_add_no_wrap) (simp_all add: SIZEOF_BlockHeader_def)
  show ?thesis
  proof (cases "n = 0 \<or> 2 ^ 24 < unat (n + SIZEOF_BlockHeader)")
    case True
    then show ?thesis using Heap_Allocate_refused [OF heap_rep_dest(5) [OF rep]] by auto
  next
    case False
    then have n: "n \<noteq> 0" "unat (n + SIZEOF_BlockHeader) \<le> 2 ^ 24" by auto
    show ?thesis
    proof (cases rule: Heap_Allocate_cases [OF rep n])
      case (2 off M' st')
      let ?w = "order_for (unat (n + SIZEOF_BlockHeader))"
      have "(off, ?w) \<in> live {} M'" using 2(3) by simp
      then have M': "M' off = Some (?w, False)" by (simp add: live_def)
      have adr: "adr st' = adr st" using 2(7) by (simp add: writes_def adr_def fun_eq_iff)
      have "payload st' ` live {} M' = insert (adr st off + 16, 2 ^ ?w - 16) L"
        unfolding 2(3) L by (simp add: payload_def adr)
      then have "heap_holds st' (insert (adr st off + 16, 2 ^ ?w - 16) L)" using 2(2) by (auto simp: heap_holds_def)
      moreover have "unat n \<le> 2 ^ ?w - 16" using OrderFor_spec(4) [OF n(2)] un by simp
      moreover have "adr st off + 16 \<noteq> 0" using payload_nonnull(2) [OF 2(2) M'] adr by simp
      moreover have "adr st off + 16 \<notin> fst ` L"
      proof
        assume "adr st off + 16 \<in> fst ` L"
        then obtain u j where u: "M u = Some (j, False)" "adr st off + 16 = adr st u + 16"
          unfolding L by (auto simp: live_def payload_def)
        have "(u, j) \<in> live {} M'" using u(1) unfolding 2(3) by (simp add: live_def)
        then have M'u: "M' u = Some (j, False)" by (simp add: live_def)
        have "off = u" using payload_eq_iff [OF 2(2) M' M'u] u(2) adr by simp
        moreover have "off \<in> {off..<off + 2 ^ ?w}" by simp
        then have "off \<in> spare {} M" using 2(5) by blast
        ultimately show False using live_not_spare [OF rep u(1), of u] by simp
      qed
      moreover have "h_Memory st' x = h_Memory st x" if "(q, d) \<in> L" "x \<in> chunk_span q d" for q d x
        using that live_unchanged [OF rep _ 2(7)] unfolding L by (auto simp: live_def payload_def)
      ultimately show ?thesis using 2(1) by (intro exI [of _ "adr st off + 16"] exI [of _ st']) auto
    qed auto
  qed
qed

lemma heap_free_law:
  assumes "heap_holds st L" "(p, c) \<in> L"
  shows "\<exists>st'. Heap_Free p st = Ok st' \<and> heap_holds st' (L - {(p, c)}) \<and>
    (\<forall>(q, d) \<in> L - {(p, c)}. \<forall>x \<in> chunk_span q d. h_Memory st' x = h_Memory st x)"
proof -
  obtain M off k where rep: "heap_rep {} M st" and L: "L = payload st ` live {} M" and b: "M off = Some (k, False)"
      and p: "p = adr st off + 16" "c = 2 ^ k - 16"
    by (rule heap_holdsE [OF assms])
  have lv: "(off, k) \<in> live {} M" using b by (simp add: live_def)
  obtain M' st' where F: "Heap_Free (adr st off + 16) st = Ok st'" "heap_rep {} M' st'"
      "live {} M' = live {} M - {(off, k)}" "spare {} M' \<subseteq> spare {off} M" "writes (spare {off} M) st st'"
    by (rule Heap_Free_live [OF rep lv])
  have adr: "adr st' = adr st" using F(5) by (simp add: writes_def adr_def fun_eq_iff)
  have only: "u = off" if "(u, j) \<in> live {} M" "payload st (u, j) = (p, c)" for u j
    using that payload_eq_iff [OF rep _ b, of u j False] by (auto simp: live_def payload_def p)
  have "payload st ` (live {} M - {(off, k)}) = L - {(p, c)}"
  proof (intro equalityI subsetI)
    fix y
    assume "y \<in> payload st ` (live {} M - {(off, k)})"
    then obtain u j where u: "(u, j) \<in> live {} M" "(u, j) \<noteq> (off, k)" "y = payload st (u, j)" by auto
    then have "y \<noteq> (p, c)" using only [OF u(1)] b by (auto simp: live_def)
    then show "y \<in> L - {(p, c)}" using u L by auto
  next
    fix y
    assume "y \<in> L - {(p, c)}"
    then obtain u where u: "u \<in> live {} M" "y = payload st u" "y \<noteq> (p, c)" unfolding L by blast
    then have "u \<noteq> (off, k)" by (auto simp: payload_def p)
    then show "y \<in> payload st ` (live {} M - {(off, k)})" using u by blast
  qed
  moreover have "payload st' = payload st" by (simp add: payload_def adr fun_eq_iff)
  ultimately have "heap_holds st' (L - {(p, c)})"
    unfolding heap_holds_def using F(2,3) by (intro exI [of _ M']) simp
  moreover have "h_Memory st' x = h_Memory st x" if y: "(q, d) \<in> L - {(p, c)}" "x \<in> chunk_span q d" for q d x
  proof -
    obtain u j where u: "M u = Some (j, False)" "q = adr st u + 16" "d = 2 ^ j - 16"
      using y(1) unfolding L by (auto simp: live_def payload_def)
    have "u \<noteq> off" using y(1) u b p by auto
    then show ?thesis using live_unchanged [OF rep u(1) F(5)] b y(2) u by auto
  qed
  ultimately show ?thesis using F(1) p(1) by blast
qed

interpretation heap_malloc: malloc_interface heap_holds h_Memory Heap_Allocate Heap_Free poke
  "\<lambda>n. unat n + 16 < 2 ^ 64"
proof
  fix st L p c q d
  assume h: "heap_holds st L" and pc: "(p, c) \<in> L"
  obtain M off k where rep: "heap_rep {} M st" and L: "L = payload st ` live {} M" and b: "M off = Some (k, False)"
      and p: "p = adr st off + 16" "c = 2 ^ k - 16"
    by (rule heap_holdsE [OF h pc])
  show "c < 2 ^ 64"
    using block_bounds(4) [OF rep b] p(2) by simp
  have "32 dvd unat (s_Region st)" "32 dvd off"
    using heap_rep_dest(3) [OF rep] block_bounds(5) [OF rep b] by (auto simp: region_ok_def)
  then have "16 dvd unat p" unfolding p(1) payload_nonnull(1) [OF rep b] by presburger
  then show "unat p mod 16 = 0" by simp
  show "chunk_span p c \<inter> chunk_span q d = {}" if qd: "(q, d) \<in> L" "p \<noteq> q"
  proof -
    obtain u j where u: "M u = Some (j, False)" "q = adr st u + 16" "d = 2 ^ j - 16"
      using qd(1) unfolding L by (auto simp: live_def payload_def)
    show ?thesis
    proof (rule equals0I)
      fix x
      assume "x \<in> chunk_span p c \<inter> chunk_span q d"
      then obtain y z where y: "off + 16 \<le> y" "y < off + 2 ^ k" "x = adr st y"
          and z: "u + 16 \<le> z" "z < u + 2 ^ j" "x = adr st z"
        using payload_addr [of x st off k] payload_addr [of x st u j] p u by auto
      have "y < 2 ^ 24" "z < 2 ^ 24"
        using y(2) z(2) block_bounds(4) [OF rep b] block_bounds(4) [OF rep u(1)] by linarith+
      then have "y = z" using adr_eq_iff [OF heap_rep_dest(3) [OF rep]] y(3) z(3) by metis
      then have "off = u" using tiling_disjoint [OF heap_rep_dest(1) [OF rep] b u(1), of y] y z by simp
      then show False using qd(2) p u by simp
    qed
  qed
  show "heap_holds (poke x v st) L \<and> h_Memory (poke x v st) = (h_Memory st)(x := v)" if "x \<in> chunk_span p c" for x v
    unfolding poke_def using that by (auto intro!: heap_holds_memory [OF h pc] split: if_split_asm)
qed (rule heap_alloc_law heap_free_law; assumption)+

end
