(* ===== verification/HK_HeapProps.thy ===== *)
theory HK_HeapProps
  imports HK_HeapClient
begin

text \<open>The properties of the kernel heap.\<close>

section \<open>Copying and clearing payloads\<close>

lemma span_iff: "c \<le> 2 ^ 64 \<Longrightarrow> x \<in> chunk_span p c \<longleftrightarrow> unat (x - p) < c"
proof
  assume c: "c \<le> 2 ^ 64"
  show "unat (x - p) < c" if x: "x \<in> chunk_span p c"
  proof -
    obtain i where i: "i < c" "x = p + of_nat i" using x by (auto simp: chunk_span_def)
    then have "unat (of_nat i :: u64) = i" using c by (intro unat_of_nat_small) simp
    then show ?thesis using i by simp
  qed
  show "x \<in> chunk_span p c" if "unat (x - p) < c"
    using that by (auto simp: chunk_span_def intro!: image_eqI [of _ _ "unat (x - p)"])
qed

lemma memcpy_disjoint:
  fixes m :: memory
  assumes "chunk_span d (unat n) \<inter> chunk_span s (unat n) = {}"
  shows "memcpy m d s n a = (if a \<in> chunk_span d (unat n) then m (s + (a - d)) else m a)"
proof -
  let ?P = "\<lambda>k M. \<forall>a. M a = (if unat (a - d) < k then m (s + (a - d)) else m a)"
  have "?P (max (unat (0 :: u64)) (unat n)) (for_loop 0 n (\<lambda>i m. m(d + i := m (s + i))) m)"
  proof (rule for_loop_rule [where P = ?P])
    fix k and M :: memory
    assume k: "k < unat n" and P: "?P k M"
    have k64: "k < 2 ^ 64" using k unat64_bound by (rule less_trans)
    have "s + of_nat k \<in> chunk_span s (unat n)" using k by (rule chunk_span_mem)
    then have "s + of_nat k \<notin> chunk_span d (unat n)" using assms by blast
    then have "\<not> unat (s + of_nat k - d) < k"
      using k span_iff [of "unat n" "s + of_nat k" d] unat64_bound [of n] by simp
    then have "M (s + of_nat k) = m (s + of_nat k)" using P by simp
    then show "?P (Suc k) (M(d + of_nat k := M (s + of_nat k)))"
      using P offset_eq [OF k64, of _ d] by (auto simp: less_Suc_eq)
  qed simp
  then show ?thesis
    using span_iff [of "unat n" a d] unat64_bound [of n] by (simp add: memcpy_def)
qed

section \<open>Clients\<close>

lemma heap_empty_whole:
  assumes "heap_holds st {}"
  shows "Heap_GetUsedBytes st = 0" "\<exists>p st'. Heap_Allocate (HEAP_SIZE - SIZEOF_BlockHeader) st = Ok (p, st') \<and> p \<noteq> 0"
proof -
  obtain M where rep: "heap_rep {} M st" and "live {} M = {}" using assms by (auto simp: heap_holds_def)
  then have none: "M off = Some (k, f) \<Longrightarrow> f" for off k f by (cases f) (auto simp: live_def)
  have M: "M = [0 \<mapsto> (24, True)]"
    by (rule coalesced_whole [OF heap_rep_dest(1,2) [OF rep]]) (rule none)
  have "used {} M = 0" by (auto simp: used_def M intro: sum.neutral)
  then show "Heap_GetUsedBytes st = 0" using heap_rep_dest(9) [OF rep] by (simp add: Heap_GetUsedBytes_def)
  let ?n = "HEAP_SIZE - SIZEOF_BlockHeader"
  have n: "?n \<noteq> 0" "unat (?n + SIZEOF_BlockHeader) \<le> 2 ^ 24" by (simp_all add: HEAP_SIZE_def SIZEOF_BlockHeader_def)
  have w: "order_for (unat (?n + SIZEOF_BlockHeader)) \<le> 24" by (rule OrderFor_spec(3) [OF n(2)])
  show "\<exists>p st'. Heap_Allocate ?n st = Ok (p, st') \<and> p \<noteq> 0"
  proof (cases rule: Heap_Allocate_cases [OF rep n])
    case 1
    have "0 \<in> free_blocks M 24" by (simp add: free_blocks_def M)
    then show ?thesis using 1(2) [OF w] by simp
  next
    case (2 off M' st')
    have "(off, order_for (unat (?n + SIZEOF_BlockHeader))) \<in> live {} M'" using 2(3) by simp
    then have "adr st' off + 16 \<noteq> 0" using payload_nonnull(2) [OF 2(2)] by (simp add: live_def)
    moreover have "adr st' off = adr st off" using 2(7) by (simp add: writes_def adr_def)
    ultimately show ?thesis using 2(1) by auto
  qed
qed

text \<open>
  C11: The heap gives private memory. From a freshly initialised heap on at most \<open>2 ^ 35\<close> frames, any
  sequence of allocations, frees and stores into live allocations runs without an assertion failing and
  without a loop diverging, as long as no request lies within the 16 bytes of the header below \<open>2 ^ 64\<close>,
  where \<open>Allocate\<close> overflows. Afterwards every live allocation is 16-byte aligned, no two of them overlap, and each
  still holds every byte its owner stored, whatever the other clients did. If everything was
  freed, all blocks have merged again: no byte counts as used and the whole heap can be allocated.
\<close>

theorem Heap_client_safe:
  assumes "\<not> s_Initialized st0" "frame_inv (h_Frames st0)" "unat (s_FrameCount (h_Frames st0)) \<le> 2 ^ 35"
    and "Heap_Initialize st0 = Ok st" "\<forall>n. HAlloc n \<in> set ops \<longrightarrow> unat n + 16 < 2 ^ 64"
  shows "\<exists>cs st'. client_run Heap_Allocate Heap_Free poke ops ([], st) = Ok (cs, st') \<and>
    (\<forall>p n c. (p, n, c) \<in> set cs \<longrightarrow> unat p mod 16 = 0 \<and>
       (\<forall>j v. j < n \<and> c j = Some v \<longrightarrow> h_Memory st' (p + of_nat j) = v)) \<and>
    (\<forall>i j. i < length cs \<and> j < length cs \<and> i \<noteq> j \<longrightarrow>
       chunk_span (fst (cs ! i)) (fst (snd (cs ! i))) \<inter> chunk_span (fst (cs ! j)) (fst (snd (cs ! j))) = {}) \<and>
    (cs = [] \<longrightarrow> Heap_GetUsedBytes st' = 0 \<and>
       (\<exists>p st''. Heap_Allocate (HEAP_SIZE - SIZEOF_BlockHeader) st' = Ok (p, st'') \<and> p \<noteq> 0))"
proof -
  have "heap_rep {} [0 \<mapsto> (24, True)] st" by (rule Heap_Initialize_rep [OF assms(1-4)])
  moreover have "live {} [0 \<mapsto> (24, True)] = {}" by (auto simp: live_def split: if_split_asm)
  ultimately have "heap_holds st {}" unfolding heap_holds_def by (intro exI [of _ "[0 \<mapsto> (24, True)]"]) simp
  from heap_malloc.client_safe [OF this, of ops] assms(5)
  obtain cs st' where R: "client_run Heap_Allocate Heap_Free poke ops ([], st) = Ok (cs, st')"
    "\<forall>p n c. (p, n, c) \<in> set cs \<longrightarrow> unat p mod 16 = 0 \<and>
       (\<forall>j v. j < n \<and> c j = Some v \<longrightarrow> h_Memory st' (p + of_nat j) = v)"
    "\<forall>i j. i < length cs \<and> j < length cs \<and> i \<noteq> j \<longrightarrow>
       chunk_span (fst (cs ! i)) (fst (snd (cs ! i))) \<inter> chunk_span (fst (cs ! j)) (fst (snd (cs ! j))) = {}"
    "cs = [] \<longrightarrow> heap_holds st' {}"
    by blast
  then show ?thesis using heap_empty_whole [of st'] by (intro exI [of _ cs] exI [of _ st']) simp
qed

section \<open>A machine with room for the heap\<close>

definition big_frames :: frames where
  "big_frames = \<lparr>s_Taken = 1 # replicate 64 0, s_WordCount = 65, s_FrameCount = 4160, s_ReachableFrames = 4160,
     s_TotalFrames = 4159, s_FreeFrames = 4159, s_NextIndex = 0\<rparr>"

definition big_heap :: heap where
  "big_heap = \<lparr>h_Memory = \<lambda>_. 0, h_Frames = big_frames, s_Region = 0, s_FreeLists = replicate 20 0,
     s_UsedBytes = 0, s_Initialized = False\<rparr>"

lemma big_taken: "k < 4160 \<Longrightarrow> taken big_frames k \<longleftrightarrow> k = 0"
proof -
  assume k: "k < 4160"
  show ?thesis
  proof (cases "k < 64")
    case True
    then show ?thesis by (auto simp: taken_def big_frames_def bit_1_iff)
  next
    case False
    then obtain j where "k div 64 = Suc j" by (cases "k div 64") auto
    moreover have "k div 64 < 65" using k by (simp add: div_less_iff_less_mult)
    ultimately show ?thesis using False by (simp add: taken_def big_frames_def)
  qed
qed

lemma big_ok: "frame_inv big_frames" "\<exists>st. Heap_Initialize big_heap = Ok st"
proof -
  have "free_set big_frames = {1..<4160}"
    using big_taken by (fastforce simp: free_set_def big_frames_def [THEN arg_cong [of _ _ s_FrameCount]])
  then show inv: "frame_inv big_frames"
    by (simp add: frame_inv_def shape_def counted_def) (simp add: big_frames_def)
  have "run_free big_frames 1 4096"
    using big_taken by (auto simp: run_free_def) (simp_all add: big_frames_def)
  then have nz: "fst (Frame_Allocate big_frames 4096) \<noteq> 0" using Allocate_zero(1) [OF inv, of 4096] by auto
  obtain a fs where al: "Frame_Allocate big_frames 4096 = (a, fs)" by (cases "Frame_Allocate big_frames 4096")
  have A: "block_ok (unat (s_FrameCount big_frames)) a 4096"
    using frame_alloc.alloc_some [OF inv al] nz al by simp
  then have "unat a div 4096 \<le> 64" by (simp add: block_ok_def big_frames_def)
  then have "unat a < 0x100000" by (simp add: div_le_dividend less_Suc_eq_le div_less_iff_less_mult flip: less_Suc_eq_le)
  then have "unat (ToVirtual a) = unat a + 0xFFFF800000000000"
    by (simp add: ToVirtual_def DIRECT_MAP_BASE_def) (subst unat_add_no_wrap; simp)
  then have "ToVirtual a \<noteq> 0" by (metis add_is_0 unat_0 zero_neq_numeral)
  then show "\<exists>st. Heap_Initialize big_heap = Ok st"
    using nz al by (simp add: Heap_Initialize_def big_heap_def HEAP_SIZE_def FRAME_SIZE_def KIB_def Let_def)
qed

theorem Heap_client_safe_witness:
  "\<exists>st cs st'. Heap_Initialize big_heap = Ok st \<and>
     client_run Heap_Allocate Heap_Free poke [HAlloc 100, HStore 0 5 7, HAlloc 40, HFree 0] ([], st) = Ok (cs, st')"
proof -
  obtain st where st: "Heap_Initialize big_heap = Ok st" using big_ok(2) by blast
  have h: "\<not> s_Initialized big_heap" "frame_inv (h_Frames big_heap)" "unat (s_FrameCount (h_Frames big_heap)) \<le> 2 ^ 35"
    using big_ok(1) by (simp_all add: big_heap_def big_frames_def)
  have "\<forall>n. HAlloc n \<in> set [HAlloc 100, HStore 0 5 7, HAlloc 40, HFree 0] \<longrightarrow> unat n + 16 < 2 ^ 64" by auto
  from Heap_client_safe [OF h st this] show ?thesis using st by blast
qed

section \<open>Requests near the top of the address space\<close>

lemma order_for_small: "m \<le> 32 \<Longrightarrow> order_for m = 5"
  unfolding order_for_def by (rule Least_equality) auto

text \<open>
  C14: \<open>Allocate\<close> adds the header size to the request without checking for overflow. A request within
  16 bytes of \<open>SIZE_MAX\<close> wraps to a tiny one: while any block is free the call succeeds and returns
  a block with 16 usable bytes.
\<close>

theorem Heap_request_overflow:
  assumes "heap_rep {} M st" "2 ^ 64 - 16 \<le> unat n" "5 \<le> k" "k \<le> 24" "free_blocks M k \<noteq> {}"
  shows "\<exists>p st'. Heap_Allocate n st = Ok (p, st') \<and> p \<noteq> 0 \<and>
    heap_holds st' (insert (p, 16) (payload st ` live {} M))"
proof -
  have "unat n < 2 ^ 64" by (rule unat64_bound)
  then have "unat n + 16 - 2 ^ 64 < 16" "2 ^ 64 \<le> unat n + 16" using assms(2) by simp_all
  then have un: "unat (n + SIZEOF_BlockHeader) < 16"
    by (simp add: unat_word_ariths SIZEOF_BlockHeader_def mod_if)
  have n: "n \<noteq> 0" "unat (n + SIZEOF_BlockHeader) \<le> 2 ^ 24" using assms(2) un by auto
  have w: "order_for (unat (n + SIZEOF_BlockHeader)) = 5" using un by (intro order_for_small) simp
  show ?thesis
  proof (cases rule: Heap_Allocate_cases [OF assms(1) n])
    case 1
    then show ?thesis using 1(2) [of k] w assms(3-5) by simp
  next
    case (2 off M' st')
    have "(off, 5) \<in> live {} M'" using 2(3) w by simp
    then have "adr st' off + 16 \<noteq> 0" using payload_nonnull(2) [OF 2(2)] by (simp add: live_def)
    moreover have adr: "adr st' = adr st" using 2(7) by (simp add: writes_def adr_def fun_eq_iff)
    moreover have "heap_holds st' (insert (adr st off + 16, 16) (payload st ` live {} M))"
      unfolding heap_holds_def using 2(2,3) w adr by (intro exI [of _ M']) (simp add: payload_def)
    ultimately show ?thesis using 2(1) by auto
  qed
qed

theorem Heap_request_overflow_witness:
  "\<exists>st p st'. Heap_Initialize big_heap = Ok st \<and> Heap_Allocate (- 1) st = Ok (p, st') \<and> p \<noteq> 0 \<and> heap_holds st' {(p, 16)}"
proof -
  obtain st where st: "Heap_Initialize big_heap = Ok st" using big_ok(2) by blast
  have rep: "heap_rep {} [0 \<mapsto> (24, True)] st"
    by (rule Heap_Initialize_rep [OF _ _ _ st]) (use big_ok(1) in \<open>simp_all add: big_heap_def big_frames_def\<close>)
  have "live {} [0 \<mapsto> (24, True)] = {}" by (auto simp: live_def split: if_split_asm)
  moreover have "free_blocks [0 \<mapsto> (24, True)] 24 \<noteq> {}" by (auto simp: free_blocks_def)
  moreover have "2 ^ 64 - 16 \<le> unat (- 1 :: u64)" by (simp add: unsigned_minus_1_eq_mask mask_eq_exp_minus_1)
  ultimately show ?thesis using Heap_request_overflow [OF rep, of "- 1" 24] st by auto
qed

section \<open>Reallocate and calloc\<close>

text \<open>
  C12: \<open>Reallocate\<close> keeps the contents. On a live allocation and a non-zero size, other than the sizes
  within 16 bytes of \<open>2 ^ 64\<close> on which the \<open>Allocate\<close> it calls overflows, it either fails and changes nothing, or returns an allocation that is large enough, holds the old bytes up to the
  smaller of the two sizes, replaces the old one on the books, and leaves every other allocation
  as it was.
\<close>

theorem Heap_Reallocate_correct:
  assumes "heap_holds st L" "(p, c) \<in> L" "n \<noteq> 0" "unat n + 16 < 2 ^ 64"
  shows "\<exists>q st'. Heap_Reallocate p n st = Ok (q, st') \<and>
    (q = 0 \<and> st' = st \<or>
     q \<noteq> 0 \<and> (\<exists>d \<ge> unat n. heap_holds st' (insert (q, d) (L - {(p, c)}))) \<and>
     (\<forall>i < min (unat n) c. h_Memory st' (q + of_nat i) = h_Memory st (p + of_nat i)) \<and>
     (\<forall>r e x. (r, e) \<in> L - {(p, c)} \<and> x \<in> chunk_span r e \<longrightarrow> h_Memory st' x = h_Memory st x))"
proof -
  obtain M off k where rep: "heap_rep {} M st" and b: "M off = Some (k, False)"
      and p: "p = adr st off + 16" and c: "c = 2 ^ k - 16"
    by (rule heap_holdsE [OF assms(1,2)])
  note B = block_bounds [OF rep b]
  have p0: "p \<noteq> 0" using payload_nonnull(2) [OF rep b] p by simp
  have hdr: "hdr_ok (header st (p - SIZEOF_BlockHeader)) k False"
    using heap_rep_dest(6) [OF rep b] p by (simp add: SIZEOF_BlockHeader_def)
  have room: "32 \<le> (2 :: nat) ^ k" by (rule order_room [OF B(1)])
  let ?old = "push_bit (unat (Order (header st (p - SIZEOF_BlockHeader)))) 1 - SIZEOF_BlockHeader :: u64"
  have "unat (push_bit (unat (of_nat k :: u8)) 1 :: u64) = 2 ^ k" by (rule shift_nat [OF B(2)])
  then have old: "unat ?old = c"
    using hdr room c by (subst unat_sub_le) (auto simp: hdr_ok_def word_le_nat_alt SIZEOF_BlockHeader_def)
  define len where "len = (if n < ?old then n else ?old)"
  have len: "unat len = min (unat n) c" using old by (auto simp: len_def word_less_nat_alt)
  show ?thesis
  proof (cases "n \<le> ?old \<and> OrderFor (n + SIZEOF_BlockHeader) = Order (header st (p - SIZEOF_BlockHeader))")
    case True
    then have "Heap_Reallocate p n st = Ok (p, st)"
      using p0 assms(3) hdr by (simp add: Heap_Reallocate_def Let_def ASSERT_def hdr_ok_def)
    moreover have "insert (p, c) (L - {(p, c)}) = L" using assms(2) by auto
    moreover have "unat n \<le> c" using True old by (simp add: word_le_nat_alt)
    ultimately show ?thesis using p0 assms(1) by auto
  next
    case False
    obtain q st1 where A: "Heap_Allocate n st = Ok (q, st1)"
        and alt: "q = 0 \<and> st1 = st \<or> q \<noteq> 0 \<and> q \<notin> fst ` L \<and> (\<exists>d \<ge> unat n. heap_holds st1 (insert (q, d) L)) \<and>
          (\<forall>(r, e) \<in> L. \<forall>x \<in> chunk_span r e. h_Memory st1 x = h_Memory st x)"
      using heap_alloc_law [OF assms(1,4)] by blast
    let ?st2 = "st1\<lparr>h_Memory := memcpy (h_Memory st1) q p len\<rparr>"
    have R: "Heap_Reallocate p n st = (if q \<noteq> 0 then rbind (Heap_Free p ?st2) (\<lambda>st3. Ok (q, st3)) else Ok (q, st1))"
      using p0 assms(3) hdr False A
      by (auto simp: Heap_Reallocate_def Let_def ASSERT_def hdr_ok_def len_def)
    show ?thesis
    proof (cases "q = 0")
      case True
      then show ?thesis using R alt by auto
    next
      case q: False
      then obtain d where d: "unat n \<le> d" "heap_holds st1 (insert (q, d) L)" and new: "q \<notin> fst ` L"
        using alt by auto
      have keep: "h_Memory st1 x = h_Memory st x" if "(r, e) \<in> L" "x \<in> chunk_span r e" for r e x
        using alt q that by auto
      let ?L = "insert (q, d) L"
      have neq: "r \<noteq> q" if "(r, e) \<in> L" for r e using new that by force
      have apart: "chunk_span q d \<inter> chunk_span r e = {}" if "(r, e) \<in> L" for r e
        using heap_malloc.separate [OF d(2), of q d r e] neq [OF that] that by auto
      have sub: "chunk_span q (unat len) \<subseteq> chunk_span q d" "chunk_span p (unat len) \<subseteq> chunk_span p c"
        using d(1) len by (auto simp: chunk_span_def)
      then have "chunk_span q (unat len) \<inter> chunk_span p (unat len) = {}" using apart [OF assms(2)] by blast
      note cp = memcpy_disjoint [OF this, of "h_Memory st1"]
      have h2: "heap_holds ?st2 ?L"
        using sub(1) by (intro heap_holds_memory [OF d(2), of q d]) (auto simp: cp split: if_split_asm)
      obtain st3 where F: "Heap_Free p ?st2 = Ok st3" "heap_holds st3 (?L - {(p, c)})"
          and all3: "\<forall>(r, e) \<in> ?L - {(p, c)}. \<forall>x \<in> chunk_span r e. h_Memory st3 x = h_Memory ?st2 x"
        using heap_free_law [OF h2, of p c] assms(2) by auto
      have keep3: "h_Memory st3 x = h_Memory ?st2 x" if "(r, e) \<in> ?L - {(p, c)}" "x \<in> chunk_span r e" for r e x
        using bspec [OF all3 that(1)] that(2) by simp
      have qp: "(q, d) \<noteq> (p, c)" using neq [OF assms(2)] by auto
      have "h_Memory st3 (q + of_nat i) = h_Memory st (p + of_nat i)" if i: "i < min (unat n) c" for i
      proof -
        have "q + of_nat i \<in> chunk_span q d" using i d(1) by (intro chunk_span_mem) simp
        then have "h_Memory st3 (q + of_nat i) = memcpy (h_Memory st1) q p len (q + of_nat i)"
          using keep3 [of q d] qp by simp
        also have "\<dots> = h_Memory st1 (p + of_nat i)" using i len cp by (simp add: chunk_span_mem)
        also have "\<dots> = h_Memory st (p + of_nat i)" using i by (intro keep [OF assms(2)] chunk_span_mem) simp
        finally show ?thesis .
      qed
      moreover have "h_Memory st3 x = h_Memory st x" if re: "(r, e) \<in> L - {(p, c)}" "x \<in> chunk_span r e" for r e x
      proof -
        have "x \<notin> chunk_span q (unat len)" using re apart [of r e] sub(1) by auto
        then have "h_Memory ?st2 x = h_Memory st1 x" by (simp add: cp)
        then show ?thesis using keep3 [of r e x] re keep [of r e x] by simp
      qed
      moreover have "?L - {(p, c)} = insert (q, d) (L - {(p, c)})" using qp by auto
      ultimately show ?thesis using R q F d(1) by auto
    qed
  qed
qed

lemma heap_alloc_fresh:
  assumes "heap_holds st {}" "n \<noteq> 0" "unat n + 16 \<le> 2 ^ 24"
  shows "\<exists>p c st'. Heap_Allocate n st = Ok (p, st') \<and> heap_holds st' {(p, c)} \<and> unat n \<le> c"
proof -
  obtain M where rep: "heap_rep {} M st" and lv: "live {} M = {}" using assms(1) by (auto simp: heap_holds_def)
  then have none: "M off = Some (k, f) \<Longrightarrow> f" for off k f by (cases f) (auto simp: live_def)
  have M: "M = [0 \<mapsto> (24, True)]"
    by (rule coalesced_whole [OF heap_rep_dest(1,2) [OF rep]]) (rule none)
  have un: "unat (n + SIZEOF_BlockHeader) = unat n + 16"
    using assms(3) by (subst unat_add_no_wrap) (simp_all add: SIZEOF_BlockHeader_def)
  then have n: "unat (n + SIZEOF_BlockHeader) \<le> 2 ^ 24" using assms(3) by simp
  show ?thesis
  proof (cases rule: Heap_Allocate_cases [OF rep assms(2) n])
    case 1
    have "0 \<in> free_blocks M 24" by (simp add: free_blocks_def M)
    then show ?thesis using 1(2) [OF OrderFor_spec(3) [OF n]] by simp
  next
    case (2 off M' st')
    have "adr st' = adr st" using 2(7) by (simp add: writes_def adr_def fun_eq_iff)
    then have "heap_holds st' {(adr st off + 16, 2 ^ order_for (unat (n + SIZEOF_BlockHeader)) - 16)}"
      unfolding heap_holds_def using 2(2,3) lv by (intro exI [of _ M']) (simp add: payload_def)
    then show ?thesis using 2(1) OrderFor_spec(4) [OF n] un by auto
  qed
qed

lemma big_holds: "\<exists>st. Heap_Initialize big_heap = Ok st \<and> heap_holds st {}"
proof -
  obtain st where st: "Heap_Initialize big_heap = Ok st" using big_ok(2) by blast
  have rep: "heap_rep {} [0 \<mapsto> (24, True)] st"
    by (rule Heap_Initialize_rep [OF _ _ _ st]) (use big_ok(1) in \<open>simp_all add: big_heap_def big_frames_def\<close>)
  moreover have "live {} [0 \<mapsto> (24, True)] = {}" by (auto simp: live_def split: if_split_asm)
  ultimately show ?thesis using st unfolding heap_holds_def by (intro exI [of _ st]) force
qed

theorem Heap_Reallocate_correct_witness:
  "\<exists>st p c q st'. heap_holds st {(p, c)} \<and> Heap_Reallocate p 5000 st = Ok (q, st')"
proof -
  obtain st0 where "heap_holds st0 {}" using big_holds by blast
  then obtain p c st where "heap_holds st {(p, c)}" using heap_alloc_fresh [of st0 100] by auto
  from this Heap_Reallocate_correct [OF this, of p c 5000] show ?thesis by auto
qed

text \<open>
  C13: \<open>calloc\<close> checks the multiplication. When count times size does not fit 64 bits it returns null
  and changes nothing. When it fits and leaves the 16 bytes of room for the header, which \<open>Allocate\<close>
  adds unchecked, the call returns, and a non-null result has room for all elements and every byte of
  them is zero.
\<close>

theorem calloc_correct:
  assumes "heap_holds st L"
  shows "(2 ^ 64 \<le> unat InCount * unat InSize \<longrightarrow> calloc InCount InSize st = Ok (0, st)) \<and>
    (unat InCount * unat InSize + 16 < 2 ^ 64 \<longrightarrow> (\<exists>p st'. calloc InCount InSize st = Ok (p, st') \<and>
      (p \<noteq> 0 \<longrightarrow> (\<exists>c \<ge> unat InCount * unat InSize. heap_holds st' (insert (p, c) L)) \<and>
         (\<forall>i < unat InCount * unat InSize. h_Memory st' (p + of_nat i) = 0))))"
proof (cases "InCount \<noteq> 0 \<and> InCount * InSize div InCount \<noteq> InSize")
  case True
  then have "calloc InCount InSize st = Ok (0, st)" by (simp add: calloc_def Let_def)
  then show ?thesis by auto
next
  case False
  have exact: "unat (InCount * InSize) = unat InCount * unat InSize"
  proof (cases "InCount = 0")
    case nz: False
    then have d: "unat (InCount * InSize) div unat InCount = unat InSize" using False by (simp flip: unat_div)
    have "unat InCount * unat InSize < 2 ^ 64"
    proof -
      have "unat InCount * unat InSize \<le> unat (InCount * InSize)" using d by (metis times_div_less_eq_dividend)
      then show ?thesis using unat64_bound [of "InCount * InSize"] by linarith
    qed
    then show ?thesis by (intro unat_mult_no_wrap) simp
  qed simp
  let ?t = "InCount * InSize"
  have "\<exists>p st'. calloc InCount InSize st = Ok (p, st') \<and>
      (p \<noteq> 0 \<longrightarrow> (\<exists>c \<ge> unat ?t. heap_holds st' (insert (p, c) L)) \<and> (\<forall>i < unat ?t. h_Memory st' (p + of_nat i) = 0))"
    if room: "unat ?t + 16 < 2 ^ 64"
  proof -
    obtain p st1 where A: "Heap_Allocate ?t st = Ok (p, st1)"
        and alt: "p = 0 \<and> st1 = st \<or> p \<noteq> 0 \<and> p \<notin> fst ` L \<and> (\<exists>c \<ge> unat ?t. heap_holds st1 (insert (p, c) L)) \<and>
          (\<forall>(r, e) \<in> L. \<forall>x \<in> chunk_span r e. h_Memory st1 x = h_Memory st x)"
      using heap_alloc_law [OF assms room] by blast
    let ?st = "if p \<noteq> 0 then st1\<lparr>h_Memory := memset (h_Memory st1) p 0 ?t\<rparr> else st1"
    have R: "calloc InCount InSize st = Ok (p, ?st)" using False A by (auto simp: calloc_def Let_def)
    have "(\<exists>c \<ge> unat ?t. heap_holds ?st (insert (p, c) L)) \<and> (\<forall>i < unat ?t. h_Memory ?st (p + of_nat i) = 0)" if p: "p \<noteq> 0"
    proof -
      obtain c where c: "unat ?t \<le> c" "heap_holds st1 (insert (p, c) L)" using alt p by auto
      have c64: "c < 2 ^ 64" using heap_malloc.small [OF c(2)] by auto
      have sp: "x \<in> chunk_span p c" if "x - p < ?t" for x
        using that c(1) c64 span_iff [of c x p] by (simp add: word_less_nat_alt)
      have "heap_holds ?st (insert (p, c) L)"
        using p sp by (auto intro!: heap_holds_memory [OF c(2)] simp: memset_block split: if_split_asm)
      moreover have "memset (h_Memory st1) p 0 ?t (p + of_nat i) = 0" if i: "i < unat ?t" for i
        using i unat_of_nat_less [OF i] by (simp add: memset_block word_less_nat_alt)
      ultimately show ?thesis using c(1) p by auto
    qed
    then show ?thesis using R by blast
  qed
  moreover have "unat InCount * unat InSize < 2 ^ 64" using exact unat64_bound [of ?t] by simp
  ultimately show ?thesis using exact by auto
qed

theorem calloc_correct_witness:
  "\<exists>st p st'. heap_holds st {} \<and> calloc 10 20 st = Ok (p, st') \<and> calloc (2 ^ 33) (2 ^ 33 + 1) st = Ok (0, st)"
proof -
  obtain st where st: "heap_holds st {}" using big_holds by blast
  have "unat (10 :: u64) * unat (20 :: u64) + 16 < 2 ^ 64" "2 ^ 64 \<le> unat (2 ^ 33 :: u64) * unat (2 ^ 33 + 1 :: u64)"
    by simp_all
  with calloc_correct [OF st, of 10 20] calloc_correct [OF st, of "2 ^ 33" "2 ^ 33 + 1"] st show ?thesis by blast
qed

end
