(* ===== verification/HK_Bits.thy ===== *)
theory HK_Bits
  imports HK_Prelude
begin

text \<open>
  Bit fields. The hardware structures of the kernel are C++ unions of a word with a struct of bit
  fields; reading and assigning a field of \<open>w\<close> bits at offset \<open>k\<close> are \<open>get_field k w\<close> and
  \<open>set_field k w\<close>, and the laws below are what the register code relies on.
\<close>

definition get_field :: "nat \<Rightarrow> nat \<Rightarrow> 'a::len word \<Rightarrow> 'a word" where
  "get_field k w x = take_bit w (drop_bit k x)"

definition set_field :: "nat \<Rightarrow> nat \<Rightarrow> 'a::len word \<Rightarrow> 'a word \<Rightarrow> 'a word" where
  "set_field k w v x = (x AND NOT (push_bit k (mask w))) OR push_bit k (take_bit w v)"

named_theorems field_simps_hk \<open>reading bit fields back\<close>

lemma bit_get_field: "bit (get_field k w x) n \<longleftrightarrow> n < w \<and> bit x (k + n)" for x :: "'a::len word"
  by (auto simp: get_field_def bit_take_bit_iff bit_drop_bit_eq)

lemma bit_set_field:
  "bit (set_field k w v x) n \<longleftrightarrow> n < LENGTH('a) \<and> (if k \<le> n \<and> n < k + w then bit v (n - k) else bit x n)"
  for x :: "'a::len word"
  by (auto simp: set_field_def bit_or_iff bit_and_iff bit_not_iff bit_push_bit_iff bit_mask_iff bit_take_bit_iff
      dest: bit_imp_le_length)

lemma get_set_same [field_simps_hk]:
  "k + w \<le> LENGTH('a) \<Longrightarrow> get_field k w (set_field k w v x) = take_bit w v" for x :: "'a::len word"
  by (rule bit_word_eqI) (auto simp: bit_get_field bit_set_field bit_take_bit_iff)

lemma get_set_other [field_simps_hk]:
  "k + w \<le> k' \<or> k' + w' \<le> k \<Longrightarrow> get_field k w (set_field k' w' v x) = get_field k w x" for x :: "'a::len word"
  by (rule bit_word_eqI) (auto simp: bit_get_field bit_set_field bit_imp_le_length)

lemma set_get_id [field_simps_hk]: "set_field k w (get_field k w x) x = x" for x :: "'a::len word"
  by (rule bit_word_eqI) (auto simp: bit_get_field bit_set_field bit_imp_le_length)

lemma get_field_zero [field_simps_hk]: "get_field k w 0 = 0"
  by (simp add: get_field_def)

lemma set_field_idem [field_simps_hk]: "set_field k w v (set_field k w u x) = set_field k w v x" for x :: "'a::len word"
  by (rule bit_word_eqI) (auto simp: bit_set_field)

lemma get_field_less: "w < LENGTH('a) \<Longrightarrow> unat (get_field k w x) < 2 ^ w" for x :: "'a::len word"
  by (simp add: get_field_def unsigned_take_bit_eq take_bit_nat_less_exp)

lemma take_bit_small: "unat v < 2 ^ w \<Longrightarrow> take_bit w v = v" for v :: "'a::len word"
  by (metis take_bit_nat_eq_self unsigned_take_bit_eq word_unat_eq_iff)

text \<open>A word is the sum of its two halves; the drivers split 64 bit entries into 32 bit registers.\<close>

definition low32 :: "u64 \<Rightarrow> u32" where "low32 x = ucast x"
definition high32 :: "u64 \<Rightarrow> u32" where "high32 x = ucast (drop_bit 32 x)"
definition join32 :: "u32 \<Rightarrow> u32 \<Rightarrow> u64" where "join32 low high = push_bit 32 (ucast high) OR ucast low"

lemma join_split [simp]: "join32 (low32 x) (high32 x) = x"
  unfolding join32_def low32_def high32_def
  by (rule bit_word_eqI)
    (auto simp: bit_or_iff bit_push_bit_iff bit_unsigned_iff bit_drop_bit_eq bit_imp_le_length)

lemma bit_join32: "bit (join32 l h) n \<longleftrightarrow> (if n < 32 then bit l n else n < 64 \<and> bit h (n - 32))"
  by (auto simp: join32_def bit_or_iff bit_push_bit_iff bit_unsigned_iff dest: bit_imp_le_length)

lemma split_join [simp]: "low32 (join32 l h) = l" "high32 (join32 l h) = h"
  by (rule bit_word_eqI; simp add: low32_def high32_def bit_unsigned_iff bit_drop_bit_eq bit_join32)+

end
