(* ===== verification/HK_Bus.thy ===== *)
theory HK_Bus
  imports HK_Bits "HOL-Library.State_Monad"
begin

text \<open>
  The machine seen from a driver: the I/O ports of \<open>Kernel/Arch/IoPort.h\<close>, the model specific
  registers of \<open>Kernel/Arch/Msr.h\<close>, the control registers of \<open>Kernel/Arch/ControlRegister.h\<close>, the
  descriptor table and task registers, and memory mapped device registers. The hardware is a parameter
  \<open>hw\<close>: what a read returns is a function of the whole history of accesses, so every device, with
  any internal state, is one value of \<open>hw\<close>. A driver is a computation of the state monad over a
  record that extends \<open>bus\<close>, whose only field is that history, newest access first.
\<close>

section \<open>Accesses\<close>

datatype channel = Port8 u16 | Port16 u16 | Port32 u16 | Mmio32 u64 | MsrChannel u32
  | ControlChannel u8 | GdtLimit | GdtBase | IdtLimit | IdtBase | TaskRegister

datatype bus_event = Rd channel u64 | Wr channel u64

type_synonym hardware = "bus_event list \<Rightarrow> channel \<Rightarrow> u64"

record bus = trace :: "bus_event list"

definition bus_read :: "hardware \<Rightarrow> channel \<Rightarrow> ('a bus_scheme, u64) state" where
  "bus_read hw c = State (\<lambda>s. let v = hw (trace s) c in (v, s\<lparr>trace := Rd c v # trace s\<rparr>))"

definition bus_write :: "channel \<Rightarrow> u64 \<Rightarrow> ('a bus_scheme, unit) state" where
  "bus_write c v = State (\<lambda>s. ((), s\<lparr>trace := Wr c v # trace s\<rparr>))"

section \<open>IoPort\<close>

type_synonym IoPort = u16

definition OutB :: "IoPort \<Rightarrow> u8 \<Rightarrow> ('a bus_scheme, unit) state" where
  "OutB port v = bus_write (Port8 port) (ucast v)"

definition OutW :: "IoPort \<Rightarrow> u16 \<Rightarrow> ('a bus_scheme, unit) state" where
  "OutW port v = bus_write (Port16 port) (ucast v)"

definition OutL :: "IoPort \<Rightarrow> u32 \<Rightarrow> ('a bus_scheme, unit) state" where
  "OutL port v = bus_write (Port32 port) (ucast v)"

definition InB :: "hardware \<Rightarrow> IoPort \<Rightarrow> ('a bus_scheme, u8) state" where
  "InB hw port = do { v \<leftarrow> bus_read hw (Port8 port); State_Monad.return (ucast v) }"

definition InW :: "hardware \<Rightarrow> IoPort \<Rightarrow> ('a bus_scheme, u16) state" where
  "InW hw port = do { v \<leftarrow> bus_read hw (Port16 port); State_Monad.return (ucast v) }"

definition InL :: "hardware \<Rightarrow> IoPort \<Rightarrow> ('a bus_scheme, u32) state" where
  "InL hw port = do { v \<leftarrow> bus_read hw (Port32 port); State_Monad.return (ucast v) }"

definition IoPort_Wait :: "('a bus_scheme, unit) state" where
  "IoPort_Wait = OutB 0x80 0"

section \<open>Msr\<close>

datatype MsrIndex = PLATFORM_INFO | APIC_BASE | TSC_DEADLINE | EFER | STAR | LSTAR | SFMASK | FS_BASE
  | GS_BASE | KERNEL_GS_BASE

primrec MsrIndex_value :: "MsrIndex \<Rightarrow> u32" where
  "MsrIndex_value PLATFORM_INFO = 0xce"
| "MsrIndex_value APIC_BASE = 0x1b"
| "MsrIndex_value TSC_DEADLINE = 0x6e0"
| "MsrIndex_value EFER = 0xc0000080"
| "MsrIndex_value STAR = 0xc0000081"
| "MsrIndex_value LSTAR = 0xc0000082"
| "MsrIndex_value SFMASK = 0xc0000084"
| "MsrIndex_value FS_BASE = 0xc0000100"
| "MsrIndex_value GS_BASE = 0xc0000101"
| "MsrIndex_value KERNEL_GS_BASE = 0xc0000102"

datatype MsrEfer = SCE | LME | LMA | NXE

primrec MsrEfer_value :: "MsrEfer \<Rightarrow> u64" where
  "MsrEfer_value SCE = 0x1"
| "MsrEfer_value LME = 0x100"
| "MsrEfer_value LMA = 0x400"
| "MsrEfer_value NXE = 0x800"

text \<open>The two halves \<open>edx:eax\<close> the instructions work on are joined to the one 64 bit value.\<close>

definition Msr_Read :: "hardware \<Rightarrow> MsrIndex \<Rightarrow> ('a bus_scheme, u64) state" where
  "Msr_Read hw i = do {
     v \<leftarrow> bus_read hw (MsrChannel (MsrIndex_value i));
     let low = low32 v;
     let high = high32 v;
     State_Monad.return (join32 low high) }"

definition Msr_Write :: "MsrIndex \<Rightarrow> u64 \<Rightarrow> ('a bus_scheme, unit) state" where
  "Msr_Write i v = bus_write (MsrChannel (MsrIndex_value i))
     (join32 (low32 v) (high32 v))"

section \<open>ControlRegister\<close>

definition ControlRegister_Read :: "hardware \<Rightarrow> u8 \<Rightarrow> ('a bus_scheme, u64) state" where
  "ControlRegister_Read hw INDEX = bus_read hw (ControlChannel INDEX)"

definition ControlRegister_Write :: "u8 \<Rightarrow> u64 \<Rightarrow> ('a bus_scheme, unit) state" where
  "ControlRegister_Write INDEX v = bus_write (ControlChannel INDEX) v"

section \<open>Memory mapped registers\<close>

definition Mmio_Read :: "hardware \<Rightarrow> u64 \<Rightarrow> ('a bus_scheme, u32) state" where
  "Mmio_Read hw a = do { v \<leftarrow> bus_read hw (Mmio32 a); State_Monad.return (ucast v) }"

definition Mmio_Write :: "u64 \<Rightarrow> u32 \<Rightarrow> ('a bus_scheme, unit) state" where
  "Mmio_Write a v = bus_write (Mmio32 a) (ucast v)"

section \<open>Running and reasoning\<close>

named_theorems run_simps \<open>running the computations of the drivers\<close>

lemma run_bind [simp, run_simps]:
  "run_state (x \<bind> f) s = (case run_state x s of (a, s') \<Rightarrow> run_state (f a) s')"
  by (cases x) (simp add: State_Monad.bind_def)

lemma run_get_set [simp, run_simps]:
  "run_state State_Monad.get s = (s, s)"
  "run_state (State_Monad.set s') s = ((), s')"
  "run_state (State_Monad.update f) s = ((), f s)"
  by (simp_all add: State_Monad.get_def State_Monad.set_def State_Monad.update_def)

lemma run_bus_read [run_simps]:
  "run_state (bus_read hw c) s = (hw (trace s) c, s\<lparr>trace := Rd c (hw (trace s) c) # trace s\<rparr>)"
  by (simp add: bus_read_def Let_def)

lemma run_bus_write [run_simps]:
  "run_state (bus_write c v) s = ((), s\<lparr>trace := Wr c v # trace s\<rparr>)"
  by (simp add: bus_write_def)

lemma run_ports [run_simps]:
  "run_state (InB hw p) s = (ucast (hw (trace s) (Port8 p)), s\<lparr>trace := Rd (Port8 p) (hw (trace s) (Port8 p)) # trace s\<rparr>)"
  "run_state (OutB p b) s = ((), s\<lparr>trace := Wr (Port8 p) (ucast b) # trace s\<rparr>)"
  "run_state (OutW p w) s = ((), s\<lparr>trace := Wr (Port16 p) (ucast w) # trace s\<rparr>)"
  "run_state (OutL p l) s = ((), s\<lparr>trace := Wr (Port32 p) (ucast l) # trace s\<rparr>)"
  by (simp_all add: InB_def OutB_def OutW_def OutL_def run_simps)

lemma run_mmio [run_simps]:
  "run_state (Mmio_Read hw a) s = (ucast (hw (trace s) (Mmio32 a)), s\<lparr>trace := Rd (Mmio32 a) (hw (trace s) (Mmio32 a)) # trace s\<rparr>)"
  "run_state (Mmio_Write a r) s = ((), s\<lparr>trace := Wr (Mmio32 a) (ucast r) # trace s\<rparr>)"
  by (simp_all add: Mmio_Read_def Mmio_Write_def run_simps)

lemma run_msr [run_simps]:
  "run_state (Msr_Read hw i) s = (hw (trace s) (MsrChannel (MsrIndex_value i)),
     s\<lparr>trace := Rd (MsrChannel (MsrIndex_value i)) (hw (trace s) (MsrChannel (MsrIndex_value i))) # trace s\<rparr>)"
  "run_state (Msr_Write i v) s = ((), s\<lparr>trace := Wr (MsrChannel (MsrIndex_value i)) v # trace s\<rparr>)"
  by (simp_all add: Msr_Read_def Msr_Write_def run_simps Let_def)

text \<open>Hoare triples for the computations, and their rules.\<close>

definition hoare :: "('s \<Rightarrow> bool) \<Rightarrow> ('s, 'a) state \<Rightarrow> ('a \<Rightarrow> 's \<Rightarrow> bool) \<Rightarrow> bool" where
  "hoare P m Q \<longleftrightarrow> (\<forall>s. P s \<longrightarrow> Q (fst (run_state m s)) (snd (run_state m s)))"

definition keeps :: "('s \<Rightarrow> bool) \<Rightarrow> ('s, 'a) state \<Rightarrow> bool" where
  "keeps P m \<longleftrightarrow> hoare P m (\<lambda>_. P)"

named_theorems keeps_intros \<open>which computations keep an invariant\<close>

lemma hoareI: "(\<And>s. P s \<Longrightarrow> Q (fst (run_state m s)) (snd (run_state m s))) \<Longrightarrow> hoare P m Q"
  by (simp add: hoare_def)

lemma hoareD: "hoare P m Q \<Longrightarrow> P s \<Longrightarrow> run_state m s = (a, s') \<Longrightarrow> Q a s'"
  by (auto simp: hoare_def)

lemma hoare_bind: "hoare P m R \<Longrightarrow> (\<And>a. hoare (R a) (f a) Q) \<Longrightarrow> hoare P (m \<bind> f) Q"
  by (auto simp: hoare_def split: prod.split)

lemma keepsD: "keeps P m \<Longrightarrow> P s \<Longrightarrow> P (snd (run_state m s))"
  by (simp add: keeps_def hoare_def)

lemma keeps_bind [keeps_intros]: "keeps P m \<Longrightarrow> (\<And>a. keeps P (f a)) \<Longrightarrow> keeps P (m \<bind> f)"
  unfolding keeps_def by (rule hoare_bind)

lemma keeps_return [keeps_intros]: "keeps P (State_Monad.return a)"
  by (simp add: keeps_def hoare_def)

lemma keeps_get [keeps_intros]: "keeps P State_Monad.get"
  by (simp add: keeps_def hoare_def)

lemma keeps_if [keeps_intros]: "(b \<Longrightarrow> keeps P m) \<Longrightarrow> (\<not> b \<Longrightarrow> keeps P n) \<Longrightarrow> keeps P (if b then m else n)"
  by simp

lemma keeps_let [keeps_intros]: "(\<And>a. keeps P (f a)) \<Longrightarrow> keeps P (let a = v in f a)"
  by simp

end
