(* ===== verification/HK_Chipset.thy ===== *)
theory HK_Chipset
  imports HK_Bus
begin

text \<open>
  The small legacy devices: the interrupt controller pair of \<open>Kernel/Arch/Pic.cpp\<close>, the CMOS
  memory with its shared NMI mask of \<open>Kernel/Arch/Cmos.cpp\<close>, reset and power off of
  \<open>Kernel/Arch/System.cpp\<close>, and the UART of \<open>Kernel/Arch/Serial.cpp\<close>.
\<close>

section \<open>Pic\<close>

datatype InitCommandWord1 = ICW4_NEEDED | SINGLE_MODE | ADDRESS_INTERVAL_HALF | LEVEL_TRIGGERED | ALWAYS_ONE

primrec InitCommandWord1_value :: "InitCommandWord1 \<Rightarrow> u8" where
  "InitCommandWord1_value ICW4_NEEDED = 1"
| "InitCommandWord1_value SINGLE_MODE = 2"
| "InitCommandWord1_value ADDRESS_INTERVAL_HALF = 4"
| "InitCommandWord1_value LEVEL_TRIGGERED = 8"
| "InitCommandWord1_value ALWAYS_ONE = 16"

datatype InitCommandWord4 = MODE_8086 | AUTO_EOI | BUFFER_PRIMARY | BUFFERED_MODE | SPECIAL_FULLY_NESTED

primrec InitCommandWord4_value :: "InitCommandWord4 \<Rightarrow> u8" where
  "InitCommandWord4_value MODE_8086 = 1"
| "InitCommandWord4_value AUTO_EOI = 2"
| "InitCommandWord4_value BUFFER_PRIMARY = 4"
| "InitCommandWord4_value BUFFERED_MODE = 8"
| "InitCommandWord4_value SPECIAL_FULLY_NESTED = 16"

definition Pic_Initialize :: "('a bus_scheme, unit) state" where
  "Pic_Initialize =
     (let primaryCommand = 0x20; primaryData = 0x21; secondaryCommand = 0xa0; secondaryData = 0xa1;
          icw1 = InitCommandWord1_value ICW4_NEEDED OR InitCommandWord1_value ALWAYS_ONE;
          icw4 = InitCommandWord4_value MODE_8086 OR InitCommandWord4_value AUTO_EOI;
          CASCADE_PIN = 2
      in do {
        OutB primaryCommand icw1;
        OutB secondaryCommand icw1;
        OutB primaryData 0x20;
        OutB secondaryData 0x28;
        OutB primaryData (push_bit CASCADE_PIN 1);
        OutB secondaryData (of_nat CASCADE_PIN);
        OutB primaryData icw4;
        OutB secondaryData icw4;
        OutB secondaryData 0xff;
        OutB primaryData 0xff })"

section \<open>Cmos\<close>

datatype CmosRegister = SECOND | ALARM_SECOND | MINUTE | ALARM_MINUTE | HOUR | ALARM_HOUR | WEEKDAY
  | DAY_OF_MONTH | MONTH | YEAR | STATUS_A | STATUS_B | STATUS_C | STATUS_D | STATUS_DIAGNOSE | STATUS_SHUTDOWN

primrec CmosRegister_value :: "CmosRegister \<Rightarrow> u8" where
  "CmosRegister_value SECOND = 0x0"
| "CmosRegister_value ALARM_SECOND = 0x1"
| "CmosRegister_value MINUTE = 0x2"
| "CmosRegister_value ALARM_MINUTE = 0x3"
| "CmosRegister_value HOUR = 0x4"
| "CmosRegister_value ALARM_HOUR = 0x5"
| "CmosRegister_value WEEKDAY = 0x6"
| "CmosRegister_value DAY_OF_MONTH = 0x7"
| "CmosRegister_value MONTH = 0x8"
| "CmosRegister_value YEAR = 0x9"
| "CmosRegister_value STATUS_A = 0xa"
| "CmosRegister_value STATUS_B = 0xb"
| "CmosRegister_value STATUS_C = 0xc"
| "CmosRegister_value STATUS_D = 0xd"
| "CmosRegister_value STATUS_DIAGNOSE = 0xe"
| "CmosRegister_value STATUS_SHUTDOWN = 0xf"

record cmos = bus +
  Nmi_s_Disabled :: bool

definition Cmos_s_Address :: IoPort where "Cmos_s_Address = 0x70"
definition Cmos_s_Data :: IoPort where "Cmos_s_Data = 0x71"
definition NMI_MASK :: u8 where "NMI_MASK = 0x80"

definition Nmi_Enable :: "hardware \<Rightarrow> ('a cmos_scheme, unit) state" where
  "Nmi_Enable hw = do {
     v \<leftarrow> InB hw Cmos_s_Address;
     OutB Cmos_s_Address (v AND NOT NMI_MASK);
     State_Monad.update (Nmi_s_Disabled_update (\<lambda>_. False)) }"

definition Nmi_Disable :: "hardware \<Rightarrow> ('a cmos_scheme, unit) state" where
  "Nmi_Disable hw = do {
     v \<leftarrow> InB hw Cmos_s_Address;
     OutB Cmos_s_Address (v OR NMI_MASK);
     State_Monad.update (Nmi_s_Disabled_update (\<lambda>_. True)) }"

definition Nmi_IsEnabled :: "hardware \<Rightarrow> ('a cmos_scheme, bool) state" where
  "Nmi_IsEnabled hw = do {
     v \<leftarrow> InB hw Cmos_s_Address;
     State_Monad.update (Nmi_s_Disabled_update (\<lambda>_. v AND NMI_MASK \<noteq> 0));
     s \<leftarrow> State_Monad.get;
     State_Monad.return (\<not> Nmi_s_Disabled s) }"

definition SelectRegister :: "CmosRegister \<Rightarrow> ('a cmos_scheme, unit) state" where
  "SelectRegister InRegister = do {
     s \<leftarrow> State_Monad.get;
     let value = CmosRegister_value InRegister;
     let value = (if Nmi_s_Disabled s then value OR NMI_MASK else value AND NOT NMI_MASK);
     OutB Cmos_s_Address value }"

definition Cmos_Read :: "hardware \<Rightarrow> CmosRegister \<Rightarrow> ('a cmos_scheme, u8) state" where
  "Cmos_Read hw InRegister = do { SelectRegister InRegister; InB hw Cmos_s_Data }"

definition Cmos_Write :: "CmosRegister \<Rightarrow> u8 \<Rightarrow> ('a cmos_scheme, unit) state" where
  "Cmos_Write InRegister InValue = do { SelectRegister InRegister; OutB Cmos_s_Data InValue }"

lemmas cmos_defs = Cmos_s_Address_def Cmos_s_Data_def NMI_MASK_def Nmi_Enable_def Nmi_Disable_def
  Nmi_IsEnabled_def SelectRegister_def Cmos_Read_def Cmos_Write_def

section \<open>System\<close>

text \<open>\<open>Reboot\<close> ends in \<open>Cpu::Die\<close>, which never returns: the computation is what it does before.\<close>

definition System_Reboot :: "('a cmos_scheme, unit) state" where
  "System_Reboot = do { Cmos_Write STATUS_SHUTDOWN 0; OutB 0x92 0x03 }"

definition System_Shutdown :: "('a bus_scheme, unit) state" where
  "System_Shutdown = do { OutW 0x604 0x2000; OutW 0xb004 0x2000; OutW 0x4004 0x3400 }"

section \<open>Serial\<close>

datatype ComPort = COM1 | COM2 | COM3 | COM4

primrec ComPort_value :: "ComPort \<Rightarrow> u16" where
  "ComPort_value COM1 = 0x3f8"
| "ComPort_value COM2 = 0x2f8"
| "ComPort_value COM3 = 0x3e8"
| "ComPort_value COM4 = 0x2e8"

datatype BaudRate = B300 | B600 | B1200 | B2400 | B4800 | B9600 | B19200 | B38400 | B57600 | B115200

primrec BaudRate_value :: "BaudRate \<Rightarrow> u16" where
  "BaudRate_value B300 = 384"
| "BaudRate_value B600 = 192"
| "BaudRate_value B1200 = 96"
| "BaudRate_value B2400 = 48"
| "BaudRate_value B4800 = 24"
| "BaudRate_value B9600 = 12"
| "BaudRate_value B19200 = 6"
| "BaudRate_value B38400 = 3"
| "BaudRate_value B57600 = 2"
| "BaudRate_value B115200 = 1"

datatype DataBits = D5 | D6 | D7 | D8

primrec DataBits_value :: "DataBits \<Rightarrow> u8" where
  "DataBits_value D5 = 0"
| "DataBits_value D6 = 1"
| "DataBits_value D7 = 2"
| "DataBits_value D8 = 3"

datatype StopBits = S1 | S2

primrec StopBits_value :: "StopBits \<Rightarrow> u8" where
  "StopBits_value S1 = 0"
| "StopBits_value S2 = 4"

datatype Parity = PARITY_NONE | ODD | EVEN | MARK | SPACE

primrec Parity_value :: "Parity \<Rightarrow> u8" where
  "Parity_value PARITY_NONE = 0"
| "Parity_value ODD = 8"
| "Parity_value EVEN = 24"
| "Parity_value MARK = 40"
| "Parity_value SPACE = 56"

datatype SerialRegister = RECEIVE_BUFFER | TRANSMIT_BUFFER | DIVISOR_LOW | INTERRUPT_ENABLE | DIVISOR_HIGH
  | INTERRUPT_IDENT | FIFO_CONTROL | LINE_CONTROL | MODEM_CONTROL | LINE_STATUS | MODEM_STATUS

primrec SerialRegister_value :: "SerialRegister \<Rightarrow> u8" where
  "SerialRegister_value RECEIVE_BUFFER = 0"
| "SerialRegister_value TRANSMIT_BUFFER = 0"
| "SerialRegister_value DIVISOR_LOW = 0"
| "SerialRegister_value INTERRUPT_ENABLE = 1"
| "SerialRegister_value DIVISOR_HIGH = 1"
| "SerialRegister_value INTERRUPT_IDENT = 2"
| "SerialRegister_value FIFO_CONTROL = 2"
| "SerialRegister_value LINE_CONTROL = 3"
| "SerialRegister_value MODEM_CONTROL = 4"
| "SerialRegister_value LINE_STATUS = 5"
| "SerialRegister_value MODEM_STATUS = 6"

datatype RegisterMask = ENABLE_FIFO | CLEAR_RECEIVE_FIFO | CLEAR_TRANSMIT_FIFO | DIVISOR_LATCH_ACCESS
  | DATA_TERMINAL_READY | REQUEST_TO_SEND | OUT_2 | DATA_READY | OVERRUN_ERROR | PARITY_ERROR | FRAMING_ERROR
  | TRANSMIT_HOLDING_EMPTY

primrec RegisterMask_value :: "RegisterMask \<Rightarrow> u8" where
  "RegisterMask_value ENABLE_FIFO = 1"
| "RegisterMask_value CLEAR_RECEIVE_FIFO = 2"
| "RegisterMask_value CLEAR_TRANSMIT_FIFO = 4"
| "RegisterMask_value DIVISOR_LATCH_ACCESS = 128"
| "RegisterMask_value DATA_TERMINAL_READY = 1"
| "RegisterMask_value REQUEST_TO_SEND = 2"
| "RegisterMask_value OUT_2 = 8"
| "RegisterMask_value DATA_READY = 1"
| "RegisterMask_value OVERRUN_ERROR = 2"
| "RegisterMask_value PARITY_ERROR = 4"
| "RegisterMask_value FRAMING_ERROR = 8"
| "RegisterMask_value TRANSMIT_HOLDING_EMPTY = 32"

definition Serial_port :: "ComPort \<Rightarrow> SerialRegister \<Rightarrow> IoPort" where
  "Serial_port m_Port r = ComPort_value m_Port + ucast (SerialRegister_value r)"

definition Serial_ReadRegister :: "hardware \<Rightarrow> ComPort \<Rightarrow> SerialRegister \<Rightarrow> ('a bus_scheme, u8) state" where
  "Serial_ReadRegister hw m_Port r = InB hw (Serial_port m_Port r)"

definition Serial_WriteRegister :: "ComPort \<Rightarrow> SerialRegister \<Rightarrow> u8 \<Rightarrow> ('a bus_scheme, unit) state" where
  "Serial_WriteRegister m_Port r v = OutB (Serial_port m_Port r) v"

definition Serial_init :: "ComPort \<Rightarrow> BaudRate \<Rightarrow> DataBits \<Rightarrow> StopBits \<Rightarrow> Parity \<Rightarrow> ('a bus_scheme, unit) state" where
  "Serial_init port baud dataBits stopBits parity = do {
     Serial_WriteRegister port INTERRUPT_ENABLE 0;
     Serial_WriteRegister port LINE_CONTROL (RegisterMask_value DIVISOR_LATCH_ACCESS);
     Serial_WriteRegister port DIVISOR_LOW (ucast (BaudRate_value baud AND 0xff));
     Serial_WriteRegister port DIVISOR_HIGH (ucast (drop_bit 8 (BaudRate_value baud) AND 0xff));
     Serial_WriteRegister port LINE_CONTROL
       (DataBits_value dataBits OR StopBits_value stopBits OR Parity_value parity);
     Serial_WriteRegister port FIFO_CONTROL (RegisterMask_value ENABLE_FIFO OR
       RegisterMask_value CLEAR_RECEIVE_FIFO OR RegisterMask_value CLEAR_TRANSMIT_FIFO);
     Serial_WriteRegister port MODEM_CONTROL (RegisterMask_value DATA_TERMINAL_READY OR
       RegisterMask_value REQUEST_TO_SEND OR RegisterMask_value OUT_2) }"

text \<open>The bounded poll of \<open>Serial::Write\<close>: whether the transmit register became empty in time.\<close>

function Serial_WaitEmpty :: "hardware \<Rightarrow> ComPort \<Rightarrow> int \<Rightarrow> ('a bus_scheme, bool) state" where
  "Serial_WaitEmpty hw port attempts = do {
     status \<leftarrow> Serial_ReadRegister hw port LINE_STATUS;
     if status AND RegisterMask_value TRANSMIT_HOLDING_EMPTY = 0
     then (let attempts = attempts - 1 in
           if attempts \<le> 0 then State_Monad.return False else Serial_WaitEmpty hw port attempts)
     else State_Monad.return True }"
  by pat_completeness auto
termination
  by (relation "measure (\<lambda>(hw, port, attempts). nat attempts)") auto

declare Serial_WaitEmpty.simps [simp del]

definition SERIAL_ATTEMPTS :: int where "SERIAL_ATTEMPTS = 1000000"

definition SERIAL_ERRORS :: u8 where
  "SERIAL_ERRORS = RegisterMask_value OVERRUN_ERROR OR RegisterMask_value PARITY_ERROR OR RegisterMask_value FRAMING_ERROR"

definition Serial_Write :: "hardware \<Rightarrow> ComPort \<Rightarrow> u8 \<Rightarrow> ('a bus_scheme, int) state" where
  "Serial_Write hw port InByte = do {
     ready \<leftarrow> Serial_WaitEmpty hw port SERIAL_ATTEMPTS;
     if \<not> ready then State_Monad.return (- 1)
     else do {
       Serial_WriteRegister port TRANSMIT_BUFFER InByte;
       status \<leftarrow> Serial_ReadRegister hw port LINE_STATUS;
       State_Monad.return (if status AND SERIAL_ERRORS \<noteq> 0 then - 1 else uint InByte) } }"

definition Serial_Read :: "hardware \<Rightarrow> ComPort \<Rightarrow> ('a bus_scheme, int) state" where
  "Serial_Read hw port = do {
     status \<leftarrow> Serial_ReadRegister hw port LINE_STATUS;
     if status AND RegisterMask_value DATA_READY = 0 then State_Monad.return (- 1)
     else do { v \<leftarrow> Serial_ReadRegister hw port RECEIVE_BUFFER; State_Monad.return (uint v) } }"

section \<open>Facts\<close>

text \<open>Selecting a register never changes the NMI mask: bit 7 of the index follows \<open>s_Disabled\<close>.\<close>

lemma select_nmi: "(if d then v OR NMI_MASK else v AND NOT NMI_MASK) AND NMI_MASK = (if d then NMI_MASK else 0)"
  by (simp add: NMI_MASK_def bit_eq_iff bit_simps) auto

text \<open>The transmit poll reads the status register only, and at most \<open>attempts\<close> times.\<close>

lemma Serial_WaitEmpty_bounded:
  assumes "0 < attempts"
  shows "\<exists>reads. trace (snd (run_state (Serial_WaitEmpty hw port attempts) s)) = reads @ trace s
     \<and> 0 < length reads \<and> int (length reads) \<le> attempts
     \<and> set reads \<subseteq> range (Rd (Port8 (Serial_port port LINE_STATUS)))"
  using assms
proof (induction hw port attempts arbitrary: s rule: Serial_WaitEmpty.induct)
  case (1 hw port attempts)
  let ?r = "Rd (Port8 (Serial_port port LINE_STATUS)) (hw (trace s) (Port8 (Serial_port port LINE_STATUS)))"
  let ?st = "ucast (hw (trace s) (Port8 (Serial_port port LINE_STATUS))) :: u8"
  show ?case
  proof (cases "?st AND RegisterMask_value TRANSMIT_HOLDING_EMPTY = 0 \<and> \<not> attempts - 1 \<le> 0")
    case True
    with 1(1) [of ?st "attempts - 1" "s\<lparr>trace := ?r # trace s\<rparr>"] obtain reads where
      "trace (snd (run_state (Serial_WaitEmpty hw port (attempts - 1)) (s\<lparr>trace := ?r # trace s\<rparr>))) = reads @ ?r # trace s"
      "int (length reads) \<le> attempts - 1" "set reads \<subseteq> range (Rd (Port8 (Serial_port port LINE_STATUS)))"
      by auto
    with True show ?thesis
      by (intro exI [of _ "reads @ [?r]"])
        (simp add: Serial_WaitEmpty.simps [of hw port attempts] Serial_ReadRegister_def run_simps Let_def)
  next
    case False
    with 1(2) show ?thesis
      by (intro exI [of _ "[?r]"])
        (auto simp: Serial_WaitEmpty.simps [of hw port attempts] Serial_ReadRegister_def run_simps Let_def)
  qed
qed

end
