(* ===== verification/HK_Pit.thy ===== *)
theory HK_Pit
  imports HK_Bus
begin

text \<open>
  \<open>Kernel/Arch/Pit.cpp\<close>: channel 2 of the programmable interval timer. \<open>WaitForTimeout\<close> polls the
  hardware without a bound, so it is a partial function and \<open>None\<close> is the poll that never ends.
\<close>

section \<open>Registers\<close>

definition PIT_CHANNEL :: u8 where "PIT_CHANNEL = 2"
definition BASE_FREQUENCY :: u64 where "BASE_FREQUENCY = 1193182"

definition Pit_s_Data :: IoPort where "Pit_s_Data = 0x40 + ucast PIT_CHANNEL"
definition s_ModeRegister :: IoPort where "s_ModeRegister = 0x43"
definition s_ControlRegister :: IoPort where "s_ControlRegister = 0x61"

datatype AccessMode = LATCH_COUNT | LOW_BYTE | HIGH_BYTE | LOW_AND_HIGH_BYTE

primrec AccessMode_value :: "AccessMode \<Rightarrow> u8" where
  "AccessMode_value LATCH_COUNT = 0"
| "AccessMode_value LOW_BYTE = 1"
| "AccessMode_value HIGH_BYTE = 2"
| "AccessMode_value LOW_AND_HIGH_BYTE = 3"

datatype OperatingMode = INTERRUPT_ON_TERMINAL_COUNT | PROGRAMMABLE_ONE_SHOT | RATE_GENERATOR
  | SQUARE_WAVE_GENERATOR | SOFTWARE_TRIGGERED_STROBE | HARDWARE_TRIGGERED_STROBE

primrec OperatingMode_value :: "OperatingMode \<Rightarrow> u8" where
  "OperatingMode_value INTERRUPT_ON_TERMINAL_COUNT = 0"
| "OperatingMode_value PROGRAMMABLE_ONE_SHOT = 1"
| "OperatingMode_value RATE_GENERATOR = 2"
| "OperatingMode_value SQUARE_WAVE_GENERATOR = 3"
| "OperatingMode_value SOFTWARE_TRIGGERED_STROBE = 4"
| "OperatingMode_value HARDWARE_TRIGGERED_STROBE = 5"

datatype Format = BINARY | BCD

primrec Format_value :: "Format \<Rightarrow> u8" where
  "Format_value BINARY = 0"
| "Format_value BCD = 1"

definition Pit_Mode :: "AccessMode \<Rightarrow> OperatingMode \<Rightarrow> Format \<Rightarrow> u8" where
  "Pit_Mode access operating format =
     set_field 6 2 PIT_CHANNEL (set_field 4 2 (AccessMode_value access)
       (set_field 1 3 (OperatingMode_value operating) (set_field 0 1 (Format_value format) 0)))"

definition Pit_Mode_latch :: u8 where
  "Pit_Mode_latch = set_field 6 2 PIT_CHANNEL 0"

definition Pit_Mode_Write :: "u8 \<Rightarrow> ('a bus_scheme, unit) state" where
  "Pit_Mode_Write mode = OutB s_ModeRegister mode"

definition Control_Read :: "hardware \<Rightarrow> ('a bus_scheme, u8) state" where
  "Control_Read hw = InB hw s_ControlRegister"

definition Control_Write :: "u8 \<Rightarrow> ('a bus_scheme, unit) state" where
  "Control_Write control = OutB s_ControlRegister (control AND 0x0f)"

definition EnableTimerCounter2 :: "u8 \<Rightarrow> u8" where "EnableTimerCounter2 control = get_field 0 1 control"
definition set_EnableTimerCounter2 :: "u8 \<Rightarrow> u8 \<Rightarrow> u8" where
  "set_EnableTimerCounter2 v control = set_field 0 1 v control"
definition EnableSpeakerData :: "u8 \<Rightarrow> u8" where "EnableSpeakerData control = get_field 1 1 control"
definition set_EnableSpeakerData :: "u8 \<Rightarrow> u8 \<Rightarrow> u8" where
  "set_EnableSpeakerData v control = set_field 1 1 v control"
definition StatusTimerCounter2 :: "u8 \<Rightarrow> u8" where "StatusTimerCounter2 control = get_field 5 1 control"

lemmas pit_defs = PIT_CHANNEL_def BASE_FREQUENCY_def Pit_s_Data_def s_ModeRegister_def s_ControlRegister_def
  Pit_Mode_def Pit_Mode_latch_def Pit_Mode_Write_def Control_Read_def Control_Write_def
  EnableTimerCounter2_def set_EnableTimerCounter2_def EnableSpeakerData_def set_EnableSpeakerData_def
  StatusTimerCounter2_def

section \<open>Operations\<close>

definition Pit_Counter :: "u16 \<Rightarrow> u64" where
  "Pit_Counter InMicroseconds = BASE_FREQUENCY * ucast InMicroseconds div 1000000"

definition Pit_Set :: "hardware \<Rightarrow> u16 \<Rightarrow> ('a bus_scheme, bool) state" where
  "Pit_Set hw InMicroseconds =
     (let counter = Pit_Counter InMicroseconds in
      if counter > 0xffff then State_Monad.return False
      else do {
        control \<leftarrow> Control_Read hw;
        let control = set_EnableSpeakerData 0 control;
        let control = set_EnableTimerCounter2 1 control;
        Control_Write control;
        Pit_Mode_Write (Pit_Mode LOW_AND_HIGH_BYTE INTERRUPT_ON_TERMINAL_COUNT BINARY);
        OutB Pit_s_Data (ucast (counter AND 0xff));
        OutB Pit_s_Data (ucast (drop_bit 8 counter AND 0xff));
        State_Monad.return True })"

definition Pit_Get :: "hardware \<Rightarrow> ('a bus_scheme, u16) state" where
  "Pit_Get hw = do {
     Pit_Mode_Write Pit_Mode_latch;
     low \<leftarrow> InB hw Pit_s_Data;
     high \<leftarrow> InB hw Pit_s_Data;
     State_Monad.return (ucast low OR push_bit 8 (ucast high)) }"

definition Pit_IsActive :: "hardware \<Rightarrow> ('a bus_scheme, bool) state" where
  "Pit_IsActive hw = do {
     control \<leftarrow> Control_Read hw;
     State_Monad.return (EnableTimerCounter2 control = 1 \<and> StatusTimerCounter2 control = 0) }"

partial_function (option) WaitForTimeout :: "hardware \<Rightarrow> 'a bus_scheme \<Rightarrow> (bool \<times> 'a bus_scheme) option" where
  "WaitForTimeout hw s =
     (let (control, s) = run_state (Control_Read hw) s in
      if EnableTimerCounter2 control = 0 then Some (False, s)
      else if StatusTimerCounter2 control = 1 then Some (True, s)
      else WaitForTimeout hw s)"

declare WaitForTimeout.simps [code]

definition Pit_Delay :: "hardware \<Rightarrow> u16 \<Rightarrow> 'a bus_scheme \<Rightarrow> (bool \<times> 'a bus_scheme) option" where
  "Pit_Delay hw InMicroseconds s =
     (let (armed, s) = run_state (Pit_Set hw InMicroseconds) s in
      if armed then WaitForTimeout hw s else Some (False, s))"

definition Pit_Disable :: "hardware \<Rightarrow> ('a bus_scheme, unit) state" where
  "Pit_Disable hw = do {
     control \<leftarrow> Control_Read hw;
     let control = set_EnableSpeakerData 0 control;
     let control = set_EnableTimerCounter2 0 control;
     Control_Write control }"

definition PcSpeaker :: "hardware \<Rightarrow> u32 \<Rightarrow> ('a bus_scheme, unit) state" where
  "PcSpeaker hw InFrequency =
     (if InFrequency = 0 then Pit_Disable hw
      else do {
        control \<leftarrow> Control_Read hw;
        let divisor = BASE_FREQUENCY div ucast InFrequency;
        let divisor = (if divisor > 0xffff then 0xffff else divisor);
        let alreadyPlaying = (EnableSpeakerData control \<noteq> 0);
        (if \<not> alreadyPlaying
         then Pit_Mode_Write (Pit_Mode LOW_AND_HIGH_BYTE SQUARE_WAVE_GENERATOR BINARY)
         else State_Monad.return ());
        OutB Pit_s_Data (ucast (divisor AND 0xff));
        OutB Pit_s_Data (ucast (drop_bit 8 divisor AND 0xff));
        (if \<not> alreadyPlaying
         then Control_Write (set_EnableTimerCounter2 1 (set_EnableSpeakerData 1 control))
         else State_Monad.return ()) })"

section \<open>The armed counter\<close>

lemma Pit_Counter_nat: "unat (Pit_Counter us) = 1193182 * unat us div 1000000"
proof -
  have "unat us < 2 ^ 16" using unat_bound [of us] by simp
  then have "unat (ucast us :: u64) = unat us" "1193182 * unat us < 2 ^ 64"
    by (simp_all add: unsigned_ucast_eq take_bit_nat_eq_self)
  then have "unat (BASE_FREQUENCY * ucast us) = 1193182 * unat us"
    by (subst unat_mult_no_wrap) (simp_all add: BASE_FREQUENCY_def)
  then show ?thesis by (simp add: Pit_Counter_def unat_div)
qed

lemma bytes_of_counter:
  assumes "unat (c :: u64) \<le> 0xffff"
  shows "unat (ucast (c AND 0xff) :: u8) + 256 * unat (ucast (drop_bit 8 c AND 0xff) :: u8) = unat c"
proof -
  have ff: "(0xff :: u64) = mask 8" by (simp add: mask_eq_exp_minus_1)
  have "unat (ucast (c AND 0xff) :: u8) = unat c mod 256"
    unfolding ff by (simp add: take_bit_eq_mask [symmetric] unsigned_ucast_eq unsigned_take_bit_eq take_bit_eq_mod unat_mod)
  moreover have "unat (ucast (drop_bit 8 c AND 0xff) :: u8) = unat c div 256 mod 256"
    unfolding ff
    by (simp add: take_bit_eq_mask [symmetric] unsigned_ucast_eq unsigned_take_bit_eq unsigned_drop_bit_eq
        take_bit_eq_mod drop_bit_eq_div unat_mod unat_div)
  ultimately show ?thesis using assms by (simp add: div_mod_decomp)
qed

lemma control_armed:
  "(set_EnableTimerCounter2 1 (set_EnableSpeakerData 0 c) AND 0x0f) AND 0xf3 = (1 :: u8)"
proof -
  have "bit ((set_EnableTimerCounter2 1 (set_EnableSpeakerData 0 c) AND 0x0f) AND 0xf3 :: u8) n = bit (1 :: u8) n"
    if "n < 8" for n
  proof -
    from that have "n = 0 \<or> n = 1 \<or> n = 2 \<or> n = 3 \<or> n = 4 \<or> n = 5 \<or> n = 6 \<or> n = 7" by arith
    then show ?thesis
      by (elim disjE) (simp_all add: set_EnableTimerCounter2_def set_EnableSpeakerData_def bit_and_iff bit_set_field)
  qed
  then show ?thesis by (intro bit_word_eqI) simp
qed

text \<open>
  C32: \<open>Pit::Set\<close> accepts a period exactly when its count fits the 16 bit counter, which is up to
  54925 microseconds. A refused period touches no register. An accepted one first writes the
  control port with the gate on, the speaker off and the four status bits zero, then selects mode 0
  with both count bytes, and then writes the count, low byte first; the two bytes together are the
  number of 1.193182 MHz ticks in the period, rounded down.
\<close>
theorem Pit_Set_programs:
  "if unat us \<le> 54925
   then \<exists>control lo hi. run_state (Pit_Set hw us) s = (True, s\<lparr>trace :=
            [Wr (Port8 0x42) (ucast (hi :: u8)), Wr (Port8 0x42) (ucast (lo :: u8)), Wr (Port8 0x43) 0xb0,
             Wr (Port8 0x61) (ucast (control :: u8)), Rd (Port8 0x61) (hw (trace s) (Port8 0x61))] @ trace s\<rparr>)
          \<and> control AND 0xf3 = 1 \<and> unat lo + 256 * unat hi = 1193182 * unat us div 1000000
   else run_state (Pit_Set hw us) s = (False, s)"
proof (cases "unat us \<le> 54925")
  case True
  then have small: "unat (Pit_Counter us) \<le> 0xffff" by (simp add: Pit_Counter_nat)
  then have "\<not> Pit_Counter us > 0xffff" by (simp add: word_nat not_less)
  moreover have "Pit_Mode LOW_AND_HIGH_BYTE INTERRUPT_ON_TERMINAL_COUNT BINARY = 0xb0"
    by code_simp
  ultimately show ?thesis
    unfolding if_P [OF True]
    using bytes_of_counter [OF small] control_armed
    by (intro exI [of _ "set_EnableTimerCounter2 1 (set_EnableSpeakerData 0 (ucast (hw (trace s) (Port8 0x61)))) AND 0x0f"]
        exI [of _ "ucast (Pit_Counter us AND 0xff)"] exI [of _ "ucast (drop_bit 8 (Pit_Counter us) AND 0xff)"])
      (simp add: Pit_Set_def run_simps Control_Read_def Control_Write_def Pit_Mode_Write_def
        s_ControlRegister_def s_ModeRegister_def Pit_s_Data_def PIT_CHANNEL_def Pit_Counter_nat Let_def)
next
  case False
  then have "Pit_Counter us > 0xffff" by (simp add: word_nat Pit_Counter_nat)
  with False show ?thesis by (simp add: Pit_Set_def)
qed

end
