(* ===== verification/HK_LocalApic.thy ===== *)
theory HK_LocalApic
  imports HK_Pit
begin

text \<open>
  The local interrupt controller of each core: \<open>Kernel/Arch/LocalApicRegisters.h\<close>,
  \<open>LocalApic.cpp\<close>, \<open>LocalApicIpi.cpp\<close> and \<open>LocalApicTimer.cpp\<close>. A register union that reads in its
  constructor and writes back in its destructor is the read, the field assignments and the write
  in that order. Waiting for the previous inter-processor interrupt has no bound in the code, so
  the operations that wait are partial.
\<close>

section \<open>Registers\<close>

datatype ApicIndex = IDENTIFICATION | VERSION | TASK_PRIORITY | END_OF_INTERRUPT | LOGICAL_DESTINATION
  | DESTINATION_FORMAT | SPURIOUS_INTERRUPT_VECTOR | IN_SERVICE | INTERRUPT_COMMAND_LOW
  | INTERRUPT_COMMAND_HIGH | TIMER_CONTROL | TIMER_INITIAL_COUNT | TIMER_CURRENT_COUNT
  | TIMER_DIVIDE_CONFIGURATION

primrec ApicIndex_value :: "ApicIndex \<Rightarrow> u16" where
  "ApicIndex_value IDENTIFICATION = 0x020"
| "ApicIndex_value VERSION = 0x030"
| "ApicIndex_value TASK_PRIORITY = 0x080"
| "ApicIndex_value END_OF_INTERRUPT = 0x0b0"
| "ApicIndex_value LOGICAL_DESTINATION = 0x0d0"
| "ApicIndex_value DESTINATION_FORMAT = 0x0e0"
| "ApicIndex_value SPURIOUS_INTERRUPT_VECTOR = 0x0f0"
| "ApicIndex_value IN_SERVICE = 0x100"
| "ApicIndex_value INTERRUPT_COMMAND_LOW = 0x300"
| "ApicIndex_value INTERRUPT_COMMAND_HIGH = 0x310"
| "ApicIndex_value TIMER_CONTROL = 0x320"
| "ApicIndex_value TIMER_INITIAL_COUNT = 0x380"
| "ApicIndex_value TIMER_CURRENT_COUNT = 0x390"
| "ApicIndex_value TIMER_DIVIDE_CONFIGURATION = 0x3e0"

record lapic = bus +
  s_BaseAddress :: u64
  s_Counter :: u32
  s_Divider :: u8
  s_IntervalMicroseconds :: u32

definition lapic_reset_base :: u64 where "lapic_reset_base = 0xfee00000"

definition LocalApic_ReadAt :: "hardware \<Rightarrow> u16 \<Rightarrow> ('a lapic_scheme, u32) state" where
  "LocalApic_ReadAt hw i = do { s \<leftarrow> State_Monad.get; Mmio_Read hw (s_BaseAddress s + ucast i) }"

definition LocalApic_Read :: "hardware \<Rightarrow> ApicIndex \<Rightarrow> ('a lapic_scheme, u32) state" where
  "LocalApic_Read hw i = LocalApic_ReadAt hw (ApicIndex_value i)"

definition LocalApic_Write :: "ApicIndex \<Rightarrow> u32 \<Rightarrow> ('a lapic_scheme, unit) state" where
  "LocalApic_Write i v = do { s \<leftarrow> State_Monad.get; Mmio_Write (s_BaseAddress s + ucast (ApicIndex_value i)) v }"

definition GetBaseAddress :: "('a lapic_scheme, u64) state" where
  "GetBaseAddress = do { s \<leftarrow> State_Monad.get; State_Monad.return (s_BaseAddress s) }"

text \<open>A scoped register: read on construction, change fields, write on destruction.\<close>

definition scoped_register :: "hardware \<Rightarrow> ApicIndex \<Rightarrow> (u32 \<Rightarrow> u32) \<Rightarrow> ('a lapic_scheme, unit) state" where
  "scoped_register hw i f = do { v \<leftarrow> LocalApic_Read hw i; LocalApic_Write i (f v) }"

definition IdentificationRegister_ApicId :: "u32 \<Rightarrow> u32" where
  "IdentificationRegister_ApicId v = get_field 24 8 v"
definition VersionRegister_Version :: "u32 \<Rightarrow> u32" where
  "VersionRegister_Version v = get_field 0 8 v"
definition LogicalDestinationRegister_LogicalId :: "u32 \<Rightarrow> u32" where
  "LogicalDestinationRegister_LogicalId v = get_field 24 8 v"
definition set_LogicalId :: "u32 \<Rightarrow> u32 \<Rightarrow> u32" where "set_LogicalId = set_field 24 8"

datatype DestinationModel = CLUSTER | FLAT

primrec DestinationModel_value :: "DestinationModel \<Rightarrow> u32" where
  "DestinationModel_value CLUSTER = 0x0"
| "DestinationModel_value FLAT = 0xf"

definition set_Model :: "u32 \<Rightarrow> u32 \<Rightarrow> u32" where "set_Model = set_field 28 4"
definition set_TaskPriority :: "u32 \<Rightarrow> u32 \<Rightarrow> u32 \<Rightarrow> u32" where
  "set_TaskPriority subClass priority v = set_field 0 4 subClass (set_field 4 4 priority v)"
definition set_Spurious :: "u32 \<Rightarrow> u32 \<Rightarrow> u32 \<Rightarrow> u32 \<Rightarrow> u32" where
  "set_Spurious vector enabled focus v = set_field 9 1 focus (set_field 8 1 enabled (set_field 0 8 vector v))"

section \<open>LocalApic.cpp\<close>

definition LocalApic_GetId :: "hardware \<Rightarrow> ('a lapic_scheme, u8) state" where
  "LocalApic_GetId hw = do {
     v \<leftarrow> LocalApic_Read hw IDENTIFICATION;
     State_Monad.return (ucast (IdentificationRegister_ApicId v)) }"

definition LocalApic_GetLogicalId :: "hardware \<Rightarrow> ('a lapic_scheme, u8) state" where
  "LocalApic_GetLogicalId hw = do {
     v \<leftarrow> LocalApic_Read hw LOGICAL_DESTINATION;
     LocalApic_Write LOGICAL_DESTINATION v;
     State_Monad.return (ucast (LogicalDestinationRegister_LogicalId v)) }"

definition LocalApic_GetVersion :: "hardware \<Rightarrow> ('a lapic_scheme, u8) state" where
  "LocalApic_GetVersion hw = do {
     v \<leftarrow> LocalApic_Read hw VERSION;
     State_Monad.return (ucast (VersionRegister_Version v)) }"

definition LocalApic_Initialize :: "hardware \<Rightarrow> u8 \<Rightarrow> ('a lapic_scheme, unit) state" where
  "LocalApic_Initialize hw InLogicalId = do {
     scoped_register hw LOGICAL_DESTINATION (set_LogicalId (ucast InLogicalId));
     scoped_register hw DESTINATION_FORMAT (set_Model (DestinationModel_value FLAT));
     scoped_register hw TASK_PRIORITY (set_TaskPriority 0 0);
     scoped_register hw SPURIOUS_INTERRUPT_VECTOR (set_Spurious 0xff 1 1) }"

definition EndOfInterrupt :: "hardware \<Rightarrow> ('a lapic_scheme, unit) state" where
  "EndOfInterrupt hw = do {
     _ \<leftarrow> LocalApic_Read hw SPURIOUS_INTERRUPT_VECTOR;
     LocalApic_Write END_OF_INTERRUPT 0 }"

text \<open>\<open>__builtin_clz\<close>: the number of leading zero bits of a non-zero 32 bit value.\<close>

definition builtin_clz :: "u32 \<Rightarrow> nat" where
  "builtin_clz x = length (takeWhile (\<lambda>i. \<not> bit x i) (rev [0..<32]))"

function GetInServiceVector_loop :: "hardware \<Rightarrow> int \<Rightarrow> ('a lapic_scheme, u16) state" where
  "GetInServiceVector_loop hw word =
     (if 0 \<le> word then do {
        bits \<leftarrow> LocalApic_ReadAt hw (ApicIndex_value IN_SERVICE + of_int (word * 0x10));
        if bits \<noteq> 0 then State_Monad.return (of_int (word * 32 + (31 - int (builtin_clz bits))))
        else GetInServiceVector_loop hw (word - 1) }
      else State_Monad.return 0)"
  by pat_completeness auto
termination
  by (relation "measure (\<lambda>(hw, word). nat (word + 1))") auto

declare GetInServiceVector_loop.simps [simp del]

definition GetInServiceVector :: "hardware \<Rightarrow> ('a lapic_scheme, u16) state" where
  "GetInServiceVector hw = GetInServiceVector_loop hw 7"

section \<open>LocalApicIpi.cpp\<close>

datatype IpiDeliveryMode = IPI_FIXED | IPI_LOWEST_PRIORITY | IPI_SMI | IPI_NMI | IPI_INIT | IPI_STARTUP

primrec IpiDeliveryMode_value :: "IpiDeliveryMode \<Rightarrow> u64" where
  "IpiDeliveryMode_value IPI_FIXED = 0"
| "IpiDeliveryMode_value IPI_LOWEST_PRIORITY = 1"
| "IpiDeliveryMode_value IPI_SMI = 2"
| "IpiDeliveryMode_value IPI_NMI = 4"
| "IpiDeliveryMode_value IPI_INIT = 5"
| "IpiDeliveryMode_value IPI_STARTUP = 6"

datatype IpiDestinationMode = IPI_PHYSICAL | IPI_LOGICAL

primrec IpiDestinationMode_value :: "IpiDestinationMode \<Rightarrow> u64" where
  "IpiDestinationMode_value IPI_PHYSICAL = 0"
| "IpiDestinationMode_value IPI_LOGICAL = 1"

datatype DeliveryStatus = IDLE | SEND_PENDING

primrec DeliveryStatus_value :: "DeliveryStatus \<Rightarrow> u64" where
  "DeliveryStatus_value IDLE = 0"
| "DeliveryStatus_value SEND_PENDING = 1"

datatype IpiLevel = LEVEL_DEASSERT | LEVEL_ASSERT

primrec IpiLevel_value :: "IpiLevel \<Rightarrow> u64" where
  "IpiLevel_value LEVEL_DEASSERT = 0"
| "IpiLevel_value LEVEL_ASSERT = 1"

datatype IpiTriggerMode = IPI_EDGE | IPI_LEVEL

primrec IpiTriggerMode_value :: "IpiTriggerMode \<Rightarrow> u64" where
  "IpiTriggerMode_value IPI_EDGE = 0"
| "IpiTriggerMode_value IPI_LEVEL = 1"

datatype Shorthand = NO_SHORTHAND | SELF | ALL_INCLUDING_SELF | ALL_EXCLUDING_SELF

primrec Shorthand_value :: "Shorthand \<Rightarrow> u64" where
  "Shorthand_value NO_SHORTHAND = 0"
| "Shorthand_value SELF = 1"
| "Shorthand_value ALL_INCLUDING_SELF = 2"
| "Shorthand_value ALL_EXCLUDING_SELF = 3"

text \<open>The assignments of the constructor bodies to the 64 bit command, in their order.\<close>

definition InterruptCommand_fields ::
  "u8 \<Rightarrow> IpiDeliveryMode \<Rightarrow> IpiDestinationMode \<Rightarrow> IpiLevel \<Rightarrow> IpiTriggerMode \<Rightarrow> Shorthand \<Rightarrow> u8 \<Rightarrow> u64 \<Rightarrow> u64" where
  "InterruptCommand_fields vector delivery destination level trigger short destinationId v =
     set_field 56 8 (ucast destinationId)
      (set_field 18 2 (Shorthand_value short)
       (set_field 15 1 (IpiTriggerMode_value trigger)
        (set_field 14 1 (IpiLevel_value level)
         (set_field 11 1 (IpiDestinationMode_value destination)
          (set_field 8 3 (IpiDeliveryMode_value delivery)
           (set_field 0 8 (ucast vector) v))))))"

definition Command_Status :: "u64 \<Rightarrow> u64" where "Command_Status v = get_field 12 1 v"

definition IsSendPending :: "hardware \<Rightarrow> u64 \<Rightarrow> ('a lapic_scheme, bool \<times> u64) state" where
  "IsSendPending hw command = do {
     low \<leftarrow> LocalApic_Read hw INTERRUPT_COMMAND_LOW;
     let command = join32 low (high32 command);
     State_Monad.return (Command_Status command = DeliveryStatus_value SEND_PENDING, command) }"

partial_function (option) WaitWhilePending ::
  "hardware \<Rightarrow> u64 \<Rightarrow> 'a lapic_scheme \<Rightarrow> (u64 \<times> 'a lapic_scheme) option" where
  "WaitWhilePending hw command s =
     (let ((pending, command), s) = run_state (IsSendPending hw command) s in
      if pending then WaitWhilePending hw command s else Some (command, s))"

declare WaitWhilePending.simps [code]

definition WaitForIdle :: "hardware \<Rightarrow> 'a lapic_scheme \<Rightarrow> (u64 \<times> 'a lapic_scheme) option" where
  "WaitForIdle hw s = do {
     (command, s) \<leftarrow> WaitWhilePending hw 0 s;
     let (high, s) = run_state (LocalApic_Read hw INTERRUPT_COMMAND_HIGH) s;
     Some (join32 (low32 command) high, s) }"

definition Command_Send :: "u64 \<Rightarrow> ('a lapic_scheme, unit) state" where
  "Command_Send command = do {
     LocalApic_Write INTERRUPT_COMMAND_HIGH (high32 command);
     LocalApic_Write INTERRUPT_COMMAND_LOW (low32 command) }"

definition InterruptCommand_Send ::
  "hardware \<Rightarrow> (u64 \<Rightarrow> u64) \<Rightarrow> 'a lapic_scheme \<Rightarrow> (unit \<times> 'a lapic_scheme) option" where
  "InterruptCommand_Send hw fill s = do {
     (command, s) \<leftarrow> WaitForIdle hw s;
     Some (run_state (Command_Send (fill command)) s) }"

definition InterruptCommand_to :: "u8 \<Rightarrow> u8 \<Rightarrow> IpiDestinationMode \<Rightarrow> u64 \<Rightarrow> u64" where
  "InterruptCommand_to InDestinationId InVector mode =
     InterruptCommand_fields InVector IPI_FIXED mode LEVEL_ASSERT IPI_EDGE NO_SHORTHAND InDestinationId"

definition InterruptCommand_short :: "Shorthand \<Rightarrow> u8 \<Rightarrow> IpiDeliveryMode \<Rightarrow> IpiTriggerMode \<Rightarrow> IpiLevel \<Rightarrow> u64 \<Rightarrow> u64" where
  "InterruptCommand_short InShorthand InVector delivery trigger level =
     InterruptCommand_fields InVector delivery IPI_PHYSICAL level trigger InShorthand 0"

definition IsDelivered :: "hardware \<Rightarrow> ('a lapic_scheme, bool) state" where
  "IsDelivered hw = do {
     low \<leftarrow> LocalApic_Read hw INTERRUPT_COMMAND_LOW;
     (pending, _) \<leftarrow> IsSendPending hw (join32 low 0);
     State_Monad.return (\<not> pending) }"

definition Ipi_Send :: "hardware \<Rightarrow> u8 \<Rightarrow> u8 \<Rightarrow> 'a lapic_scheme \<Rightarrow> (unit \<times> 'a lapic_scheme) option" where
  "Ipi_Send hw InDestinationApicId InVector =
     InterruptCommand_Send hw (InterruptCommand_to InDestinationApicId InVector IPI_PHYSICAL)"

definition Ipi_SendGroup :: "hardware \<Rightarrow> u8 \<Rightarrow> u8 \<Rightarrow> 'a lapic_scheme \<Rightarrow> (unit \<times> 'a lapic_scheme) option" where
  "Ipi_SendGroup hw InLogicalDestination InVector =
     InterruptCommand_Send hw (InterruptCommand_to InLogicalDestination InVector IPI_LOGICAL)"

definition Ipi_SendAll :: "hardware \<Rightarrow> u8 \<Rightarrow> 'a lapic_scheme \<Rightarrow> (unit \<times> 'a lapic_scheme) option" where
  "Ipi_SendAll hw InVector =
     InterruptCommand_Send hw (InterruptCommand_short ALL_INCLUDING_SELF InVector IPI_FIXED IPI_EDGE LEVEL_ASSERT)"

definition Ipi_SendOthers :: "hardware \<Rightarrow> u8 \<Rightarrow> 'a lapic_scheme \<Rightarrow> (unit \<times> 'a lapic_scheme) option" where
  "Ipi_SendOthers hw InVector =
     InterruptCommand_Send hw (InterruptCommand_short ALL_EXCLUDING_SELF InVector IPI_FIXED IPI_EDGE LEVEL_ASSERT)"

definition Ipi_SendInit :: "hardware \<Rightarrow> bool \<Rightarrow> 'a lapic_scheme \<Rightarrow> (unit \<times> 'a lapic_scheme) option" where
  "Ipi_SendInit hw InAssert =
     InterruptCommand_Send hw (InterruptCommand_short ALL_EXCLUDING_SELF 0 IPI_INIT
       (if InAssert then IPI_EDGE else IPI_LEVEL) (if InAssert then LEVEL_ASSERT else LEVEL_DEASSERT))"

definition Ipi_SendStartup :: "hardware \<Rightarrow> u8 \<Rightarrow> 'a lapic_scheme \<Rightarrow> (unit \<times> 'a lapic_scheme) option" where
  "Ipi_SendStartup hw InVector =
     InterruptCommand_Send hw (InterruptCommand_short ALL_EXCLUDING_SELF InVector IPI_STARTUP IPI_EDGE LEVEL_ASSERT)"

section \<open>LocalApicTimer.cpp\<close>

datatype TimerMode = ONE_SHOT | PERIODIC | DEADLINE

primrec TimerMode_value :: "TimerMode \<Rightarrow> u32" where
  "TimerMode_value ONE_SHOT = 0"
| "TimerMode_value PERIODIC = 1"
| "TimerMode_value DEADLINE = 2"

definition TIMER_VECTOR :: u8 where "TIMER_VECTOR = 0x20"

definition set_TimerVector :: "u32 \<Rightarrow> u32 \<Rightarrow> u32" where "set_TimerVector = set_field 0 8"
definition set_TimerMasked :: "u32 \<Rightarrow> u32 \<Rightarrow> u32" where "set_TimerMasked = set_field 16 1"
definition set_TimerMode :: "u32 \<Rightarrow> u32 \<Rightarrow> u32" where "set_TimerMode = set_field 17 2"

definition INVALID_DIVIDE :: u32 where "INVALID_DIVIDE = 0xff"

definition EncodeDivide :: "u8 \<Rightarrow> u32" where
  "EncodeDivide InDivide =
     (if InDivide = 1 then 0xb else if InDivide = 2 then 0x0 else if InDivide = 4 then 0x1
      else if InDivide = 8 then 0x2 else if InDivide = 16 then 0x3 else if InDivide = 32 then 0x8
      else if InDivide = 64 then 0x9 else if InDivide = 128 then 0xa else INVALID_DIVIDE)"

definition Timer_Set :: "u32 \<Rightarrow> u8 \<Rightarrow> u8 \<Rightarrow> bool \<Rightarrow> bool \<Rightarrow> ('a lapic_scheme, unit) state" where
  "Timer_Set InCounter InDivide InVector InPeriodic InMasked =
     (let divide = EncodeDivide InDivide in
      if divide = INVALID_DIVIDE then State_Monad.return ()
      else
        (let control = set_TimerMode (TimerMode_value (if InPeriodic then PERIODIC else ONE_SHOT))
               (set_TimerMasked (if InMasked then 1 else 0) (set_TimerVector (ucast InVector) 0))
         in do {
           LocalApic_Write TIMER_DIVIDE_CONFIGURATION divide;
           LocalApic_Write TIMER_CONTROL control;
           LocalApic_Write TIMER_INITIAL_COUNT InCounter }))"

definition SAMPLE_MICROSECONDS :: u16 where "SAMPLE_MICROSECONDS = 50000"

definition MeasureTickRate :: "hardware \<Rightarrow> 'a lapic_scheme \<Rightarrow> (u32 \<times> 'a lapic_scheme) option" where
  "MeasureTickRate hw s =
     (let (_, s) = run_state (Pit_Set hw SAMPLE_MICROSECONDS) s;
          (_, s) = run_state (Timer_Set 0xffffffff 1 TIMER_VECTOR False True) s;
          (start, s) = run_state (LocalApic_Read hw TIMER_CURRENT_COUNT) s
      in do {
        (_, s) \<leftarrow> WaitForTimeout hw s;
        let (stop, s) = run_state (LocalApic_Read hw TIMER_CURRENT_COUNT) s;
        Some ((start - stop) div ucast (SAMPLE_MICROSECONDS div 1000), s) })"

text \<open>
  The loop of \<open>Setup\<close>. It starts at divider 1, so the divider is never zero; the guard on that only
  makes the function total.
\<close>

function ChooseDivider :: "u64 \<Rightarrow> u8 \<Rightarrow> u64 \<Rightarrow> u8 \<times> u64" where
  "ChooseDivider ticks divider counter =
     (if counter > 0xffffffff \<and> divider < 128 \<and> 0 < divider
      then (let divider = divider * 2; counter = ticks div ucast divider in ChooseDivider ticks divider counter)
      else (divider, counter))"
  by pat_completeness auto
termination
proof (relation "measure (\<lambda>(ticks, divider, counter). 256 - unat divider)", simp)
  fix ticks counter c :: u64 and divider d :: u8
  assume "0xffffffff < counter \<and> divider < 128 \<and> 0 < divider" "d = divider * 2"
  moreover from this have "unat d = 2 * unat divider" by (subst \<open>d = _\<close>, subst unat_mult_no_wrap) (auto simp: word_nat)
  ultimately show "((ticks, d, c), ticks, divider, counter) \<in> measure (\<lambda>(ticks, divider, counter). 256 - unat divider)"
    by (auto simp: word_nat)
qed

declare ChooseDivider.simps [simp del]

definition Timer_Setup :: "hardware \<Rightarrow> u32 \<Rightarrow> 'a lapic_scheme \<Rightarrow> (bool \<times> 'a lapic_scheme) option" where
  "Timer_Setup hw InMicroseconds s = do {
     (rate, s) \<leftarrow> MeasureTickRate hw s;
     let ticksPerMillisecond = (ucast rate :: u64);
     let ticks = ucast InMicroseconds * ticksPerMillisecond div 1000;
     let (divider, counter) = ChooseDivider ticks 1 ticks;
     Some (if counter > 0xffffffff \<or> counter = 0 then (False, s)
           else (True, s\<lparr>s_IntervalMicroseconds := InMicroseconds, s_Divider := divider, s_Counter := ucast counter\<rparr>)) }"

definition Timer_Interval :: "('a lapic_scheme, u32) state" where
  "Timer_Interval = do { s \<leftarrow> State_Monad.get; State_Monad.return (s_IntervalMicroseconds s) }"

definition Timer_Activate :: "('a lapic_scheme, unit) state" where
  "Timer_Activate = do {
     s \<leftarrow> State_Monad.get;
     Timer_Set (s_Counter s) (s_Divider s) TIMER_VECTOR True False }"

definition Timer_SetMasked :: "hardware \<Rightarrow> bool \<Rightarrow> ('a lapic_scheme, unit) state" where
  "Timer_SetMasked hw InMasked = do {
     control \<leftarrow> LocalApic_Read hw TIMER_CONTROL;
     LocalApic_Write TIMER_CONTROL (set_TimerMasked (if InMasked then 1 else 0) control) }"

section \<open>The divider\<close>

lemma unat_power_two: "k < LENGTH('a) \<Longrightarrow> unat (2 ^ k :: 'a::len word) = 2 ^ k"
  using unat_of_nat_small [of "2 ^ k", where 'a = 'a] by simp

lemma power_of_two_u8: "k \<le> 7 \<Longrightarrow> unat (2 ^ k :: u8) = 2 ^ k"
  by (simp add: unat_power_two)

lemma ucast_power_u8:
  assumes "k \<le> 7"
  shows "(ucast (2 ^ k :: u8) :: u64) = 2 ^ k"
proof -
  have "(2 :: nat) ^ k < 2 ^ 64" using assms by (intro power_strict_increasing) simp_all
  with assms show ?thesis
    by (intro word_unat_eq_iff [THEN iffD2]) (simp add: unsigned_ucast_eq unat_power_two take_bit_nat_eq_self)
qed

lemma ticks_div: "k \<le> 7 \<Longrightarrow> unat (ticks div 2 ^ k) = unat ticks div 2 ^ k" for ticks :: u64
  by (simp add: unat_div unat_power_two)

lemma ChooseDivider_power:
  assumes "k \<le> 7" "\<forall>j<k. 2 ^ 32 \<le> unat ticks div 2 ^ j"
  shows "\<exists>m \<le> 7. ChooseDivider ticks (2 ^ k) (ticks div 2 ^ k) = (2 ^ m, ticks div 2 ^ m)
    \<and> (\<forall>j<m. 2 ^ 32 \<le> unat ticks div 2 ^ j) \<and> (m = 7 \<or> unat ticks div 2 ^ m < 2 ^ 32)"
  using assms
proof (induction "7 - k" arbitrary: k)
  case 0
  then have "k = 7" by simp
  with 0 show ?case by (intro exI [of _ 7]) (simp add: ChooseDivider.simps)
next
  case (Suc d)
  then have k: "k < 7" by simp
  show ?case
  proof (cases "2 ^ 32 \<le> unat ticks div 2 ^ k")
    case True
    have big: "0xffffffff < ticks div 2 ^ k" using True k by (simp add: word_less_nat_alt ticks_div)
    have d: "(2 :: u8) ^ k < 128" "0 < (2 :: u8) ^ k"
      using k power_strict_increasing [of k 7 "2 :: nat"] by (simp_all add: word_nat power_of_two_u8)
    have "2 ^ k * 2 = (2 :: u8) ^ Suc k" by simp
    then have step: "ChooseDivider ticks (2 ^ k) (ticks div 2 ^ k) = ChooseDivider ticks (2 ^ Suc k) (ticks div 2 ^ Suc k)"
      using big d k ucast_power_u8 [of "Suc k"]
      by (subst ChooseDivider.simps) (simp only: Let_def simp_thms if_True Suc_leI)
    have "\<forall>j < Suc k. 2 ^ 32 \<le> unat ticks div 2 ^ j" using Suc.prems True less_Suc_eq by auto
    with Suc.hyps(1) [of "Suc k"] Suc.hyps(2) k show ?thesis unfolding step by simp
  next
    case False
    then have "\<not> 0xffffffff < ticks div 2 ^ k" using k by (simp add: word_less_nat_alt ticks_div)
    with False Suc.prems k show ?thesis by (intro exI [of _ k]) (simp add: ChooseDivider.simps [of _ "2 ^ k"])
  qed
qed

lemma EncodeDivide_power: "m \<le> 7 \<Longrightarrow> EncodeDivide (2 ^ m) \<noteq> INVALID_DIVIDE"
proof -
  assume "m \<le> 7"
  then have "m = 0 \<or> m = 1 \<or> m = 2 \<or> m = 3 \<or> m = 4 \<or> m = 5 \<or> m = 6 \<or> m = 7" by arith
  then show ?thesis by (elim disjE) (simp_all add: EncodeDivide_def INVALID_DIVIDE_def)
qed

lemma divider_refused:
  assumes "\<forall>j<m. 2 ^ 32 \<le> t div 2 ^ j" "m = 7 \<or> t div 2 ^ m < 2 ^ 32"
    and "2 ^ 32 \<le> t div 2 ^ m \<or> t div 2 ^ m = 0"
  shows "2 ^ 32 \<le> t div 128 \<or> t = (0 :: nat)"
proof (cases m)
  case 0
  with assms show ?thesis by auto
next
  case (Suc n)
  then have "2 ^ 32 \<le> t div 2 ^ n" using assms(1) by simp
  then have "t div 2 ^ m \<noteq> 0" unfolding Suc power_Suc2 div_mult2_eq by simp
  with assms(2,3) show ?thesis by auto
qed

lemma divider_accepted:
  fixes t :: nat
  assumes "m \<le> 7" "0 < t div 2 ^ m" "t div 2 ^ m < 2 ^ 32"
  shows "0 < t" "t div 128 < 2 ^ 32"
proof -
  show "0 < t" using assms(2) by (cases t) auto
  have "(2 :: nat) ^ m \<le> 2 ^ 7" using assms(1) by (rule power_increasing) simp
  then have "t div 128 \<le> t div 2 ^ m" by (intro div_le_mono2) simp_all
  with assms(3) show "t div 128 < 2 ^ 32" by simp
qed

definition timer_ticks :: "u32 \<Rightarrow> u32 \<Rightarrow> nat" where
  "timer_ticks us rate = unat us * unat rate div 1000"

lemma ticks_word: "unat (ucast us * ucast rate div 1000 :: u64) = timer_ticks us rate"
proof -
  have "unat us * unat rate < 2 ^ 32 * 2 ^ 32"
    by (rule mult_strict_mono) (use unat32_bound in auto)
  then have "unat (ucast us * ucast rate :: u64) = unat us * unat rate"
    by (subst unat_mult_no_wrap) simp_all
  then show ?thesis by (simp add: unat_div timer_ticks_def)
qed

text \<open>
  C31: \<open>Timer::Setup\<close> picks the finest divider. With the tick rate it measured, it succeeds exactly
  when the period is at least one tick and fits 32 bits at divider 128; it then stores a divider
  that is a power of two up to 128, which \<open>EncodeDivide\<close> accepts, so \<open>Activate\<close> really programs the
  timer, such that every smaller divider would overflow the 32 bit counter, and the count is the
  period divided by it, rounded down and not zero. On failure nothing is
  left but what the measurement itself did.
\<close>
theorem Timer_Setup_finest:
  assumes "Timer_Setup hw us s = Some (ok, s')" and "MeasureTickRate hw s = Some (rate, s1)"
  shows "(ok \<longleftrightarrow> 0 < timer_ticks us rate \<and> timer_ticks us rate div 128 < 2 ^ 32) \<and>
    (if ok then \<exists>k \<le> 7. s_Divider s' = 2 ^ k \<and> unat (s_Counter s') = timer_ticks us rate div 2 ^ k
           \<and> 0 < s_Counter s' \<and> (\<forall>j<k. 2 ^ 32 \<le> timer_ticks us rate div 2 ^ j)
           \<and> EncodeDivide (s_Divider s') \<noteq> INVALID_DIVIDE \<and> s_IntervalMicroseconds s' = us
     else s' = s1)"
proof -
  define ticks where "ticks = (ucast us * ucast rate div 1000 :: u64)"
  have t: "unat ticks = timer_ticks us rate" by (simp add: ticks_def ticks_word)
  obtain m where m: "m \<le> 7" "ChooseDivider ticks 1 ticks = (2 ^ m, ticks div 2 ^ m)"
    "\<forall>j<m. 2 ^ 32 \<le> unat ticks div 2 ^ j" "m = 7 \<or> unat ticks div 2 ^ m < 2 ^ 32"
    using ChooseDivider_power [of 0 ticks] by auto
  define c where "c = ticks div 2 ^ m"
  have c: "unat c = unat ticks div 2 ^ m" using m by (simp add: c_def ticks_div)
  have res: "(ok, s') = (if c > 0xffffffff \<or> c = 0 then (False, s1)
      else (True, s1\<lparr>s_IntervalMicroseconds := us, s_Divider := 2 ^ m, s_Counter := ucast c\<rparr>))"
    using assms(1) m(2) unfolding Timer_Setup_def assms(2) c_def ticks_def [symmetric]
    by (simp add: Let_def ticks_def [symmetric])
  show ?thesis
  proof (cases "c > 0xffffffff \<or> c = 0")
    case True
    then have "2 ^ 32 \<le> unat c \<or> unat c = 0" by (auto simp: word_nat)
    then have "2 ^ 32 \<le> unat ticks div 128 \<or> unat ticks = 0"
      using divider_refused [OF m(3,4)] c by simp
    with True res show ?thesis by (auto simp: t)
  next
    case False
    then have f: "0 < unat c" "unat c < 2 ^ 32" by (auto simp: word_nat unat_gt_0)
    have "unat (ucast c :: u32) = unat c" using f by (simp add: unsigned_ucast_eq take_bit_nat_eq_self)
    moreover have "0 < unat ticks" "unat ticks div 128 < 2 ^ 32"
      using divider_accepted [OF m(1), of "unat ticks"] f unfolding c by (blast, blast)
    ultimately have "unat (s_Counter s') = timer_ticks us rate div 2 ^ m" "0 < s_Counter s'"
      "ok" "s_Divider s' = 2 ^ m" "s_IntervalMicroseconds s' = us" "0 < timer_ticks us rate" "timer_ticks us rate div 128 < 2 ^ 32"
      using False res c f by (simp_all add: t word_less_nat_alt)
    with m EncodeDivide_power [OF m(1)] show ?thesis unfolding t by (auto intro!: exI [of _ m])
  qed
qed

text \<open>A machine whose timer runs at 100 ticks per microsecond, and whose PIT has expired when polled.\<close>

definition timer_hw :: hardware where
  "timer_hw t c = (case c of Mmio32 a \<Rightarrow> (if length t < 10 then 0xffffffff else 0xffb3b4bf) | _ \<Rightarrow> 0x21)"

definition timer_start :: lapic where
  "timer_start = \<lparr>trace = [], s_BaseAddress = lapic_reset_base, s_Counter = 0, s_Divider = 1,
     s_IntervalMicroseconds = 0\<rparr>"

theorem Timer_Setup_finest_witness:
  "\<exists>s' s1. Timer_Setup timer_hw 10000 timer_start = Some (True, s') \<and>
     MeasureTickRate timer_hw timer_start = Some (100000, s1) \<and>
     (\<exists>k \<le> 7. s_Divider s' = 2 ^ k \<and> unat (s_Counter s') = 1000000 div 2 ^ k
        \<and> EncodeDivide (s_Divider s') \<noteq> INVALID_DIVIDE)"
proof -
  have "map_option fst (Timer_Setup timer_hw 10000 timer_start) = Some True"
    "map_option fst (MeasureTickRate timer_hw timer_start) = Some 100000"
    by code_simp+
  then obtain s' s1 where run: "Timer_Setup timer_hw 10000 timer_start = Some (True, s')"
    "MeasureTickRate timer_hw timer_start = Some (100000, s1)" by auto
  have "timer_ticks 10000 100000 = 1000000" by (simp add: timer_ticks_def)
  with Timer_Setup_finest [OF run] run show ?thesis by (simp only: if_True) blast
qed

end
