(* ===== verification/HK_Acpi.thy ===== *)
theory HK_Acpi
  imports HK_LocalApic HK_String
begin

text \<open>
  \<open>Kernel/Arch/Acpi.cpp\<close>: finding the ACPI description tables. The tables are read from byte
  memory, a structure's fields being loads at their packed offsets; the three static pointers are
  the record \<open>acpi\<close>, with the null pointer 0.
\<close>

section \<open>Structures\<close>

definition Rsdp_Revision :: "memory \<Rightarrow> u64 \<Rightarrow> u8" where "Rsdp_Revision m p = m (p + 15)"
definition Rsdp_RsdtAddress :: "memory \<Rightarrow> u64 \<Rightarrow> u32" where "Rsdp_RsdtAddress m p = peek32 m (p + 16)"
definition Rsdp_Length :: "memory \<Rightarrow> u64 \<Rightarrow> u32" where "Rsdp_Length m p = peek32 m (p + 20)"
definition Rsdp_XsdtAddress :: "memory \<Rightarrow> u64 \<Rightarrow> u64" where "Rsdp_XsdtAddress m p = peek64 m (p + 24)"
definition SIZEOF_Rsdp :: u64 where "SIZEOF_Rsdp = 36"

definition Table_Signature :: "memory \<Rightarrow> u64 \<Rightarrow> u32" where "Table_Signature m p = peek32 m p"
definition Table_Length :: "memory \<Rightarrow> u64 \<Rightarrow> u32" where "Table_Length m p = peek32 m (p + 4)"
definition Table_End :: "memory \<Rightarrow> u64 \<Rightarrow> u64" where "Table_End m p = p + ucast (Table_Length m p)"
definition SIZEOF_TableHeader :: u32 where "SIZEOF_TableHeader = 36"

definition Rsdt_Entry :: "memory \<Rightarrow> u64 \<Rightarrow> u32 \<Rightarrow> u32" where
  "Rsdt_Entry m p i = peek32 m (p + 36 + 4 * ucast i)"
definition Xsdt_Entry :: "memory \<Rightarrow> u64 \<Rightarrow> u32 \<Rightarrow> u64" where
  "Xsdt_Entry m p i = peek64 m (p + 36 + 8 * ucast i)"

record acpi = lapic +
  s_Rsdp :: u64
  s_Rsdt :: u64
  s_Xsdt :: u64

definition RSDP_SIGNATURE :: u64 where
  "RSDP_SIGNATURE = 0x2052545020445352"

section \<open>Operations\<close>

definition IsChecksumValid :: "memory \<Rightarrow> u64 \<Rightarrow> u32 \<Rightarrow> bool" where
  "IsChecksumValid m InAddress InLength =
     (for_loop 0 InLength (\<lambda>i sum. sum + m (InAddress + ucast i)) (0 :: u8) = 0)"

definition IsValidRsdp :: "memory \<Rightarrow> u64 \<Rightarrow> bool" where
  "IsValidRsdp m InCandidate =
     (if Rsdp_Revision m InCandidate = 0 then IsChecksumValid m InCandidate 20
      else Rsdp_Length m InCandidate > 20 \<and> IsChecksumValid m InCandidate (Rsdp_Length m InCandidate))"

partial_function (option) Scan_loop :: "memory \<Rightarrow> u64 \<Rightarrow> u64 \<Rightarrow> u64 \<Rightarrow> u64 option" where
  "Scan_loop m InStart InLength offset =
     (if offset + SIZEOF_Rsdp \<le> InLength
      then (let candidate = InStart + offset in
            if peek64 m candidate = RSDP_SIGNATURE \<and> IsValidRsdp m candidate then Some candidate
            else Scan_loop m InStart InLength (offset + 16))
      else Some 0)"

declare Scan_loop.simps [code]

definition Scan :: "memory \<Rightarrow> u64 \<Rightarrow> u64 \<Rightarrow> u64 result" where
  "Scan m InStart InLength = returned (Scan_loop m InStart InLength 0)"

definition Acpi_Initialize :: "memory \<Rightarrow> u64 \<Rightarrow> 'a acpi_scheme \<Rightarrow> (bool \<times> 'a acpi_scheme) result" where
  "Acpi_Initialize m InRsdpHint s =
     (let s = (if InRsdpHint \<noteq> 0 \<and> IsValidRsdp m InRsdpHint then s\<lparr>s_Rsdp := InRsdpHint\<rparr> else s) in
      rbind (if s_Rsdp s = 0 then Scan m (push_bit 4 (ucast (peek16 m 0x40e))) 1024 else Ok (s_Rsdp s)) (\<lambda>rsdp.
      rbind (if rsdp = 0 then Scan m 0xe0000 0x20000 else Ok rsdp) (\<lambda>rsdp.
      (let s = s\<lparr>s_Rsdp := rsdp\<rparr> in
       if rsdp = 0 then Ok (False, s)
       else
         (let s = s\<lparr>s_Rsdt := ucast (Rsdp_RsdtAddress m rsdp)\<rparr>;
              s = (if Rsdp_Revision m rsdp \<noteq> 0 \<and> Rsdp_Length m rsdp \<ge> 36
                   then s\<lparr>s_Xsdt := Rsdp_XsdtAddress m rsdp\<rparr> else s)
          in Ok (True, s))))))"

definition Acpi_Count :: "memory \<Rightarrow> 'a acpi_scheme \<Rightarrow> u32" where
  "Acpi_Count m s =
     (if s_Xsdt s \<noteq> 0 then ucast ((ucast (Table_Length m (s_Xsdt s)) - ucast SIZEOF_TableHeader :: u64) div 8)
      else if s_Rsdt s \<noteq> 0 then ucast ((ucast (Table_Length m (s_Rsdt s)) - ucast SIZEOF_TableHeader :: u64) div 4)
      else 0)"

definition Acpi_GetIndex :: "memory \<Rightarrow> 'a acpi_scheme \<Rightarrow> u32 \<Rightarrow> u64" where
  "Acpi_GetIndex m s InIndex =
     (if InIndex \<ge> Acpi_Count m s then 0
      else
        (let entry = (if s_Xsdt s \<noteq> 0 then Xsdt_Entry m (s_Xsdt s) InIndex
                      else if s_Rsdt s \<noteq> 0 then ucast (Rsdt_Entry m (s_Rsdt s) InIndex) else 0)
         in if entry \<noteq> 0 \<and> IsChecksumValid m entry (Table_Length m entry) then entry else 0))"

definition signature_word :: "u8 \<Rightarrow> u8 \<Rightarrow> u8 \<Rightarrow> u8 \<Rightarrow> u32" where
  "signature_word a b c d = scast a OR push_bit 8 (scast b) OR push_bit 16 (scast c) OR push_bit 24 (scast d)"

function Acpi_Get_loop :: "memory \<Rightarrow> 'a acpi_scheme \<Rightarrow> u32 \<Rightarrow> u32 \<Rightarrow> u32 \<Rightarrow> u64" where
  "Acpi_Get_loop m s wanted count i =
     (if i < count
      then (let entry = Acpi_GetIndex m s i in
            if entry \<noteq> 0 \<and> Table_Signature m entry = wanted then entry
            else Acpi_Get_loop m s wanted count (i + 1))
      else 0)"
  by pat_completeness auto
termination
  by (relation "measure (\<lambda>(m, s, wanted, count, i). unat count - unat i)") (auto simp: word_nat)

declare Acpi_Get_loop.simps [simp del]

definition Acpi_Get :: "memory \<Rightarrow> 'a acpi_scheme \<Rightarrow> u8 \<Rightarrow> u8 \<Rightarrow> u8 \<Rightarrow> u8 \<Rightarrow> u64" where
  "Acpi_Get m s a b c d = Acpi_Get_loop m s (signature_word a b c d) (Acpi_Count m s) 0"

definition Acpi_Revision :: "memory \<Rightarrow> 'a acpi_scheme \<Rightarrow> int" where
  "Acpi_Revision m s = (if s_Rsdp s \<noteq> 0 then uint (Rsdp_Revision m (s_Rsdp s)) else - 1)"

section \<open>Checksums\<close>

lemma checksum_fold: "fold (\<lambda>i sum. sum + f i) xs a = a + sum_list (map f xs)" for f :: "'b \<Rightarrow> u8"
  by (induction xs arbitrary: a) (simp_all add: algebra_simps)

definition bytes_sum :: "memory \<Rightarrow> u64 \<Rightarrow> nat \<Rightarrow> nat" where
  "bytes_sum m a n = (\<Sum>i<n. unat (m (a + of_nat i)))"

lemma unat_sum_list: "unat (sum_list (map f xs) :: u8) = sum_list (map (\<lambda>x. unat (f x)) xs) mod 256"
  by (induction xs) (simp_all add: unat_word_ariths mod_simps)

lemma IsChecksumValid_iff: "IsChecksumValid m a n \<longleftrightarrow> bytes_sum m a (unat n) mod 256 = 0"
proof -
  have u: "ucast (of_nat i :: u32) = (of_nat i :: u64)" if "i < unat n" for i
    using that unat_of_nat_less [OF that] unat32_bound [of n]
    by (intro word_unat_eq_iff [THEN iffD2]) (simp add: unat_of_nat_small)
  have "for_loop 0 n (\<lambda>i sum. sum + m (a + ucast i)) (0 :: u8)
      = sum_list (map (\<lambda>i. m (a + of_nat i)) [0..<unat n])"
    unfolding for_loop_fold checksum_fold using u
    by (auto simp: o_def intro!: arg_cong [where f = sum_list] map_cong)
  then have "unat (for_loop 0 n (\<lambda>i sum. sum + m (a + ucast i)) (0 :: u8)) = bytes_sum m a (unat n) mod 256"
    by (simp only: unat_sum_list bytes_sum_def) (simp add: sum_list_sum_nth atLeast0LessThan)
  then show ?thesis unfolding IsChecksumValid_def word_unat_eq_iff by simp
qed

section \<open>Scanning\<close>

definition rsdp_at :: "memory \<Rightarrow> u64 \<Rightarrow> nat \<Rightarrow> bool" where
  "rsdp_at m start k \<longleftrightarrow> (let p = start + of_nat (16 * k) in peek64 m p = RSDP_SIGNATURE \<and> IsValidRsdp m p)"

definition first_rsdp :: "memory \<Rightarrow> u64 \<Rightarrow> nat list \<Rightarrow> u64" where
  "first_rsdp m start ks = (case find (rsdp_at m start) ks of None \<Rightarrow> 0 | Some j \<Rightarrow> start + of_nat (16 * j))"

lemma slots_iff: "16 * k + 36 \<le> n \<longleftrightarrow> k < (n - 20) div 16" for k n :: nat
  by arith

lemma Scan_loop_spec:
  assumes "n < 2 ^ 62" and "16 * k \<le> n + 16"
  shows "Scan_loop m start (of_nat n) (of_nat (16 * k)) = Some (first_rsdp m start [k..<(n - 20) div 16])"
  using assms(2)
proof (induction "(n - 20) div 16 - k" arbitrary: k)
  case 0
  have "unat (of_nat (16 * k) + SIZEOF_Rsdp) = 16 * k + 36" "unat (of_nat n :: u64) = n"
    using assms(1) 0 by (simp_all add: SIZEOF_Rsdp_def unat_add_no_wrap unat_of_nat_small del: of_nat_mult)
  moreover have "\<not> 16 * k + 36 \<le> n" using 0 by (simp add: slots_iff)
  ultimately have "\<not> of_nat (16 * k) + SIZEOF_Rsdp \<le> (of_nat n :: u64)" by (metis word_le_nat_alt)
  with 0 show ?case by (subst Scan_loop.simps) (simp add: first_rsdp_def)
next
  case (Suc d)
  then have k: "k < (n - 20) div 16" by simp
  then have kn: "16 * k + 36 \<le> n" by (simp add: slots_iff)
  have "unat (of_nat (16 * k) + SIZEOF_Rsdp) = 16 * k + 36" "unat (of_nat n :: u64) = n"
    using assms(1) kn by (simp_all add: SIZEOF_Rsdp_def unat_add_no_wrap unat_of_nat_small del: of_nat_mult)
  with kn have le: "of_nat (16 * k) + SIZEOF_Rsdp \<le> (of_nat n :: u64)" by (simp only: word_le_nat_alt)
  have nxt: "(of_nat (16 * k) + 16 :: u64) = of_nat (16 * Suc k)" by (simp add: algebra_simps)
  have "[k..<(n - 20) div 16] = k # [Suc k..<(n - 20) div 16]" using k by (simp add: upt_conv_Cons)
  moreover have "Scan_loop m start (of_nat n) (of_nat (16 * Suc k)) = Some (first_rsdp m start [Suc k..<(n - 20) div 16])"
    using Suc.hyps(1) [of "Suc k"] Suc.hyps(2) kn by simp
  moreover have "Scan_loop m start (of_nat n) (of_nat (16 * k)) =
      (if rsdp_at m start k then Some (start + of_nat (16 * k)) else Scan_loop m start (of_nat n) (of_nat (16 * Suc k)))"
    unfolding nxt [symmetric] rsdp_at_def Let_def by (subst Scan_loop.simps) (simp only: le if_True Let_def)
  ultimately show ?case by (simp add: first_rsdp_def del: of_nat_mult of_nat_Suc mult_Suc_right)
qed

lemma Scan_first:
  "n < 2 ^ 62 \<Longrightarrow> Scan m start (of_nat n) = Ok (first_rsdp m start [0..<(n - 20) div 16])"
  using Scan_loop_spec [of n 0 m start] by (simp add: Scan_def)

lemma first_rsdp_cases:
  "first_rsdp m start ks \<noteq> 0 \<Longrightarrow> \<exists>k \<in> set ks. first_rsdp m start ks = start + of_nat (16 * k) \<and> rsdp_at m start k"
proof -
  assume "first_rsdp m start ks \<noteq> 0"
  then obtain k where k: "find (rsdp_at m start) ks = Some k" by (auto simp: first_rsdp_def split: option.splits)
  then have "k \<in> set ks" "rsdp_at m start k" by (auto simp: find_Some_iff)
  with k show ?thesis by (auto simp: first_rsdp_def)
qed

definition ebda :: "memory \<Rightarrow> u64" where "ebda m = push_bit 4 (ucast (peek16 m 0x40e))"

definition firmware_rsdp :: "memory \<Rightarrow> u64" where
  "firmware_rsdp m = (let p = first_rsdp m (ebda m) [0..<62] in if p = 0 then first_rsdp m 0xe0000 [0..<8190] else p)"

lemma Acpi_Initialize_result:
  assumes "s_Rsdp s = 0"
  shows "Acpi_Initialize m hint s =
    (let p = (if hint \<noteq> 0 \<and> IsValidRsdp m hint then hint else firmware_rsdp m) in
     Ok (if p = 0 then (False, s\<lparr>s_Rsdp := 0\<rparr>)
         else (True, s\<lparr>s_Rsdp := p, s_Rsdt := ucast (Rsdp_RsdtAddress m p),
           s_Xsdt := (if Rsdp_Revision m p \<noteq> 0 \<and> Rsdp_Length m p \<ge> 36 then Rsdp_XsdtAddress m p else s_Xsdt s)\<rparr>)))"
  using assms Scan_first [where n = 1024 and start = "ebda m" and m = m] Scan_first [where n = "0x20000" and start = "0xe0000" and m = m]
  by (simp add: Acpi_Initialize_def firmware_rsdp_def ebda_def Let_def)

lemma first_rsdp_zero:
  assumes "first_rsdp m start [0..<n] = 0" "0 < unat start" "unat start + 16 * n < 2 ^ 64"
  shows "\<forall>k<n. \<not> rsdp_at m start k"
proof (cases "find (rsdp_at m start) [0..<n]")
  case None
  then show ?thesis by (auto simp: find_None_iff)
next
  case (Some k)
  then have "k < n" by (auto simp: find_Some_iff)
  then have "unat (start + of_nat (16 * k)) = unat start + 16 * k"
    using assms(3) by (simp add: unat_add_no_wrap unat_of_nat_small del: of_nat_mult)
  moreover have "start + of_nat (16 * k) = 0" using assms(1) Some by (simp add: first_rsdp_def)
  ultimately show ?thesis using assms(2) by simp
qed

lemma ebda_small: "unat (ebda m) < 2 ^ 20"
proof -
  have "unat (ucast (peek16 m 0x40e) :: u64) < 2 ^ 16"
    using unat_bound [of "peek16 m 0x40e"] by (simp add: unsigned_ucast_eq take_bit_nat_eq_self)
  moreover from this have "unat (ucast (peek16 m 0x40e) * 16 :: u64) = 16 * unat (ucast (peek16 m 0x40e) :: u64)"
    by (subst unat_mult_no_wrap) simp_all
  ultimately show ?thesis by (simp add: ebda_def push_bit_eq_mult)
qed

lemma firmware_rsdp_cases:
  "if firmware_rsdp m \<noteq> 0
   then (\<exists>k<62. firmware_rsdp m = ebda m + of_nat (16 * k) \<and> rsdp_at m (ebda m) k)
      \<or> (\<exists>k<8190. firmware_rsdp m = 0xe0000 + of_nat (16 * k) \<and> rsdp_at m 0xe0000 k)
   else (ebda m = 0 \<or> (\<forall>k<62. \<not> rsdp_at m (ebda m) k)) \<and> (\<forall>k<8190. \<not> rsdp_at m 0xe0000 k)"
proof (cases "firmware_rsdp m = 0")
  case False
  then show ?thesis
    using first_rsdp_cases [of m "ebda m" "[0..<62]"] first_rsdp_cases [of m "0xe0000" "[0..<8190]"]
    unfolding firmware_rsdp_def Let_def by (auto split: if_splits simp del: of_nat_mult upt_rec_numeral)
next
  case True
  then have z: "first_rsdp m (ebda m) [0..<62] = 0" "first_rsdp m 0xe0000 [0..<8190] = 0"
    by (auto simp: firmware_rsdp_def Let_def split: if_splits)
  then show ?thesis
    using True first_rsdp_zero [OF z(1)] first_rsdp_zero [OF z(2)] ebda_small [of m]
    by (cases "ebda m = 0") (auto simp: unat_gt_0)
qed

definition sound_rsdp :: "memory \<Rightarrow> u64 \<Rightarrow> bool" where
  "sound_rsdp m p \<longleftrightarrow> bytes_sum m p (if Rsdp_Revision m p = 0 then 20 else unat (Rsdp_Length m p)) mod 256 = 0"

lemma IsValidRsdp_sound: "IsValidRsdp m p \<Longrightarrow> sound_rsdp m p"
  by (auto simp: IsValidRsdp_def sound_rsdp_def IsChecksumValid_iff split: if_splits)

text \<open>
  A candidate is looked at when all \<open>sizeof(Rsdp)\<close> bytes of it lie in the scanned area, whatever its
  revision; the two areas are the first kilobyte of the extended BIOS data area and the BIOS area.
\<close>

definition ebda_slot :: "nat \<Rightarrow> bool" where "ebda_slot k \<longleftrightarrow> 16 * k + unat SIZEOF_Rsdp \<le> 1024"
definition bios_slot :: "nat \<Rightarrow> bool" where "bios_slot k \<longleftrightarrow> 16 * k + unat SIZEOF_Rsdp \<le> 0x20000"

lemma slot_iff: "ebda_slot k \<longleftrightarrow> k < 62" "bios_slot k \<longleftrightarrow> k < 8190"
  by (auto simp: ebda_slot_def bios_slot_def SIZEOF_Rsdp_def)

text \<open>
  So a valid pointer of revision 0, which has only 20 bytes, is missed in the slot 32 bytes before the
  end of an area: whatever memory holds there, the scan fails when no other slot has a pointer.
\<close>

lemma Scan_misses_last_slot:
  assumes "\<And>k. bios_slot k \<Longrightarrow> \<not> rsdp_at m 0xe0000 k"
  shows "Scan m 0xe0000 0x20000 = Ok 0"
proof -
  have "find (rsdp_at m 0xe0000) [0..<8190] = None" using assms by (auto simp: find_None_iff slot_iff)
  then show ?thesis
    using Scan_first [where n = "0x20000" and start = "0xe0000" and m = m] by (simp add: first_rsdp_def)
qed

lemma Acpi_Initialize_root_cases:
  assumes "s_Rsdp s = 0"
  shows "\<exists>found s'. Acpi_Initialize m hint s = Ok (found, s') \<and>
    (if found
     then sound_rsdp m (s_Rsdp s') \<and>
       (s_Rsdp s' = hint
        \<or> (\<exists>k<62. s_Rsdp s' = ebda m + of_nat (16 * k) \<and> peek64 m (s_Rsdp s') = RSDP_SIGNATURE)
        \<or> (\<exists>k<8190. s_Rsdp s' = 0xe0000 + of_nat (16 * k) \<and> peek64 m (s_Rsdp s') = RSDP_SIGNATURE))
     else (hint = 0 \<or> \<not> IsValidRsdp m hint) \<and> (ebda m = 0 \<or> (\<forall>k<62. \<not> rsdp_at m (ebda m) k))
       \<and> (\<forall>k<8190. \<not> rsdp_at m 0xe0000 k))"
proof (cases "hint \<noteq> 0 \<and> IsValidRsdp m hint")
  case True
  then show ?thesis
    using IsValidRsdp_sound [of m hint] by (auto simp: Acpi_Initialize_result [OF assms] Let_def)
next
  case hint: False
  show ?thesis
  proof (cases "firmware_rsdp m = 0")
    case True
    then have "Acpi_Initialize m hint s = Ok (False, s\<lparr>s_Rsdp := 0\<rparr>)"
      using hint by (simp add: Acpi_Initialize_result [OF assms] Let_def)
    moreover have "(ebda m = 0 \<or> (\<forall>k<62. \<not> rsdp_at m (ebda m) k)) \<and> (\<forall>k<8190. \<not> rsdp_at m 0xe0000 k)"
      using firmware_rsdp_cases [of m] unfolding True by simp
    ultimately show ?thesis using hint by (intro exI [of _ False] exI) simp
  next
    case False
    then obtain s' where "Acpi_Initialize m hint s = Ok (True, s')" and p: "s_Rsdp s' = firmware_rsdp m"
      using hint by (simp add: Acpi_Initialize_result [OF assms] Let_def)
    moreover have "sound_rsdp m (s_Rsdp s') \<and>
        ((\<exists>k<62. s_Rsdp s' = ebda m + of_nat (16 * k) \<and> peek64 m (s_Rsdp s') = RSDP_SIGNATURE)
        \<or> (\<exists>k<8190. s_Rsdp s' = 0xe0000 + of_nat (16 * k) \<and> peek64 m (s_Rsdp s') = RSDP_SIGNATURE))"
      using firmware_rsdp_cases [of m] False unfolding p if_P [OF False] rsdp_at_def Let_def
      by (metis IsValidRsdp_sound)
    ultimately show ?thesis by (intro exI [of _ True] exI [of _ s']) simp
  qed
qed

text \<open>
  C30: \<open>Acpi::Initialize\<close> always returns. When it returns true, the root pointer it keeps has a
  checksum that sums to zero over the length its revision prescribes and is either the boot
  loader's hint or lies, with the signature, on a 16 byte boundary of the first kilobyte of the
  extended BIOS data area or of the BIOS area. When it returns false, the hint is absent or
  invalid and no valid pointer lies on a 16 byte boundary of either area at which the 36 bytes of the
  newest layout still fit (in the first area only where the BIOS data area names one). Pointers in
  the last slots, where a 20 byte one would fit, are not looked for.
\<close>
theorem Acpi_Initialize_finds_root:
  assumes "s_Rsdp s = 0"
  shows "\<exists>found s'. Acpi_Initialize m hint s = Ok (found, s') \<and>
    (if found
     then sound_rsdp m (s_Rsdp s') \<and>
       (s_Rsdp s' = hint
        \<or> (\<exists>k. ebda_slot k \<and> s_Rsdp s' = ebda m + of_nat (16 * k) \<and> peek64 m (s_Rsdp s') = RSDP_SIGNATURE)
        \<or> (\<exists>k. bios_slot k \<and> s_Rsdp s' = 0xe0000 + of_nat (16 * k) \<and> peek64 m (s_Rsdp s') = RSDP_SIGNATURE))
     else (hint = 0 \<or> \<not> IsValidRsdp m hint) \<and> (ebda m = 0 \<or> (\<forall>k. ebda_slot k \<longrightarrow> \<not> rsdp_at m (ebda m) k))
       \<and> (\<forall>k. bios_slot k \<longrightarrow> \<not> rsdp_at m 0xe0000 k))"
  unfolding slot_iff by (rule Acpi_Initialize_root_cases [OF assms])

definition acpi_start :: acpi where
  "acpi_start = \<lparr>trace = [], s_BaseAddress = lapic_reset_base, s_Counter = 0, s_Divider = 1,
     s_IntervalMicroseconds = 0, s_Rsdp = 0, s_Rsdt = 0, s_Xsdt = 0\<rparr>"

theorem Acpi_Initialize_finds_root_witness:
  "\<exists>found s'. Acpi_Initialize (\<lambda>_. 0) 0x1000 acpi_start = Ok (found, s') \<and> found \<and> s_Rsdp s' = 0x1000 \<and>
     sound_rsdp (\<lambda>_. 0) 0x1000"
proof -
  have v: "IsValidRsdp (\<lambda>_. 0) 0x1000" by (simp add: IsValidRsdp_def Rsdp_Revision_def IsChecksumValid_iff bytes_sum_def)
  show ?thesis
    using Acpi_Initialize_finds_root [of acpi_start "\<lambda>_. 0" "0x1000"] v
    by (auto simp: Acpi_Initialize_def acpi_start_def Let_def)
qed

section \<open>Looking tables up\<close>

text \<open>The table pointer at an index, before its checksum is looked at.\<close>

definition acpi_entry :: "memory \<Rightarrow> 'a acpi_scheme \<Rightarrow> nat \<Rightarrow> u64" where
  "acpi_entry m s i = (if s_Xsdt s \<noteq> 0 then Xsdt_Entry m (s_Xsdt s) (of_nat i)
     else if s_Rsdt s \<noteq> 0 then ucast (Rsdt_Entry m (s_Rsdt s) (of_nat i)) else 0)"

definition acpi_match :: "memory \<Rightarrow> u32 \<Rightarrow> u64 \<Rightarrow> bool" where
  "acpi_match m wanted t \<longleftrightarrow> t \<noteq> 0 \<and> bytes_sum m t (unat (Table_Length m t)) mod 256 = 0 \<and> Table_Signature m t = wanted"

lemma Acpi_GetIndex_entry:
  assumes "i < unat (Acpi_Count m s)"
  shows "Acpi_GetIndex m s (of_nat i) =
    (let t = acpi_entry m s i in if t \<noteq> 0 \<and> IsChecksumValid m t (Table_Length m t) then t else 0)"
proof -
  have "\<not> Acpi_Count m s \<le> of_nat i" using assms by (simp add: word_le_nat_alt unat_of_nat_less)
  then show ?thesis by (simp add: Acpi_GetIndex_def acpi_entry_def Let_def)
qed

lemma Acpi_Get_loop_spec:
  assumes "unat count \<le> unat (Acpi_Count m s)" "k \<le> unat count"
  shows "Acpi_Get_loop m s wanted count (of_nat k) =
    (case find (acpi_match m wanted) (map (acpi_entry m s) [k..<unat count]) of None \<Rightarrow> 0 | Some t \<Rightarrow> t)"
  using assms(2)
proof (induction "unat count - k" arbitrary: k)
  case 0
  then have "unat (of_nat k :: u32) = unat count" using unat32_bound [of count] by (simp add: unat_of_nat_small)
  with 0 show ?case by (subst Acpi_Get_loop.simps) (simp add: word_less_nat_alt)
next
  case (Suc d)
  then have k: "k < unat count" by simp
  have lt: "(of_nat k :: u32) < count" using k by (simp add: word_less_nat_alt unat_of_nat_less)
  have nxt: "of_nat k + 1 = (of_nat (Suc k) :: u32)" by simp
  have split: "[k..<unat count] = k # [Suc k..<unat count]" using k by (simp add: upt_conv_Cons)
  have entry: "Acpi_GetIndex m s (of_nat k) = (let t = acpi_entry m s k in
      if t \<noteq> 0 \<and> IsChecksumValid m t (Table_Length m t) then t else 0)"
    using k assms(1) by (intro Acpi_GetIndex_entry) simp
  have "Acpi_Get_loop m s wanted count (of_nat k) =
      (if acpi_match m wanted (acpi_entry m s k) then acpi_entry m s k else Acpi_Get_loop m s wanted count (of_nat (Suc k)))"
    unfolding nxt [symmetric] using lt
    by (subst Acpi_Get_loop.simps) (auto simp: entry Let_def acpi_match_def IsChecksumValid_iff)
  with Suc.hyps(1) [of "Suc k"] Suc.hyps(2) k show ?case unfolding split by simp
qed

text \<open>
  C29: looking a table up by signature is sound and complete. \<open>Acpi::Get\<close> returns the first entry of
  the XSDT, or of the RSDT where there is no XSDT, that is not null, whose bytes over its declared
  length sum to zero modulo 256 and whose signature is the wanted one, and returns null exactly
  when no entry qualifies. The entries are those \<open>Count\<close> derives from the length of the table, and
  the wanted signature is the word the code builds from its four characters.
\<close>
theorem Acpi_Get_first_match:
  "let t = Acpi_Get m s a b c d; wanted = signature_word a b c d; n = unat (Acpi_Count m s) in
   if t = 0 then \<forall>i<n. \<not> acpi_match m wanted (acpi_entry m s i)
   else acpi_match m wanted t \<and> (\<exists>i<n. acpi_entry m s i = t \<and> (\<forall>j<i. \<not> acpi_match m wanted (acpi_entry m s j)))"
proof -
  let ?n = "unat (Acpi_Count m s)" and ?w = "signature_word a b c d"
  let ?f = "find (acpi_match m ?w) (map (acpi_entry m s) [0..<?n])"
  have t: "Acpi_Get m s a b c d = (case ?f of None \<Rightarrow> 0 | Some t \<Rightarrow> t)"
    using Acpi_Get_loop_spec [of "Acpi_Count m s" m s 0 ?w] by (simp add: Acpi_Get_def)
  show ?thesis
  proof (cases ?f)
    case None
    with t have "Acpi_Get m s a b c d = 0" by simp
    with None show ?thesis by (simp add: find_None_iff Let_def)
  next
    case (Some e)
    then obtain i where "i < ?n" "acpi_entry m s i = e" "acpi_match m ?w e"
      "\<forall>j<i. \<not> acpi_match m ?w (acpi_entry m s j)" by (auto simp: find_Some_iff)
    moreover have "Acpi_Get m s a b c d = e" using t Some by simp
    ultimately show ?thesis by (auto simp: acpi_match_def Let_def)
  qed
qed

text \<open>A root table at \<open>0x1000\<close> with one entry, the interrupt controller table at \<open>0x2000\<close>.\<close>

definition acpi_memory :: memory where
  "acpi_memory a = (if a - 0x1000 < 40 then [82, 83, 68, 84, 40, 0, 0, 0, 0, 0, 0, 0, 0, 0, 0, 0, 0, 0, 0, 0, 0, 0, 0, 0, 0, 0, 0, 0, 0, 0, 0, 0, 0, 0, 0, 0, 0, 32, 0, 0] ! unat (a - 0x1000)
     else if a - 0x2000 < 36 then [65, 80, 73, 67, 36, 0, 0, 0, 0, 191, 0, 0, 0, 0, 0, 0, 0, 0, 0, 0, 0, 0, 0, 0, 0, 0, 0, 0, 0, 0, 0, 0, 0, 0, 0, 0] ! unat (a - 0x2000) else 0)"

theorem Acpi_Get_first_match_witness:
  "Acpi_Get acpi_memory (acpi_start\<lparr>s_Rsdt := 0x1000\<rparr>) 65 80 73 67 = 0x2000 \<and>
   acpi_match acpi_memory (signature_word 65 80 73 67) 0x2000"
proof -
  have t: "Acpi_Get acpi_memory (acpi_start\<lparr>s_Rsdt := 0x1000\<rparr>) 65 80 73 67 = 0x2000" by code_simp
  then show ?thesis
    using Acpi_Get_first_match [of acpi_memory "acpi_start\<lparr>s_Rsdt := 0x1000\<rparr>" 65 80 73 67] by (simp add: Let_def)
qed

end
