(* ===== verification/HK_Apic.thy ===== *)
theory HK_Apic
  imports HK_Acpi
begin

text \<open>
  \<open>Kernel/Arch/Apic.cpp\<close>: the machine topology out of the ACPI interrupt controller table (MADT).
  The walk over the table's records advances by the length each record declares, so a record of
  length zero makes it run forever; the walk is partial and \<open>None\<close> is that run.
\<close>

section \<open>Records of the table\<close>

definition SubHeader_Type :: "memory \<Rightarrow> u64 \<Rightarrow> u8" where "SubHeader_Type m e = m e"
definition SubHeader_Length :: "memory \<Rightarrow> u64 \<Rightarrow> u8" where "SubHeader_Length m e = m (e + 1)"
definition SubHeader_Next :: "memory \<Rightarrow> u64 \<Rightarrow> u64" where
  "SubHeader_Next m e = e + ucast (SubHeader_Length m e)"

definition Madt_LocalApicAddress :: "memory \<Rightarrow> u64 \<Rightarrow> u32" where "Madt_LocalApicAddress m t = peek32 m (t + 36)"
definition Madt_FlagsPcAtCompatible :: "memory \<Rightarrow> u64 \<Rightarrow> u32" where
  "Madt_FlagsPcAtCompatible m t = get_field 0 1 (peek32 m (t + 40))"
definition Madt_First :: "u64 \<Rightarrow> u64" where "Madt_First t = t + 44"

definition MADT_LOCAL_APIC :: u8 where "MADT_LOCAL_APIC = 0"
definition MADT_IO_APIC :: u8 where "MADT_IO_APIC = 1"
definition MADT_INTERRUPT_SOURCE_OVERRIDE :: u8 where "MADT_INTERRUPT_SOURCE_OVERRIDE = 2"
definition MADT_LOCAL_APIC_ADDRESS_OVERRIDE :: u8 where "MADT_LOCAL_APIC_ADDRESS_OVERRIDE = 5"

lemmas madt_types = MADT_LOCAL_APIC_def MADT_IO_APIC_def MADT_INTERRUPT_SOURCE_OVERRIDE_def
  MADT_LOCAL_APIC_ADDRESS_OVERRIDE_def

definition MadtLocalApic_ApicId :: "memory \<Rightarrow> u64 \<Rightarrow> u8" where "MadtLocalApic_ApicId m e = m (e + 3)"
definition MadtLocalApic_FlagsEnabled :: "memory \<Rightarrow> u64 \<Rightarrow> u32" where
  "MadtLocalApic_FlagsEnabled m e = get_field 0 1 (peek32 m (e + 4))"

definition MadtIoApic_IoApicId :: "memory \<Rightarrow> u64 \<Rightarrow> u8" where "MadtIoApic_IoApicId m e = m (e + 2)"
definition MadtIoApic_Address :: "memory \<Rightarrow> u64 \<Rightarrow> u32" where "MadtIoApic_Address m e = peek32 m (e + 4)"
definition MadtIoApic_GlobalSystemInterruptBase :: "memory \<Rightarrow> u64 \<Rightarrow> u32" where
  "MadtIoApic_GlobalSystemInterruptBase m e = peek32 m (e + 8)"

definition MadtOverride_Bus :: "memory \<Rightarrow> u64 \<Rightarrow> u8" where "MadtOverride_Bus m e = m (e + 2)"
definition MadtOverride_Source :: "memory \<Rightarrow> u64 \<Rightarrow> u8" where "MadtOverride_Source m e = m (e + 3)"
definition MadtOverride_GlobalSystemInterrupt :: "memory \<Rightarrow> u64 \<Rightarrow> u32" where
  "MadtOverride_GlobalSystemInterrupt m e = peek32 m (e + 4)"

definition MadtAddressOverride_LocalApicAddress :: "memory \<Rightarrow> u64 \<Rightarrow> u64" where
  "MadtAddressOverride_LocalApicAddress m e = peek64 m (e + 4)"

section \<open>Topology\<close>

datatype ApicDevice = DEVICE_TIMER | DEVICE_KEYBOARD | DEVICE_COM2 | DEVICE_COM1 | DEVICE_FLOPPY | DEVICE_PRINTER
  | DEVICE_REAL_TIME_CLOCK | DEVICE_PS2_MOUSE | DEVICE_IDE1 | DEVICE_IDE2

primrec ApicDevice_value :: "ApicDevice \<Rightarrow> u8" where
  "ApicDevice_value DEVICE_TIMER = 0"
| "ApicDevice_value DEVICE_KEYBOARD = 1"
| "ApicDevice_value DEVICE_COM2 = 3"
| "ApicDevice_value DEVICE_COM1 = 4"
| "ApicDevice_value DEVICE_FLOPPY = 6"
| "ApicDevice_value DEVICE_PRINTER = 7"
| "ApicDevice_value DEVICE_REAL_TIME_CLOCK = 8"
| "ApicDevice_value DEVICE_PS2_MOUSE = 12"
| "ApicDevice_value DEVICE_IDE1 = 14"
| "ApicDevice_value DEVICE_IDE2 = 15"

definition INVALID_ID :: u8 where "INVALID_ID = 0xff"

record apic = acpi +
  IoApic_Id :: u32
  IoApic_Address :: u64
  IoApic_InterruptBase :: u32
  s_PinMap :: "u8 list"
  s_LocalApicId :: "u8 list"
  s_LocalApicCount :: u32

definition Apic_LocalApic :: "memory \<Rightarrow> u64 \<Rightarrow> 'a apic_scheme \<Rightarrow> 'a apic_scheme" where
  "Apic_LocalApic m e s =
     (if MadtLocalApic_FlagsEnabled m e = 0 \<or> MadtLocalApic_ApicId m e = INVALID_ID then s
      else if unat (s_LocalApicCount s) \<ge> MAX_CORES then s
      else s\<lparr>s_LocalApicId := (s_LocalApicId s)[unat (s_LocalApicCount s) := MadtLocalApic_ApicId m e],
             s_LocalApicCount := s_LocalApicCount s + 1\<rparr>)"

definition Apic_IoApic :: "memory \<Rightarrow> u64 \<Rightarrow> 'a apic_scheme \<Rightarrow> 'a apic_scheme" where
  "Apic_IoApic m e s =
     (if MadtIoApic_GlobalSystemInterruptBase m e > 23 then s
      else s\<lparr>IoApic_Id := ucast (MadtIoApic_IoApicId m e), IoApic_Address := ucast (MadtIoApic_Address m e),
             IoApic_InterruptBase := MadtIoApic_GlobalSystemInterruptBase m e\<rparr>)"

definition Apic_SourceOverride :: "memory \<Rightarrow> u64 \<Rightarrow> 'a apic_scheme \<Rightarrow> 'a apic_scheme" where
  "Apic_SourceOverride m e s =
     (if MadtOverride_Bus m e = 0 \<and> MadtOverride_Source m e < 16
      then s\<lparr>s_PinMap := (s_PinMap s)[unat (MadtOverride_Source m e) := ucast (MadtOverride_GlobalSystemInterrupt m e)]\<rparr>
      else s)"

definition Apic_entry :: "memory \<Rightarrow> u64 \<Rightarrow> 'a apic_scheme \<Rightarrow> 'a apic_scheme" where
  "Apic_entry m e s =
     (let type = SubHeader_Type m e in
      if type = MADT_LOCAL_APIC then Apic_LocalApic m e s
      else if type = MADT_IO_APIC then Apic_IoApic m e s
      else if type = MADT_INTERRUPT_SOURCE_OVERRIDE then Apic_SourceOverride m e s
      else if type = MADT_LOCAL_APIC_ADDRESS_OVERRIDE
           then s\<lparr>s_BaseAddress := MadtAddressOverride_LocalApicAddress m e\<rparr>
      else s)"

partial_function (option) Apic_walk :: "memory \<Rightarrow> u64 \<Rightarrow> u64 \<Rightarrow> 'a apic_scheme \<Rightarrow> 'a apic_scheme option" where
  "Apic_walk m entry stop s =
     (if entry < stop then Apic_walk m (SubHeader_Next m entry) stop (Apic_entry m entry s) else Some s)"

declare Apic_walk.simps [code]

definition Apic_reset :: "memory \<Rightarrow> u64 \<Rightarrow> 'a apic_scheme \<Rightarrow> 'a apic_scheme" where
  "Apic_reset m madt s =
     (let s = s\<lparr>s_BaseAddress := ucast (Madt_LocalApicAddress m madt)\<rparr>;
          s = (if Madt_FlagsPcAtCompatible m madt \<noteq> 0
               then snd (run_state (do { OutB 0x22 0x70; OutB 0x23 0x01 }) s) else s)
      in s\<lparr>s_PinMap := map of_nat [0..<16], s_LocalApicId := replicate MAX_CORES INVALID_ID\<rparr>)"

definition Apic_Initialize :: "memory \<Rightarrow> 'a apic_scheme \<Rightarrow> (bool \<times> 'a apic_scheme) option" where
  "Apic_Initialize m s =
     (let madt = Acpi_Get m s 65 80 73 67 in
      if madt = 0 then Some (False, s)
      else do {
        s \<leftarrow> Apic_walk m (Madt_First madt) (Table_End m madt) (Apic_reset m madt s);
        Some (s_LocalApicCount s > 0, s) })"

definition GetIoApicAddress :: "'a apic_scheme \<Rightarrow> u64" where "GetIoApicAddress s = IoApic_Address s"
definition GetIoApicId :: "'a apic_scheme \<Rightarrow> u8" where "GetIoApicId s = ucast (IoApic_Id s)"
definition GetIoApicPin :: "'a apic_scheme \<Rightarrow> ApicDevice \<Rightarrow> u8" where
  "GetIoApicPin s InDevice = s_PinMap s ! unat (ApicDevice_value InDevice)"
definition GetLocalApicId :: "'a apic_scheme \<Rightarrow> u32 \<Rightarrow> u8" where
  "GetLocalApicId s InCoreId = (if unat InCoreId < MAX_CORES then s_LocalApicId s ! unat InCoreId else INVALID_ID)"
definition GetLogicalApicId :: "u32 \<Rightarrow> u8" where
  "GetLogicalApicId InCoreId = (if unat InCoreId < MAX_CORES then ucast (push_bit (unat InCoreId) 1 :: u32) else 0)"

section \<open>The walk as a list of records\<close>

text \<open>The records the walk visits, in table order, where it visits finitely many.\<close>

inductive chain :: "memory \<Rightarrow> u64 \<Rightarrow> u64 \<Rightarrow> u64 list \<Rightarrow> bool" for m :: memory and stop :: u64 where
  chain_end: "\<not> e < stop \<Longrightarrow> chain m stop e []"
| chain_step: "e < stop \<Longrightarrow> chain m stop (SubHeader_Next m e) es \<Longrightarrow> chain m stop e (e # es)"

inductive_simps chain_Nil [simp]: "chain m stop e []"
inductive_simps chain_Cons [simp]: "chain m stop e (x # es)"

lemma Apic_walk_chain: "chain m stop e es \<Longrightarrow> Apic_walk m e stop s = Some (fold (Apic_entry m) es s)"
proof (induction arbitrary: s rule: chain.induct)
  case (chain_end e)
  then show ?case by (subst Apic_walk.simps) simp
next
  case (chain_step e es)
  then show ?case by (subst Apic_walk.simps) simp
qed

lemma Apic_walk_returns:
  assumes "Apic_walk m e stop s = Some s'"
  shows "\<exists>es. chain m stop e es"
  using assms
proof (rule Apic_walk.raw_induct [rotated])
  fix walk :: "memory \<Rightarrow> u64 \<Rightarrow> u64 \<Rightarrow> 'a apic_scheme \<Rightarrow> 'a apic_scheme option" and m e stop s s'
  assume IH: "\<And>m e stop s s'. walk m e stop s = Some s' \<Longrightarrow> \<exists>es. chain m stop e es"
    and step: "(if e < stop then walk m (SubHeader_Next m e) stop (Apic_entry m e s) else Some s) = Some s'"
  show "\<exists>es. chain m stop e es"
  proof (cases "e < stop")
    case True
    with step IH have "\<exists>es. chain m stop (SubHeader_Next m e) es" by (metis (full_types))
    with True show ?thesis by (auto intro: chain_step)
  qed (auto intro: chain_end)
qed

text \<open>
  The record addresses the walk comes to. In a table that does not end within the last 255 bytes of
  the address space, the walk is finite exactly when none of them has length zero.
\<close>

inductive visited :: "memory \<Rightarrow> u64 \<Rightarrow> u64 \<Rightarrow> u64 \<Rightarrow> bool" for m :: memory and first stop :: u64 where
  visited_first: "first < stop \<Longrightarrow> visited m first stop first"
| visited_next: "visited m first stop e \<Longrightarrow> SubHeader_Next m e < stop \<Longrightarrow> visited m first stop (SubHeader_Next m e)"

lemma visited_less: "visited m first stop e \<Longrightarrow> e < stop"
  by (induction rule: visited.induct) simp_all

lemma chain_progress: "chain m stop e es \<Longrightarrow> SubHeader_Next m e = e \<Longrightarrow> \<not> e < stop"
  by (induction rule: chain.induct) simp_all

lemma chain_visited: "visited m first stop e \<Longrightarrow> chain m stop first es \<Longrightarrow> \<exists>es'. chain m stop e es'"
proof (induction rule: visited.induct)
  case (visited_next e)
  then obtain es' where "chain m stop e es'" by blast
  then show ?case by (rule chain.cases) (use visited_less [OF visited_next.hyps(1)] in auto)
qed blast

lemma unat_SubHeader_Next:
  assumes "e < stop" "unat stop + 255 < 2 ^ 64"
  shows "unat (SubHeader_Next m e) = unat e + unat (SubHeader_Length m e)"
proof -
  have "unat (ucast (SubHeader_Length m e) :: u64) = unat (SubHeader_Length m e)"
    using unat_bound [of "SubHeader_Length m e"] by (simp add: unsigned_ucast_eq take_bit_nat_eq_self)
  moreover have "unat e < unat stop" "unat (SubHeader_Length m e) \<le> 255"
    using assms(1) unat_bound [of "SubHeader_Length m e"] by (simp_all add: word_less_nat_alt)
  ultimately show ?thesis unfolding SubHeader_Next_def using assms(2) by (subst unat_add_no_wrap) simp_all
qed

lemma chain_iff:
  assumes "unat stop + 255 < 2 ^ 64"
  shows "(\<exists>es. chain m stop first es) \<longleftrightarrow> (\<forall>e. visited m first stop e \<longrightarrow> SubHeader_Length m e \<noteq> 0)"
proof
  assume "\<exists>es. chain m stop first es"
  then obtain es where c: "chain m stop first es" by blast
  show "\<forall>e. visited m first stop e \<longrightarrow> SubHeader_Length m e \<noteq> 0"
  proof (intro allI impI notI)
    fix e assume v: "visited m first stop e" "SubHeader_Length m e = 0"
    then have "SubHeader_Next m e = e" by (simp add: SubHeader_Next_def)
    then show False using chain_visited [OF v(1) c] chain_progress visited_less [OF v(1)] by blast
  qed
next
  assume len: "\<forall>e. visited m first stop e \<longrightarrow> SubHeader_Length m e \<noteq> 0"
  have "visited m first stop e \<Longrightarrow> \<exists>es. chain m stop e es" for e
  proof (induction "unat stop - unat e" arbitrary: e rule: less_induct)
    case less
    note lt = visited_less [OF less.prems]
    show ?case
    proof (cases "SubHeader_Next m e < stop")
      case True
      have "unat e < unat (SubHeader_Next m e)"
        using unat_SubHeader_Next [OF lt assms, of m] len less.prems by (simp add: unat_gt_0)
      then have "\<exists>es. chain m stop (SubHeader_Next m e) es"
        using less.hyps [of "SubHeader_Next m e"] visited_next [OF less.prems True] lt by (simp add: word_less_nat_alt)
      then show ?thesis using lt by (auto intro: chain_step)
    next
      case False
      then show ?thesis using lt chain_step [OF lt chain_end] by blast
    qed
  qed
  then show "\<exists>es. chain m stop first es" by (cases "first < stop") (auto intro: visited_first chain_end)
qed

section \<open>The cores found\<close>

definition enabled_core :: "memory \<Rightarrow> u64 \<Rightarrow> bool" where
  "enabled_core m e \<longleftrightarrow> SubHeader_Type m e = MADT_LOCAL_APIC \<and> MadtLocalApic_FlagsEnabled m e \<noteq> 0
     \<and> MadtLocalApic_ApicId m e \<noteq> INVALID_ID"

definition core_ids :: "memory \<Rightarrow> u64 list \<Rightarrow> u8 list" where
  "core_ids m es = map (MadtLocalApic_ApicId m) (filter (enabled_core m) es)"

text \<open>The arrays hold exactly the first \<open>MAX_CORES\<close> of a list of identifiers.\<close>

definition holds_ids :: "'a apic_scheme \<Rightarrow> u8 list \<Rightarrow> bool" where
  "holds_ids s ids \<longleftrightarrow> s_LocalApicId s = take MAX_CORES ids @ replicate (MAX_CORES - length ids) INVALID_ID
     \<and> unat (s_LocalApicCount s) = min MAX_CORES (length ids)"

lemma update_padded:
  "n < k \<Longrightarrow> length xs = n \<Longrightarrow> (xs @ replicate (k - n) d)[n := v] = (xs @ [v]) @ replicate (k - Suc n) d"
  by (metis Suc_diff_Suc append.assoc append_Cons append_Nil list_update_length replicate_Suc)

lemma holds_ids_entry:
  assumes "holds_ids s ids"
  shows "holds_ids (Apic_entry m e s) (ids @ core_ids m [e])"
proof (cases "enabled_core m e")
  case True
  then have entry: "Apic_entry m e s = (if unat (s_LocalApicCount s) \<ge> MAX_CORES then s
      else s\<lparr>s_LocalApicId := (s_LocalApicId s)[unat (s_LocalApicCount s) := MadtLocalApic_ApicId m e],
             s_LocalApicCount := s_LocalApicCount s + 1\<rparr>)"
    by (simp add: enabled_core_def Apic_entry_def Apic_LocalApic_def)
  have ids: "core_ids m [e] = [MadtLocalApic_ApicId m e]" using True by (simp add: core_ids_def)
  show ?thesis
  proof (cases "length ids < MAX_CORES")
    case less: True
    have c: "unat (s_LocalApicCount s) = length ids" using assms less by (simp add: holds_ids_def)
    moreover have "unat (s_LocalApicCount s + 1) = Suc (unat (s_LocalApicCount s))"
      using c less by (subst unat_add_no_wrap) (simp_all add: MAX_CORES_def)
    ultimately show ?thesis
      using assms less entry ids update_padded [OF less, of ids] by (simp add: holds_ids_def)
  next
    case False
    then show ?thesis using assms entry ids by (simp add: holds_ids_def)
  qed
next
  case False
  then have "s_LocalApicId (Apic_entry m e s) = s_LocalApicId s" "s_LocalApicCount (Apic_entry m e s) = s_LocalApicCount s"
    by (auto simp: enabled_core_def Apic_entry_def Apic_LocalApic_def Apic_IoApic_def Apic_SourceOverride_def Let_def)
  moreover have "core_ids m [e] = []" using False by (simp add: core_ids_def)
  ultimately show ?thesis using assms by (simp add: holds_ids_def)
qed

lemma holds_ids_fold: "holds_ids s ids \<Longrightarrow> holds_ids (fold (Apic_entry m) es s) (ids @ core_ids m es)"
proof (induction es arbitrary: s ids)
  case Nil
  then show ?case by (simp add: core_ids_def)
next
  case (Cons e es)
  have "core_ids m (e # es) = core_ids m [e] @ core_ids m es" by (simp add: core_ids_def)
  with Cons.IH [OF holds_ids_entry [OF Cons.prems]] show ?case by simp
qed

lemma Apic_reset_counts: "s_LocalApicCount (Apic_reset m madt s) = s_LocalApicCount s"
  "s_LocalApicId (Apic_reset m madt s) = replicate MAX_CORES INVALID_ID"
  by (simp_all add: Apic_reset_def run_simps Let_def)

text \<open>
  C28: reading the machine topology. Where the MADT does not end within the last 255 bytes of the
  address space, \<open>Apic::Initialize\<close> returns exactly when no record the walk comes to has length zero.
  When it returns, called once, the core table holds the local APIC identifiers of the enabled cores
  of the visited records in table order, the first \<open>MAX_CORES\<close> of them, every other slot is the
  invalid identifier, the count is their number, and the result says whether there is one. No write
  leaves the table however many cores there are.
\<close>
theorem Apic_Initialize_cores:
  assumes "Acpi_Get m s 65 80 73 67 = madt" "madt \<noteq> 0" "s_LocalApicCount s = 0"
    and "unat (Table_End m madt) + 255 < 2 ^ 64"
  shows "((\<exists>r. Apic_Initialize m s = Some r) \<longleftrightarrow>
      (\<forall>e. visited m (Madt_First madt) (Table_End m madt) e \<longrightarrow> SubHeader_Length m e \<noteq> 0)) \<and>
    (\<forall>es. chain m (Table_End m madt) (Madt_First madt) es \<longrightarrow> (\<exists>s'. Apic_Initialize m s = Some (core_ids m es \<noteq> [], s')
      \<and> s_LocalApicId s' = take MAX_CORES (core_ids m es) @ replicate (MAX_CORES - length (core_ids m es)) INVALID_ID
      \<and> unat (s_LocalApicCount s') = min MAX_CORES (length (core_ids m es))))"
proof -
  have init: "Apic_Initialize m s = Apic_walk m (Madt_First madt) (Table_End m madt) (Apic_reset m madt s)
      \<bind> (\<lambda>s. Some (s_LocalApicCount s > 0, s))"
    using assms by (simp add: Apic_Initialize_def Let_def)
  have "(\<exists>r. Apic_Initialize m s = Some r) \<longleftrightarrow> (\<exists>es. chain m (Table_End m madt) (Madt_First madt) es)"
    unfolding init using Apic_walk_chain Apic_walk_returns by (fastforce simp: Option.bind_eq_Some_conv)
  note this [unfolded chain_iff [OF assms(4)]]
  moreover have "\<exists>s'. Apic_Initialize m s = Some (core_ids m es \<noteq> [], s')
      \<and> s_LocalApicId s' = take MAX_CORES (core_ids m es) @ replicate (MAX_CORES - length (core_ids m es)) INVALID_ID
      \<and> unat (s_LocalApicCount s') = min MAX_CORES (length (core_ids m es))"
    if walk: "chain m (Table_End m madt) (Madt_First madt) es" for es
  proof -
    from Apic_walk_chain [OF walk, of "Apic_reset m madt s"] have w: "Apic_Initialize m s =
        Some (s_LocalApicCount (fold (Apic_entry m) es (Apic_reset m madt s)) > 0, fold (Apic_entry m) es (Apic_reset m madt s))"
      by (simp add: init)
    have "holds_ids (Apic_reset m madt s) []" using assms by (simp add: holds_ids_def Apic_reset_counts)
    from holds_ids_fold [OF this, of m es] have h: "holds_ids (fold (Apic_entry m) es (Apic_reset m madt s)) (core_ids m es)"
      by simp
    then have "(0 < s_LocalApicCount (fold (Apic_entry m) es (Apic_reset m madt s))) = (core_ids m es \<noteq> [])"
      by (auto simp: holds_ids_def word_less_nat_alt MAX_CORES_def)
    with w h show ?thesis by (auto simp: holds_ids_def)
  qed
  ultimately show ?thesis by blast
qed

text \<open>A machine with three cores, the second of them disabled.\<close>

definition madt_memory :: memory where
  "madt_memory a =
     (if a - 0x1000 < 40 then
        [82, 83, 68, 84, 40, 0, 0, 0, 0, 0, 0, 0, 0, 0, 0, 0, 0, 0, 0, 0, 0, 0, 0, 0,
         0, 0, 0, 0, 0, 0, 0, 0, 0, 0, 0, 0, 0, 32, 0, 0] ! unat (a - 0x1000)
      else if a - 0x2000 < 68 then
        [65, 80, 73, 67, 68, 0, 0, 0, 0, 142, 0, 0, 0, 0, 0, 0, 0, 0, 0, 0, 0, 0, 0, 0,
         0, 0, 0, 0, 0, 0, 0, 0, 0, 0, 0, 0, 0, 0, 224, 254, 1, 0, 0, 0, 0, 8, 0, 5,
         1, 0, 0, 0, 0, 8, 1, 7, 0, 0, 0, 0, 0, 8, 2, 9, 1, 0, 0, 0] ! unat (a - 0x2000)
      else 0)"

definition apic_start :: apic where
  "apic_start = \<lparr>trace = [], s_BaseAddress = lapic_reset_base, s_Counter = 0, s_Divider = 1,
     s_IntervalMicroseconds = 0, s_Rsdp = 0, s_Rsdt = 0x1000, s_Xsdt = 0, IoApic_Id = 0, IoApic_Address = 0,
     IoApic_InterruptBase = 0, s_PinMap = replicate 16 0, s_LocalApicId = replicate 8 0, s_LocalApicCount = 0\<rparr>"

theorem Apic_Initialize_cores_witness:
  "\<exists>s'. Apic_Initialize madt_memory apic_start = Some (True, s') \<and> take 3 (s_LocalApicId s') = [5, 9, 0xff]
     \<and> unat (s_LocalApicCount s') = 2"
proof -
  have madt: "Acpi_Get madt_memory apic_start 65 80 73 67 = 0x2000" by code_simp
  have "SubHeader_Next madt_memory 0x202c = 0x2034" "SubHeader_Next madt_memory 0x2034 = 0x203c"
    "SubHeader_Next madt_memory 0x203c = 0x2044" "Table_End madt_memory 0x2000 = 0x2044" "Madt_First 0x2000 = 0x202c"
    by code_simp+
  then have c: "chain madt_memory (Table_End madt_memory 0x2000) (Madt_First 0x2000) [0x202c, 0x2034, 0x203c]" by simp
  have ids: "core_ids madt_memory [0x202c, 0x2034, 0x203c] = [5, 9]" by code_simp
  have zero: "s_LocalApicCount apic_start = 0" by (simp add: apic_start_def)
  have nz: "(0x2000 :: u64) \<noteq> 0" by simp
  have end_low: "unat (Table_End madt_memory 0x2000) + 255 < 2 ^ 64"
    using \<open>Table_End madt_memory 0x2000 = 0x2044\<close> by simp
  obtain s' where
    "Apic_Initialize madt_memory apic_start = Some (core_ids madt_memory [0x202c, 0x2034, 0x203c] \<noteq> [], s')"
    "s_LocalApicId s' = take MAX_CORES [5, 9] @ replicate (MAX_CORES - 2) INVALID_ID"
    "unat (s_LocalApicCount s') = min MAX_CORES 2"
    using Apic_Initialize_cores [OF madt nz zero end_low, THEN conjunct2, rule_format, OF c] ids by auto
  then show ?thesis using ids by (simp add: MAX_CORES_def INVALID_ID_def numeral_eq_Suc)
qed

end
