(* ===== verification/HK_Gdt.thy ===== *)
theory HK_Gdt
  imports HK_Apic
begin

text \<open>
  The descriptor tables: \<open>Kernel/Arch/Gdt.h\<close>, \<open>Gdt.cpp\<close>, \<open>Idt.h\<close> and \<open>Idt.cpp\<close>. A segment
  descriptor is its 64 bit value, built field by field. Where the linker puts the static arrays is
  not in the source: their addresses are the parameter \<open>syms\<close>.
\<close>

section \<open>Segment descriptors\<close>

datatype Selector = NULL_SELECTOR | KERNEL_CODE | KERNEL_DATA | USER_CODE32 | USER_DATA | USER_CODE | FIRST_TSS

primrec Selector_value :: "Selector \<Rightarrow> u16" where
  "Selector_value NULL_SELECTOR = 0x00"
| "Selector_value KERNEL_CODE = 0x08"
| "Selector_value KERNEL_DATA = 0x10"
| "Selector_value USER_CODE32 = 0x18"
| "Selector_value USER_DATA = 0x20"
| "Selector_value USER_CODE = 0x28"
| "Selector_value FIRST_TSS = 0x30"

definition RING3 :: u16 where "RING3 = 3"

definition FIXED_DESCRIPTORS :: nat where "FIXED_DESCRIPTORS = unat (Selector_value FIRST_TSS) div 8"

datatype Granularity = BYTES | PAGES

primrec Granularity_value :: "Granularity \<Rightarrow> u64" where
  "Granularity_value BYTES = 0"
| "Granularity_value PAGES = 1"

datatype GdtSize = BIT16 | BIT32 | BIT64

primrec GdtSize_value :: "GdtSize \<Rightarrow> u64" where
  "GdtSize_value BIT16 = 0"
| "GdtSize_value BIT32 = 2"
| "GdtSize_value BIT64 = 1"

datatype TypeFlags = DATA_RW | CODE_RX

primrec TypeFlags_value :: "TypeFlags \<Rightarrow> u64" where
  "TypeFlags_value DATA_RW = 2"
| "TypeFlags_value CODE_RX = 10"

text \<open>The bit fields of \<open>SegmentDescriptor\<close>, in the order of the struct.\<close>

definition SegmentDescriptor ::
  "u64 \<Rightarrow> u64 \<Rightarrow> u64 \<Rightarrow> u64 \<Rightarrow> u64 \<Rightarrow> u64 \<Rightarrow> u64 \<Rightarrow> u64 \<Rightarrow> u64 \<Rightarrow> u64 \<Rightarrow> u64 \<Rightarrow> u64" where
  "SegmentDescriptor LimitLow BaseLow Type IsCodeOrData PrivilegeLevel Present LimitHigh Available Custom Gran BaseHigh =
     set_field 56 8 BaseHigh (set_field 55 1 Gran (set_field 53 2 Custom (set_field 52 1 Available
      (set_field 48 4 LimitHigh (set_field 47 1 Present (set_field 45 2 PrivilegeLevel
       (set_field 44 1 IsCodeOrData (set_field 40 4 Type (set_field 16 24 BaseLow (set_field 0 16 LimitLow 0))))))))))"

definition Segment_Null :: u64 where "Segment_Null = 0"

definition Segment :: "u64 \<Rightarrow> u32 \<Rightarrow> bool \<Rightarrow> u64 \<Rightarrow> GdtSize \<Rightarrow> u64" where
  "Segment InBase InLimit InCode InRing InSize =
     SegmentDescriptor
       (ucast (drop_bit (if InLimit > 0xfffff then 12 else 0) InLimit AND 0xffff))
       (InBase AND 0xffffff)
       (TypeFlags_value (if InCode then CODE_RX else DATA_RW))
       1 InRing 1
       (ucast ((if InLimit > 0xfffff then drop_bit 28 InLimit else drop_bit 16 InLimit) AND 0xf))
       0
       (GdtSize_value InSize)
       (Granularity_value (if InLimit > 0xfffff then PAGES else BYTES))
       (drop_bit 24 InBase AND 0xff)"

definition Segment64 :: "bool \<Rightarrow> u64 \<Rightarrow> u64" where
  "Segment64 InCode InRing = Segment 0 0 InCode InRing BIT64"

section \<open>Gdt.cpp\<close>

definition IST_STACK_SIZE :: u64 where [config_defs]: "IST_STACK_SIZE = 8 * KIB"
definition IST_FAULT_STACK :: u8 where "IST_FAULT_STACK = 1"
definition SIZEOF_TaskStateSegment :: u64 where "SIZEOF_TaskStateSegment = 104"

record TaskStateSegment =
  Tss_Rsp :: "u64 list"
  Tss_Ist :: "u64 list"
  Tss_IoMapBase :: u16

text \<open>Addresses of the static arrays: the task states, the fault stacks, the table, the system call
  areas with their entry point.\<close>

record symbols =
  addr_TaskState :: u64
  addr_FaultStack :: u64
  addr_LongMode :: u64
  addr_IdtTable :: u64
  addr_Area :: u64
  addr_SyscallEntry :: u64

record InterruptDescriptor =
  Gate_AddressLow :: u16
  Gate_Selector :: u16
  Gate_Ist :: u8
  Gate_Type :: u8
  Gate_Size :: u8
  Gate_Dpl :: u8
  Gate_Present :: u8
  Gate_AddressHigh :: u64

record gdt = apic +
  s_LongMode :: "u64 list"
  s_TaskState :: "TaskStateSegment list"
  Idt_s_Table :: "InterruptDescriptor list"

definition LongMode_initial :: "u64 list" where
  "LongMode_initial =
     [Segment_Null, Segment64 True 0, Segment64 False 0, Segment 0 0xffffffff True 3 BIT32,
      Segment64 False 3, Segment64 True 3] @ replicate (2 * MAX_CORES) 0"

definition Pointer_Limit :: "u64 \<Rightarrow> u64 \<Rightarrow> u16" where
  "Pointer_Limit COUNT width = ucast (COUNT * width - 1)"

definition Gdt_Load :: "symbols \<Rightarrow> ('a bus_scheme, unit) state" where
  "Gdt_Load syms = do {
     bus_write GdtLimit (ucast (Pointer_Limit (of_nat (FIXED_DESCRIPTORS + 2 * MAX_CORES)) 8));
     bus_write GdtBase (addr_LongMode syms) }"

definition tss_address :: "symbols \<Rightarrow> nat \<Rightarrow> u64" where
  "tss_address syms core = addr_TaskState syms + of_nat core * SIZEOF_TaskStateSegment"

definition tss_low :: "u64 \<Rightarrow> u32 \<Rightarrow> u64" where
  "tss_low base limit =
     (ucast limit AND 0xffff) OR push_bit 16 (base AND 0xffffff) OR push_bit 40 0x9 OR push_bit 47 1
       OR push_bit 48 (drop_bit 16 (ucast limit) AND 0xf) OR push_bit 56 (drop_bit 24 base AND 0xff)"

definition WriteTssDescriptor :: "symbols \<Rightarrow> nat \<Rightarrow> 'a gdt_scheme \<Rightarrow> 'a gdt_scheme" where
  "WriteTssDescriptor syms InCoreId s =
     (let base = tss_address syms InCoreId;
          limit = ucast (SIZEOF_TaskStateSegment - 1);
          slot = FIXED_DESCRIPTORS + 2 * InCoreId
      in s\<lparr>s_LongMode := (s_LongMode s)[slot := tss_low base limit, slot + 1 := drop_bit 32 base]\<rparr>)"

text \<open>
  The instruction \<open>ltr\<close> on a core that has loaded the table \<open>s_LongMode\<close>: it refuses a selector that is
  null, outside the table or in a local table, and a descriptor that is not a present, available 64 bit
  task state segment; otherwise it loads the register and marks the descriptor in the table as busy.
\<close>

definition ltr :: "u16 \<Rightarrow> 'a gdt_scheme \<Rightarrow> 'a gdt_scheme result" where
  "ltr selector s =
     (let slot = unat (drop_bit 3 selector);
          low = s_LongMode s ! slot;
          high = s_LongMode s ! (slot + 1)
      in if slot = 0 \<or> slot + 1 \<ge> length (s_LongMode s) \<or> bit selector 2 \<or> get_field 40 5 low \<noteq> 0x9
           \<or> get_field 47 1 low = 0 \<or> get_field 40 5 high \<noteq> 0
         then Err ProtectionFault
         else Ok (snd (run_state (bus_write TaskRegister (ucast selector))
                (s\<lparr>s_LongMode := (s_LongMode s)[slot := set_field 40 4 0xB low]\<rparr>))))"

definition LoadTaskRegister :: "symbols \<Rightarrow> nat \<Rightarrow> 'a gdt_scheme \<Rightarrow> 'a gdt_scheme result" where
  "LoadTaskRegister syms InCoreId s =
     rbind (ASSERT ''InCoreId < Config::MAX_CORES'' (InCoreId < MAX_CORES)) (\<lambda>_.
       (let tss = \<lparr>Tss_Rsp = replicate 3 0,
                   Tss_Ist = (replicate 7 0)[unat IST_FAULT_STACK - 1 :=
                      addr_FaultStack syms + of_nat InCoreId * IST_STACK_SIZE + IST_STACK_SIZE],
                   Tss_IoMapBase = ucast SIZEOF_TaskStateSegment\<rparr>;
            s = s\<lparr>s_TaskState := (s_TaskState s)[InCoreId := tss]\<rparr>;
            s = WriteTssDescriptor syms InCoreId s;
            selector = Selector_value FIRST_TSS + of_nat InCoreId * 16
        in ltr selector s))"

definition Gdt_SetKernelStack :: "nat \<Rightarrow> u64 \<Rightarrow> 'a gdt_scheme \<Rightarrow> 'a gdt_scheme" where
  "Gdt_SetKernelStack InCoreId InStackTop s =
     s\<lparr>s_TaskState := (s_TaskState s)[InCoreId := (s_TaskState s ! InCoreId)
        \<lparr>Tss_Rsp := (Tss_Rsp (s_TaskState s ! InCoreId))[0 := InStackTop]\<rparr>]\<rparr>"

definition Gdt_GetKernelStack :: "'a gdt_scheme \<Rightarrow> nat \<Rightarrow> u64" where
  "Gdt_GetKernelStack s InCoreId = Tss_Rsp (s_TaskState s ! InCoreId) ! 0"

section \<open>Idt.cpp\<close>

datatype GateType = GATE_INTERRUPT | GATE_TRAP

primrec GateType_value :: "GateType \<Rightarrow> u8" where
  "GateType_value GATE_INTERRUPT = 0x6"
| "GateType_value GATE_TRAP = 0x7"

datatype PrivilegeLevel = DPL_KERNEL | DPL_USER

primrec PrivilegeLevel_value :: "PrivilegeLevel \<Rightarrow> u8" where
  "PrivilegeLevel_value DPL_KERNEL = 0"
| "PrivilegeLevel_value DPL_USER = 3"

definition Gate :: "u64 \<Rightarrow> u8 \<Rightarrow> PrivilegeLevel \<Rightarrow> InterruptDescriptor" where
  "Gate InHandler InIst InDpl =
     \<lparr>Gate_AddressLow = ucast (InHandler AND 0xffff), Gate_Selector = 0x08, Gate_Ist = take_bit 3 InIst,
      Gate_Type = GateType_value GATE_INTERRUPT, Gate_Size = 1, Gate_Dpl = PrivilegeLevel_value InDpl,
      Gate_Present = 1, Gate_AddressHigh = drop_bit 16 InHandler AND 0xffffffffffff\<rparr>"

definition Gate_handler :: "InterruptDescriptor \<Rightarrow> u64" where
  "Gate_handler g = ucast (Gate_AddressLow g) OR push_bit 16 (Gate_AddressHigh g)"

definition VECTOR_COUNT :: nat where "VECTOR_COUNT = 256"

definition Idt_Set :: "u8 \<Rightarrow> InterruptDescriptor \<Rightarrow> 'a gdt_scheme \<Rightarrow> 'a gdt_scheme" where
  "Idt_Set InVector InDescriptor s = s\<lparr>Idt_s_Table := (Idt_s_Table s)[unat InVector := InDescriptor]\<rparr>"

definition Idt_Load :: "symbols \<Rightarrow> ('a bus_scheme, unit) state" where
  "Idt_Load syms = do {
     bus_write IdtLimit (of_nat VECTOR_COUNT * 16 - 1);
     bus_write IdtBase (addr_IdtTable syms) }"

section \<open>What the processor reads back\<close>

lemma and_masks:
  "x AND 0xffff = take_bit 16 x" "x AND 0xffffff = take_bit 24 x" "x AND 0xff = take_bit 8 x"
  "x AND 0xf = take_bit 4 x" "x AND 0xffffffffffff = take_bit 48 x" for x :: u64
  by (simp_all add: take_bit_eq_mask mask_eq_exp_minus_1)

text \<open>The base, limit and type the processor assembles from the two slots of a system descriptor.\<close>

definition tss_base :: "u64 \<Rightarrow> u64 \<Rightarrow> u64" where
  "tss_base low high = get_field 16 24 low OR push_bit 24 (get_field 56 8 low) OR push_bit 32 high"

definition tss_limit :: "u64 \<Rightarrow> u64" where
  "tss_limit low = get_field 0 16 low OR push_bit 16 (get_field 48 4 low)"

lemma bit_nine: "bit (9 :: u64) k \<longleftrightarrow> k = 0 \<or> k = 3"
proof -
  have "(9 :: u64) = push_bit 3 1 OR 1" by simp
  then show ?thesis by (simp only: bit_or_iff bit_push_bit_iff bit_1_iff) auto
qed

lemma bit_103: "bit (103 :: u64) n \<Longrightarrow> n < 16"
proof -
  have "take_bit 16 (103 :: u64) = 103" by simp
  then show "bit (103 :: u64) n \<Longrightarrow> n < 16" by (metis bit_take_bit_iff)
qed

lemma bit_tss_low: "bit (tss_low base 103) n \<longleftrightarrow>
    (n < 16 \<and> bit (103 :: u64) n) \<or> (16 \<le> n \<and> n < 40 \<and> bit base (n - 16)) \<or> n = 40 \<or> n = 43 \<or> n = 47
    \<or> (56 \<le> n \<and> n < 64 \<and> bit base (n - 32))"
proof -
  have z: "drop_bit 16 (ucast (103 :: u32) :: u64) = 0" "take_bit 16 (ucast (103 :: u32) :: u64) = 103" by simp_all
  have "bit (tss_low base 103) n \<longleftrightarrow> bit (103 :: u64) n \<or> (16 \<le> n \<and> n < 64 \<and> n - 16 < 24 \<and> bit base (n - 16))
      \<or> (40 \<le> n \<and> n < 64 \<and> (n - 40 = 0 \<or> n - 40 = 3)) \<or> (47 \<le> n \<and> n < 64 \<and> n - 47 = 0)
      \<or> (56 \<le> n \<and> n < 64 \<and> n - 56 < 8 \<and> bit base (24 + (n - 56)))"
    unfolding tss_low_def and_masks z
    by (simp only: bit_or_iff bit_push_bit_iff bit_take_bit_iff bit_drop_bit_eq o_apply bit_nine bit_1_iff take_bit_of_0 push_bit_of_0 bit_0_eq)
      (simp add: conj_ac disj_ac)
  also have "\<dots> \<longleftrightarrow> (n < 16 \<and> bit (103 :: u64) n) \<or> (16 \<le> n \<and> n < 40 \<and> bit base (n - 16)) \<or> n = 40 \<or> n = 43 \<or> n = 47
    \<or> (56 \<le> n \<and> n < 64 \<and> bit base (n - 32))"
  proof -
    have "bit (103 :: u64) n \<longleftrightarrow> n < 16 \<and> bit (103 :: u64) n" using bit_103 by blast
    moreover have "(16 \<le> n \<and> n < 64 \<and> n - 16 < 24 \<and> bit base (n - 16)) \<longleftrightarrow> (16 \<le> n \<and> n < 40 \<and> bit base (n - 16))" by auto
    moreover have "(40 \<le> n \<and> n < 64 \<and> (n - 40 = 0 \<or> n - 40 = 3)) \<longleftrightarrow> n = 40 \<or> n = 43" by auto
    moreover have "(47 \<le> n \<and> n < 64 \<and> n - 47 = 0) \<longleftrightarrow> n = 47" by auto
    moreover have "24 + (n - 56) = n - 32" if "56 \<le> n" using that by simp
    then have "(56 \<le> n \<and> n < 64 \<and> n - 56 < 8 \<and> bit base (24 + (n - 56))) \<longleftrightarrow> (56 \<le> n \<and> n < 64 \<and> bit base (n - 32))"
      by auto
    ultimately show ?thesis by (simp only: disj_assoc)
  qed
  finally show ?thesis .
qed

lemma tss_base_roundtrip: "tss_base (tss_low base 103) (drop_bit 32 base) = base"
proof (rule bit_word_eqI)
  fix n assume "n < LENGTH(64)"
  then consider "n < 24" | "24 \<le> n" "n < 32" | "32 \<le> n" "n < 64" by fastforce
  then show "bit (tss_base (tss_low base 103) (drop_bit 32 base)) n = bit base n"
    by cases (auto simp: tss_base_def bit_or_iff bit_push_bit_iff bit_get_field bit_drop_bit_eq bit_tss_low)
qed

lemma tss_low_fields:
  "get_field 40 4 (tss_low base 103) = 9" "get_field 44 1 (tss_low base 103) = 0"
  "get_field 45 2 (tss_low base 103) = 0" "get_field 47 1 (tss_low base 103) = 1" "tss_limit (tss_low base 103) = 103"
proof -
  show "get_field 40 4 (tss_low base 103) = 9"
    by (rule bit_word_eqI) (simp only: bit_get_field bit_tss_low bit_nine, auto)
  show "get_field 44 1 (tss_low base 103) = 0" "get_field 45 2 (tss_low base 103) = 0"
    "get_field 47 1 (tss_low base 103) = 1"
    by (rule bit_word_eqI; simp only: bit_get_field bit_tss_low bit_0_eq bot_apply bit_1_iff; auto)+
  have "get_field 48 4 (tss_low base 103) = 0"
    by (rule bit_word_eqI) (simp only: bit_get_field bit_tss_low bit_0_eq, auto)
  moreover have "get_field 0 16 (tss_low base 103) = 103"
    by (rule bit_word_eqI) (simp only: bit_get_field bit_tss_low add_0, use bit_103 in auto)
  ultimately show "tss_limit (tss_low base 103) = 103" by (simp add: tss_limit_def)
qed

lemma tss_low_available: "get_field 40 5 (tss_low base 103) = 9" "get_field 40 5 (drop_bit 32 base) = 0" for base :: u64
proof -
  show "get_field 40 5 (tss_low base 103) = 9"
    by (rule bit_word_eqI) (simp only: bit_get_field bit_tss_low bit_nine, auto)
  show "get_field 40 5 (drop_bit 32 base) = 0"
    by (rule bit_word_eqI) (auto simp: bit_get_field bit_drop_bit_eq dest: bit_imp_le_length)
qed

text \<open>Marking a task state descriptor busy changes its type only.\<close>

lemma tss_busy_fields:
  fixes low high :: u64
  shows "get_field 40 4 (set_field 40 4 0xB low) = 0xB" "get_field 44 1 (set_field 40 4 0xB low) = get_field 44 1 low"
  "get_field 45 2 (set_field 40 4 0xB low) = get_field 45 2 low" "get_field 47 1 (set_field 40 4 0xB low) = get_field 47 1 low"
  "tss_limit (set_field 40 4 0xB low) = tss_limit low" "tss_base (set_field 40 4 0xB low) high = tss_base low high"
proof -
  have "take_bit 4 (0xB :: u64) = 0xB" by simp
  then show "get_field 40 4 (set_field 40 4 0xB low) = 0xB" by (simp add: get_set_same)
  have "get_field k w (set_field 40 4 0xB low) = get_field k w low" if "k + w \<le> 40 \<or> 44 \<le> k" for k w
    using that by (intro bit_word_eqI) (auto simp: bit_get_field bit_set_field dest: bit_imp_le_length)
  then show "get_field 44 1 (set_field 40 4 0xB low) = get_field 44 1 low"
    "get_field 45 2 (set_field 40 4 0xB low) = get_field 45 2 low" "get_field 47 1 (set_field 40 4 0xB low) = get_field 47 1 low"
    "tss_limit (set_field 40 4 0xB low) = tss_limit low" "tss_base (set_field 40 4 0xB low) high = tss_base low high"
    unfolding tss_limit_def tss_base_def by simp_all
qed

text \<open>The selector of a core names the core's pair of slots in the table.\<close>

lemma core_selector:
  assumes "core < MAX_CORES"
  shows "unat (drop_bit 3 (Selector_value FIRST_TSS + of_nat core * 16)) = 6 + 2 * core"
    "\<not> bit (Selector_value FIRST_TSS + of_nat core * 16) 2"
proof -
  have "\<forall>core \<in> set [0..<MAX_CORES]. unat (drop_bit 3 (Selector_value FIRST_TSS + of_nat core * 16)) = 6 + 2 * core
      \<and> \<not> bit (Selector_value FIRST_TSS + of_nat core * 16) 2"
    unfolding MAX_CORES_def by code_simp
  then show "unat (drop_bit 3 (Selector_value FIRST_TSS + of_nat core * 16)) = 6 + 2 * core"
    "\<not> bit (Selector_value FIRST_TSS + of_nat core * 16) 2" using assms by simp_all
qed

lemma Gate_roundtrip: "Gate_handler (Gate h ist dpl) = h"
proof (rule bit_word_eqI)
  fix n assume "n < LENGTH(64)"
  then consider "n < 16" | "16 \<le> n" "n < 64" by fastforce
  then show "bit (Gate_handler (Gate h ist dpl)) n = bit h n"
    unfolding Gate_handler_def Gate_def and_masks
    by cases (auto simp: bit_or_iff bit_push_bit_iff bit_unsigned_iff bit_take_bit_iff bit_drop_bit_eq dest: bit_imp_le_length)
qed

section \<open>Every core has its task state\<close>

definition gdt_wf :: "'a gdt_scheme \<Rightarrow> bool" where
  "gdt_wf s \<longleftrightarrow> length (s_LongMode s) = FIXED_DESCRIPTORS + 2 * MAX_CORES \<and> length (s_TaskState s) = MAX_CORES
     \<and> take FIXED_DESCRIPTORS (s_LongMode s) = take FIXED_DESCRIPTORS LongMode_initial"

text \<open>What the processor sees of a core that has loaded its selector: a busy 64 bit task state segment,
  privileged and present, at the address of the core's own structure, whose first interrupt stack
  is the top of the core's own fault stack and whose permission map grants no port.\<close>

definition core_tss :: "symbols \<Rightarrow> 'a gdt_scheme \<Rightarrow> nat \<Rightarrow> bool" where
  "core_tss syms s core \<longleftrightarrow>
     (let low = s_LongMode s ! (FIXED_DESCRIPTORS + 2 * core); high = s_LongMode s ! (FIXED_DESCRIPTORS + 2 * core + 1);
          tss = s_TaskState s ! core
      in tss_base low high = tss_address syms core \<and> tss_limit low = 103 \<and> get_field 40 4 low = 0xB
         \<and> get_field 44 1 low = 0 \<and> get_field 45 2 low = 0 \<and> get_field 47 1 low = 1
         \<and> Tss_Ist tss ! 0 = addr_FaultStack syms + of_nat (core + 1) * IST_STACK_SIZE
         \<and> Tss_IoMapBase tss = 104)"

fun LoadTaskRegisters :: "symbols \<Rightarrow> nat list \<Rightarrow> 'a gdt_scheme \<Rightarrow> 'a gdt_scheme result" where
  "LoadTaskRegisters syms [] s = Ok s"
| "LoadTaskRegisters syms (c # cs) s = rbind (LoadTaskRegister syms c s) (LoadTaskRegisters syms cs)"

lemma FIXED_DESCRIPTORS_6: "FIXED_DESCRIPTORS = 6"
  by (simp add: FIXED_DESCRIPTORS_def)

lemma ltr_core:
  assumes "core < MAX_CORES" "length (s_LongMode s) = 6 + 2 * MAX_CORES"
    "s_LongMode s ! (6 + 2 * core) = tss_low base 103" "s_LongMode s ! Suc (6 + 2 * core) = drop_bit 32 base"
  shows "ltr (Selector_value FIRST_TSS + of_nat core * 16) s =
    Ok (snd (run_state (bus_write TaskRegister (ucast (Selector_value FIRST_TSS + of_nat core * 16)))
      (s\<lparr>s_LongMode := (s_LongMode s)[6 + 2 * core := set_field 40 4 0xB (tss_low base 103)]\<rparr>)))"
proof -
  note sel = core_selector [OF assms(1)]
  have "Suc (6 + 2 * core) < length (s_LongMode s)" using assms(1,2) by linarith
  then show ?thesis
    unfolding ltr_def Let_def sel Suc_eq_plus1 [symmetric] assms(3,4) tss_low_available tss_low_fields(4)
    using sel(2) by auto
qed

lemma LoadTaskRegister_step:
  assumes "gdt_wf s" "core < MAX_CORES"
  shows "\<exists>s'. LoadTaskRegister syms core s = Ok s' \<and> gdt_wf s' \<and> core_tss syms s' core
    \<and> (\<forall>c < MAX_CORES. c \<noteq> core \<longrightarrow> core_tss syms s c \<longrightarrow> core_tss syms s' c)"
proof -
  have len: "length (s_LongMode s) = 6 + 2 * MAX_CORES" "length (s_TaskState s) = MAX_CORES"
    using assms by (simp_all add: gdt_wf_def FIXED_DESCRIPTORS_6)
  obtain s' where s': "LoadTaskRegister syms core s = Ok s'" and
    lm: "s_LongMode s' = (s_LongMode s)[6 + 2 * core := set_field 40 4 0xB (tss_low (tss_address syms core) 103),
      Suc (6 + 2 * core) := drop_bit 32 (tss_address syms core)]" and
    ts: "s_TaskState s' = (s_TaskState s)[core := \<lparr>Tss_Rsp = replicate 3 0,
       Tss_Ist = (replicate 7 0)[0 := addr_FaultStack syms + of_nat core * IST_STACK_SIZE + IST_STACK_SIZE],
       Tss_IoMapBase = 104\<rparr>]"
    using assms(2) len
    by (simp add: LoadTaskRegister_def ASSERT_def run_simps WriteTssDescriptor_def Let_def FIXED_DESCRIPTORS_6
        SIZEOF_TaskStateSegment_def IST_FAULT_STACK_def ltr_core [where base = "tss_address syms core"] list_update_swap
        del: Selector_value.simps)
  have "gdt_wf s'" using assms by (simp add: gdt_wf_def lm ts FIXED_DESCRIPTORS_6)
  moreover have "core_tss syms s' core"
    using len assms(2)
    by (simp add: core_tss_def lm ts FIXED_DESCRIPTORS_6 tss_low_fields tss_busy_fields tss_base_roundtrip algebra_simps Let_def
        del: One_nat_def)
  moreover have "core_tss syms s' c" if "c < MAX_CORES" "c \<noteq> core" "core_tss syms s c" for c
  proof -
    have "6 + 2 * c \<noteq> 6 + 2 * core" "6 + 2 * c \<noteq> Suc (6 + 2 * core)" "Suc (6 + 2 * c) \<noteq> 6 + 2 * core"
      "Suc (6 + 2 * c) \<noteq> Suc (6 + 2 * core)" using that(2) by presburger+
    with that show ?thesis by (simp add: core_tss_def lm ts FIXED_DESCRIPTORS_6 Let_def)
  qed
  ultimately show ?thesis using s' by blast
qed

text \<open>
  C26: the descriptor table stays well formed while the cores, which have loaded it, come up in any order
  and any number of times: loading the task registers of a list of valid core numbers succeeds, as the
  descriptor is rewritten as an available one before every \<open>ltr\<close>, which would refuse the busy one an
  earlier load has left; it keeps the six fixed descriptors and the table size, and leaves each of these
  cores with a descriptor that the processor reads back as its busy 64 bit task state segment at the
  address of that core's own structure, with the core's own fault stack as interrupt stack 1 and no I/O
  port permission.
\<close>
theorem Gdt_task_states:
  assumes "gdt_wf s" "\<forall>c \<in> set cs. c < MAX_CORES"
  shows "\<exists>s'. LoadTaskRegisters syms cs s = Ok s' \<and> gdt_wf s' \<and> (\<forall>c \<in> set cs. core_tss syms s' c)"
proof -
  have "\<exists>s'. LoadTaskRegisters syms cs s = Ok s' \<and> gdt_wf s' \<and> (\<forall>c \<in> set cs. core_tss syms s' c)
      \<and> (\<forall>c < MAX_CORES. core_tss syms s c \<longrightarrow> core_tss syms s' c)" using assms
  proof (induction cs arbitrary: s)
    case (Cons c cs)
    then obtain s1 where s1: "LoadTaskRegister syms c s = Ok s1" "gdt_wf s1" "core_tss syms s1 c"
      "\<forall>d < MAX_CORES. d \<noteq> c \<longrightarrow> core_tss syms s d \<longrightarrow> core_tss syms s1 d"
      using LoadTaskRegister_step [of s c syms] by auto
    moreover obtain s' where "LoadTaskRegisters syms cs s1 = Ok s'" "gdt_wf s'" "\<forall>c \<in> set cs. core_tss syms s' c"
      "\<forall>d < MAX_CORES. core_tss syms s1 d \<longrightarrow> core_tss syms s' d"
      using Cons.IH [OF s1(2)] Cons.prems(2) by auto
    ultimately show ?case using Cons.prems(2) by auto
  qed simp
  then show ?thesis by blast
qed

definition gdt_start :: gdt where
  "gdt_start = \<lparr>trace = [], s_BaseAddress = lapic_reset_base, s_Counter = 0, s_Divider = 1,
     s_IntervalMicroseconds = 0, s_Rsdp = 0, s_Rsdt = 0, s_Xsdt = 0, IoApic_Id = 0, IoApic_Address = 0,
     IoApic_InterruptBase = 0, s_PinMap = [], s_LocalApicId = [], s_LocalApicCount = 0,
     s_LongMode = LongMode_initial,
     s_TaskState = replicate 8 \<lparr>Tss_Rsp = replicate 3 0, Tss_Ist = replicate 7 0, Tss_IoMapBase = 0\<rparr>,
     Idt_s_Table = []\<rparr>"

definition example_symbols :: symbols where
  "example_symbols = \<lparr>addr_TaskState = 0xFFFFFFFF80200000, addr_FaultStack = 0xFFFFFFFF80210000,
     addr_LongMode = 0xFFFFFFFF80220000, addr_IdtTable = 0xFFFFFFFF80221000, addr_Area = 0xFFFFFFFF80222000,
     addr_SyscallEntry = 0xFFFFFFFF80100000\<rparr>"

theorem Gdt_task_states_witness:
  "\<exists>s'. LoadTaskRegisters example_symbols [0, 2, 1, 2, 7] gdt_start = Ok s' \<and> gdt_wf s' \<and>
     (\<forall>c \<in> {0, 1, 2, 7}. core_tss example_symbols s' c)"
proof -
  have "gdt_wf gdt_start"
    by (simp add: gdt_wf_def gdt_start_def LongMode_initial_def FIXED_DESCRIPTORS_6 MAX_CORES_def)
  from Gdt_task_states [OF this, of "[0, 2, 1, 2, 7]" example_symbols] show ?thesis by (auto simp: MAX_CORES_def)
qed

end
