(* ===== verification/HK_Cpu.thy ===== *)
theory HK_Cpu
  imports HK_Gdt
begin

text \<open>
  \<open>Kernel/Arch/Cpu.cpp\<close>: numbering the cores and bringing them online, with the per core part of
  \<open>Kernel/Arch/Syscall.cpp\<close> that programs the system call entry. A per-core object is a list
  indexed by core number.
\<close>

section \<open>Model\<close>

record Area =
  Area_KernelStack :: u64
  Area_UserStack :: u64

record cpu = gdt +
  s_CoreIdByLapicId :: "u32 list"
  s_CoreCount :: u32
  s_OnlineCount :: u32
  s_CoreOnline :: "bool list"
  s_Area :: "Area list"

definition Cpu_GetId :: "hardware \<Rightarrow> ('a cpu_scheme, u32) state" where
  "Cpu_GetId hw = do {
     lapicId \<leftarrow> LocalApic_GetId hw;
     s \<leftarrow> State_Monad.get;
     State_Monad.return (s_CoreIdByLapicId s ! unat lapicId) }"

definition STAR_VALUE :: u64 where
  "STAR_VALUE = push_bit 48 (ucast (Selector_value USER_CODE32 OR RING3))
     OR push_bit 32 (ucast (Selector_value KERNEL_CODE))"

definition MASKED_FLAGS :: u64 where
  "MASKED_FLAGS = 0x100 OR 0x200 OR 0x400 OR 0x4000 OR 0x40000"

definition CACHE_LINE_SIZE :: u64 where "CACHE_LINE_SIZE = 64"

text \<open>The instances of a \<open>PerCore\<close> object are one cache line apart.\<close>

definition PerCore_address :: "u64 \<Rightarrow> u32 \<Rightarrow> u64" where
  "PerCore_address base core = base + ucast core * CACHE_LINE_SIZE"

definition Syscall_Initialize :: "hardware \<Rightarrow> symbols \<Rightarrow> u32 \<Rightarrow> ('a bus_scheme, unit) state" where
  "Syscall_Initialize hw syms InCoreId = do {
     efer \<leftarrow> Msr_Read hw EFER;
     Msr_Write EFER (efer OR MsrEfer_value SCE);
     Msr_Write STAR STAR_VALUE;
     Msr_Write LSTAR (addr_SyscallEntry syms);
     Msr_Write SFMASK MASKED_FLAGS;
     Msr_Write KERNEL_GS_BASE (PerCore_address (addr_Area syms) InCoreId) }"

definition Syscall_SetKernelStack :: "u32 \<Rightarrow> u64 \<Rightarrow> 'a cpu_scheme \<Rightarrow> 'a cpu_scheme" where
  "Syscall_SetKernelStack InCoreId InStackTop s =
     s\<lparr>s_Area := (s_Area s)[unat InCoreId := (s_Area s ! unat InCoreId)\<lparr>Area_KernelStack := InStackTop\<rparr>]\<rparr>"

definition number_core :: "u32 \<Rightarrow> 'a cpu_scheme \<Rightarrow> 'a cpu_scheme" where
  "number_core core s =
     (let lapicId = GetLocalApicId s core in
      if lapicId \<noteq> INVALID_ID
      then s\<lparr>s_CoreIdByLapicId := (s_CoreIdByLapicId s)[unat lapicId := core], s_CoreCount := s_CoreCount s + 1\<rparr>
      else s)"

definition number_cores :: "'a cpu_scheme \<Rightarrow> 'a cpu_scheme" where
  "number_cores s = for_loop 0 (of_nat MAX_CORES) number_core s"

definition Cpu_Initialize :: "hardware \<Rightarrow> symbols \<Rightarrow> 'a cpu_scheme \<Rightarrow> 'a cpu_scheme result" where
  "Cpu_Initialize hw syms s =
     (let first = (s_OnlineCount s = 0);
          s = s\<lparr>s_OnlineCount := s_OnlineCount s + 1\<rparr>;
          s = (if first then number_cores s else s);
          (id, s) = run_state (Cpu_GetId hw) s;
          s = snd (run_state (LocalApic_Initialize hw (GetLogicalApicId id)) s)
      in rbind (LoadTaskRegister syms (unat id) s) (\<lambda>s.
         (let s = snd (run_state (Syscall_Initialize hw syms id) s)
          in Ok (s\<lparr>s_CoreOnline := (s_CoreOnline s)[unat id := True]\<rparr>))))"

definition Cpu_Shutdown :: "hardware \<Rightarrow> ('a cpu_scheme, unit) state" where
  "Cpu_Shutdown hw = do {
     id \<leftarrow> Cpu_GetId hw;
     State_Monad.update (\<lambda>s. s\<lparr>s_CoreOnline := (s_CoreOnline s)[unat id := False]\<rparr>);
     State_Monad.update (\<lambda>s. s\<lparr>s_OnlineCount := s_OnlineCount s - 1\<rparr>) }"

definition Cpu_Count :: "'a cpu_scheme \<Rightarrow> u32" where "Cpu_Count s = s_CoreCount s"
definition Cpu_CountOnline :: "'a cpu_scheme \<Rightarrow> u32" where "Cpu_CountOnline s = s_OnlineCount s"
definition Cpu_IsOnline :: "'a cpu_scheme \<Rightarrow> u32 \<Rightarrow> bool" where
  "Cpu_IsOnline s InCoreId = (unat InCoreId < MAX_CORES \<and> s_CoreOnline s ! unat InCoreId)"

section \<open>The numbering\<close>

definition numbered :: "'a cpu_scheme \<Rightarrow> nat \<Rightarrow> 'a cpu_scheme \<Rightarrow> bool" where
  "numbered s0 k s \<longleftrightarrow> s_LocalApicId s = s_LocalApicId s0 \<and> length (s_CoreIdByLapicId s) = 256
     \<and> (\<forall>c<k. s_LocalApicId s0 ! c \<noteq> INVALID_ID \<longrightarrow> s_CoreIdByLapicId s ! unat (s_LocalApicId s0 ! c) = of_nat c)
     \<and> unat (s_CoreCount s) = card {c. c < k \<and> s_LocalApicId s0 ! c \<noteq> INVALID_ID}"

lemma card_lt_Suc: "card {c. c < Suc k \<and> P c} = (if P k then Suc (card {c. c < k \<and> P c}) else card {c. c < k \<and> P c})"
proof -
  have "{c. c < Suc k \<and> P c} = (if P k then insert k {c. c < k \<and> P c} else {c. c < k \<and> P c})"
    by (auto simp: less_Suc_eq)
  then show ?thesis by simp
qed

lemma numbered_step:
  assumes num: "numbered s0 k s" and k: "k < MAX_CORES" and len: "length (s_LocalApicId s0) = MAX_CORES"
    and dist: "\<forall>i<MAX_CORES. \<forall>j<MAX_CORES. i \<noteq> j \<longrightarrow> s_LocalApicId s0 ! i \<noteq> INVALID_ID \<longrightarrow>
      s_LocalApicId s0 ! i \<noteq> s_LocalApicId s0 ! j"
  shows "numbered s0 (Suc k) (number_core (of_nat k) s)"
proof -
  have u: "unat (of_nat k :: u32) = k" using k by (simp add: MAX_CORES_def unat_of_nat_small)
  then have id: "GetLocalApicId s (of_nat k) = s_LocalApicId s0 ! k"
    using k num by (simp add: GetLocalApicId_def numbered_def)
  show ?thesis
  proof (cases "s_LocalApicId s0 ! k = INVALID_ID")
    case True
    then have "number_core (of_nat k) s = s" using id by (simp add: number_core_def)
    with True num show ?thesis unfolding numbered_def card_lt_Suc by (auto simp: less_Suc_eq)
  next
    case False
    have b: "unat (s_LocalApicId s0 ! k) < 256" using unat_bound [of "s_LocalApicId s0 ! k"] by simp
    have "card {c. c < k \<and> s_LocalApicId s0 ! c \<noteq> INVALID_ID} \<le> k"
      using card_mono [of "{..<k}" "{c. c < k \<and> s_LocalApicId s0 ! c \<noteq> INVALID_ID}"] by auto
    then have c: "unat (s_CoreCount s + 1) = Suc (card {c. c < k \<and> s_LocalApicId s0 ! c \<noteq> INVALID_ID})"
      using num k by (subst unat_add_no_wrap) (simp_all add: numbered_def MAX_CORES_def)
    have "unat (s_LocalApicId s0 ! k) \<noteq> unat (s_LocalApicId s0 ! i)" if "i < k" "s_LocalApicId s0 ! i \<noteq> INVALID_ID" for i
      using dist that k by (metis less_trans nat_neq_iff word_unat_eq_iff)
    with False num id b c show ?thesis
      unfolding numbered_def card_lt_Suc by (auto simp: number_core_def less_Suc_eq)
  qed
qed

text \<open>
  With distinct identifiers, the first core through \<open>Cpu::Initialize\<close> builds an exact table: every
  core the topology lists is found from its local APIC identifier, and the count is their number.
\<close>

lemma number_cores_exact:
  assumes "length (s_LocalApicId s) = MAX_CORES" "length (s_CoreIdByLapicId s) = 256" "s_CoreCount s = 0"
    and "\<forall>i<MAX_CORES. \<forall>j<MAX_CORES. i \<noteq> j \<longrightarrow> s_LocalApicId s ! i \<noteq> INVALID_ID \<longrightarrow> s_LocalApicId s ! i \<noteq> s_LocalApicId s ! j"
  shows "numbered s MAX_CORES (number_cores s)"
proof -
  have n: "unat (of_nat MAX_CORES :: u32) = MAX_CORES" by (simp add: MAX_CORES_def)
  have "numbered s (max (unat (0 :: u32)) (unat (of_nat MAX_CORES :: u32))) (for_loop 0 (of_nat MAX_CORES) number_core s)"
  proof (rule for_loop_rule [where P = "numbered s"])
    show "numbered s (unat (0 :: u32)) s" using assms by (simp add: numbered_def)
  next
    fix k t assume "k < unat (of_nat MAX_CORES :: u32)" "numbered s k t"
    then show "numbered s (Suc k) (number_core (of_nat k) t)"
      using numbered_step [of s k t] assms n by simp
  qed
  then show ?thesis by (simp add: n number_cores_def)
qed

end
