(* ===== verification/HK_IoApic.thy ===== *)
theory HK_IoApic
  imports HK_Cpu
begin

text \<open>
  \<open>Kernel/Arch/IoApicRegisters.h\<close> and \<open>IoApic.cpp\<close>: routing device interrupts. Register access is
  indirect, through a select and a window register; a redirection entry is its 64 bit value, the
  join of two 32 bit registers. Of the two reads of an entry, whose order the language leaves open,
  the low half is taken first.
\<close>

section \<open>Registers\<close>

definition IOAPIC_IDENTIFICATION :: u32 where "IOAPIC_IDENTIFICATION = 0x00"
definition IOAPIC_VERSION :: u32 where "IOAPIC_VERSION = 0x01"
definition REDIRECTION_TABLE :: u32 where "REDIRECTION_TABLE = 0x10"

definition set_IdentificationId :: "u32 \<Rightarrow> u32 \<Rightarrow> u32" where "set_IdentificationId = set_field 24 4"

datatype IoDeliveryMode = IO_FIXED | IO_LOWEST_PRIORITY | IO_SMI | IO_NMI | IO_INIT | IO_EXTERNAL

primrec IoDeliveryMode_value :: "IoDeliveryMode \<Rightarrow> u64" where
  "IoDeliveryMode_value IO_FIXED = 0"
| "IoDeliveryMode_value IO_LOWEST_PRIORITY = 1"
| "IoDeliveryMode_value IO_SMI = 2"
| "IoDeliveryMode_value IO_NMI = 4"
| "IoDeliveryMode_value IO_INIT = 5"
| "IoDeliveryMode_value IO_EXTERNAL = 7"

datatype IoDestinationMode = IO_PHYSICAL | IO_LOGICAL

primrec IoDestinationMode_value :: "IoDestinationMode \<Rightarrow> u64" where
  "IoDestinationMode_value IO_PHYSICAL = 0"
| "IoDestinationMode_value IO_LOGICAL = 1"

datatype IoPolarity = POLARITY_HIGH | POLARITY_LOW

primrec IoPolarity_value :: "IoPolarity \<Rightarrow> u64" where
  "IoPolarity_value POLARITY_HIGH = 0"
| "IoPolarity_value POLARITY_LOW = 1"

datatype IoTriggerMode = TRIGGER_EDGE | TRIGGER_LEVEL

primrec IoTriggerMode_value :: "IoTriggerMode \<Rightarrow> u64" where
  "IoTriggerMode_value TRIGGER_EDGE = 0"
| "IoTriggerMode_value TRIGGER_LEVEL = 1"

datatype InterruptMask = UNMASKED | MASKED

primrec InterruptMask_value :: "InterruptMask \<Rightarrow> u64" where
  "InterruptMask_value UNMASKED = 0"
| "InterruptMask_value MASKED = 1"

text \<open>The bit fields of \<open>RedirectionTableEntry\<close>.\<close>

definition set_EntryVector :: "u64 \<Rightarrow> u64 \<Rightarrow> u64" where "set_EntryVector = set_field 0 8"
definition set_EntryDelivery :: "u64 \<Rightarrow> u64 \<Rightarrow> u64" where "set_EntryDelivery = set_field 8 3"
definition set_EntryDestination :: "u64 \<Rightarrow> u64 \<Rightarrow> u64" where "set_EntryDestination = set_field 11 1"
definition set_EntryPolarity :: "u64 \<Rightarrow> u64 \<Rightarrow> u64" where "set_EntryPolarity = set_field 13 1"
definition set_EntryTrigger :: "u64 \<Rightarrow> u64 \<Rightarrow> u64" where "set_EntryTrigger = set_field 15 1"
definition set_EntryMask :: "u64 \<Rightarrow> u64 \<Rightarrow> u64" where "set_EntryMask = set_field 16 1"
definition set_EntryDestinationId :: "u64 \<Rightarrow> u64 \<Rightarrow> u64" where "set_EntryDestinationId = set_field 56 8"
definition Entry_Mask :: "u64 \<Rightarrow> u64" where "Entry_Mask = get_field 16 1"

lemmas entry_fields = set_EntryVector_def set_EntryDelivery_def set_EntryDestination_def set_EntryPolarity_def
  set_EntryTrigger_def set_EntryMask_def set_EntryDestinationId_def Entry_Mask_def

section \<open>IoApic.cpp\<close>

record ioapic = cpu +
  s_RegisterSelect :: u64
  s_RegisterWindow :: u64

definition PIN_COUNT :: u8 where "PIN_COUNT = 24"
definition VECTOR_PANIC :: u8 where "VECTOR_PANIC = 0xf2"

definition IoApic_ReadRegister :: "hardware \<Rightarrow> u32 \<Rightarrow> ('a ioapic_scheme, u32) state" where
  "IoApic_ReadRegister hw i = do {
     s \<leftarrow> State_Monad.get;
     Mmio_Write (s_RegisterSelect s) i;
     Mmio_Read hw (s_RegisterWindow s) }"

definition IoApic_WriteRegister :: "u32 \<Rightarrow> u32 \<Rightarrow> ('a ioapic_scheme, unit) state" where
  "IoApic_WriteRegister i v = do {
     s \<leftarrow> State_Monad.get;
     Mmio_Write (s_RegisterSelect s) i;
     Mmio_Write (s_RegisterWindow s) v }"

definition IoApic_ReadEntry :: "hardware \<Rightarrow> u8 \<Rightarrow> ('a ioapic_scheme, u64) state" where
  "IoApic_ReadEntry hw InPin = do {
     let low = REDIRECTION_TABLE + 2 * ucast InPin;
     l \<leftarrow> IoApic_ReadRegister hw low;
     h \<leftarrow> IoApic_ReadRegister hw (low + 1);
     State_Monad.return (join32 l h) }"

definition IoApic_WriteEntry :: "u8 \<Rightarrow> u64 \<Rightarrow> ('a ioapic_scheme, unit) state" where
  "IoApic_WriteEntry InPin InEntry = do {
     let low = REDIRECTION_TABLE + 2 * ucast InPin;
     IoApic_WriteRegister (low + 1) (high32 InEntry);
     IoApic_WriteRegister low (low32 InEntry) }"

definition initial_entry :: "u64 \<Rightarrow> u64" where
  "initial_entry allCores =
     set_EntryDestinationId allCores (set_EntryMask (InterruptMask_value MASKED)
       (set_EntryTrigger (IoTriggerMode_value TRIGGER_EDGE)
         (set_EntryDestination (IoDestinationMode_value IO_LOGICAL)
           (set_EntryDelivery (IoDeliveryMode_value IO_LOWEST_PRIORITY)
             (set_EntryVector (ucast VECTOR_PANIC) 0)))))"

definition IoApic_Initialize :: "hardware \<Rightarrow> ('a ioapic_scheme, unit) state" where
  "IoApic_Initialize hw = do {
     s \<leftarrow> State_Monad.get;
     let base = GetIoApicAddress s;
     State_Monad.set (s\<lparr>s_RegisterSelect := base, s_RegisterWindow := base + 0x10\<rparr>);
     identification \<leftarrow> IoApic_ReadRegister hw IOAPIC_IDENTIFICATION;
     IoApic_WriteRegister IOAPIC_IDENTIFICATION (set_IdentificationId (ucast (GetIoApicId s)) identification);
     let entry = initial_entry (push_bit (unat (Cpu_Count s)) 1 - 1);
     State_Monad.update (for_loop 0 PIN_COUNT (\<lambda>pin s. snd (run_state (IoApic_WriteEntry pin entry) s))) }"

definition IoApic_Configure :: "hardware \<Rightarrow> u8 \<Rightarrow> u8 \<Rightarrow> IoTriggerMode \<Rightarrow> IoPolarity \<Rightarrow> ('a ioapic_scheme, unit) state" where
  "IoApic_Configure hw InPin InVector InTriggerMode InPolarity =
     (if InPin \<ge> PIN_COUNT then State_Monad.return ()
      else do {
        entry \<leftarrow> IoApic_ReadEntry hw InPin;
        let entry = set_EntryVector (ucast InVector) entry;
        let entry = set_EntryTrigger (IoTriggerMode_value InTriggerMode) entry;
        let entry = set_EntryPolarity (IoPolarity_value InPolarity) entry;
        IoApic_WriteEntry InPin entry })"

definition IoApic_Allow :: "hardware \<Rightarrow> u8 \<Rightarrow> ('a ioapic_scheme, unit) state" where
  "IoApic_Allow hw InPin =
     (if InPin \<ge> PIN_COUNT then State_Monad.return ()
      else do {
        entry \<leftarrow> IoApic_ReadEntry hw InPin;
        IoApic_WriteEntry InPin (set_EntryMask (InterruptMask_value UNMASKED) entry) })"

definition IoApic_Forbid :: "hardware \<Rightarrow> u8 \<Rightarrow> ('a ioapic_scheme, unit) state" where
  "IoApic_Forbid hw InPin =
     (if InPin \<ge> PIN_COUNT then State_Monad.return ()
      else do {
        entry \<leftarrow> IoApic_ReadEntry hw InPin;
        IoApic_WriteEntry InPin (set_EntryMask (InterruptMask_value MASKED) entry) })"

definition IoApic_IsAllowed :: "hardware \<Rightarrow> u8 \<Rightarrow> ('a ioapic_scheme, bool) state" where
  "IoApic_IsAllowed hw InPin =
     (if InPin < PIN_COUNT
      then do {
        entry \<leftarrow> IoApic_ReadEntry hw InPin;
        State_Monad.return (Entry_Mask entry = InterruptMask_value UNMASKED) }
      else State_Monad.return False)"

section \<open>The device\<close>

text \<open>
  The documented behaviour the driver relies on: the window register gives access to the register
  last written to the select register, and the read-write bits of a redirection register read back
  what was last written to them. The delivery status (bit 12) and the remote IRR (bit 14), which the
  device changes by itself, the reserved bits and every other register may read as anything. A
  hardware is such a device at the addresses \<open>sel\<close> and \<open>win\<close> for the initial contents \<open>init\<close>.
\<close>

fun ioapic_selected :: "u64 \<Rightarrow> bus_event list \<Rightarrow> u32" where
  "ioapic_selected sel [] = 0"
| "ioapic_selected sel (Wr (Mmio32 a) v # t) = (if a = sel then low32 v else ioapic_selected sel t)"
| "ioapic_selected sel (_ # t) = ioapic_selected sel t"

fun ioapic_register :: "u64 \<Rightarrow> u64 \<Rightarrow> (u32 \<Rightarrow> u32) \<Rightarrow> bus_event list \<Rightarrow> u32 \<Rightarrow> u32" where
  "ioapic_register sel win init [] r = init r"
| "ioapic_register sel win init (Wr (Mmio32 a) v # t) r =
     (if a = win \<and> a \<noteq> sel \<and> ioapic_selected sel t = r then low32 v else ioapic_register sel win init t r)"
| "ioapic_register sel win init (_ # t) r = ioapic_register sel win init t r"

text \<open>The read-write bits of a redirection entry and of the register at an index.\<close>

definition entry_writable :: u64 where "entry_writable = 0xFF0000000001AFFF"

definition register_writable :: "u32 \<Rightarrow> u32" where
  "register_writable r =
     (if r < 0x10 \<or> 0x3F < r then 0 else if even (unat r) then low32 entry_writable else high32 entry_writable)"

definition ioapic_device :: "u64 \<Rightarrow> u64 \<Rightarrow> (u32 \<Rightarrow> u32) \<Rightarrow> hardware \<Rightarrow> bool" where
  "ioapic_device sel win init hw \<longleftrightarrow>
     (\<forall>t. let r = ioapic_selected sel t in
        low32 (hw t (Mmio32 win)) AND register_writable r = ioapic_register sel win init t r AND register_writable r)"

text \<open>The read-write bits of a pin's redirection entry as the device holds them.\<close>

definition ioapic_entry :: "u64 \<Rightarrow> u64 \<Rightarrow> (u32 \<Rightarrow> u32) \<Rightarrow> bus_event list \<Rightarrow> u8 \<Rightarrow> u64" where
  "ioapic_entry sel win init t pin =
     (let low = REDIRECTION_TABLE + 2 * ucast pin in
      join32 (ioapic_register sel win init t low) (ioapic_register sel win init t (low + 1)) AND entry_writable)"

lemma join32_and: "join32 l h AND e = join32 (l AND low32 e) (h AND high32 e)"
  unfolding join32_def low32_def high32_def
  by (rule bit_word_eqI)
    (auto simp: bit_or_iff bit_and_iff bit_push_bit_iff bit_unsigned_iff bit_drop_bit_eq dest: bit_imp_le_length)

lemma bit_entry_writable: "bit entry_writable n \<longleftrightarrow> n < 12 \<or> n = 13 \<or> n = 15 \<or> n = 16 \<or> 56 \<le> n \<and> n < 64"
proof (cases "n < 64")
  case True
  have "\<forall>n \<in> set [0..<64]. bit entry_writable n \<longleftrightarrow> n < 12 \<or> n = 13 \<or> n = 15 \<or> n = 16 \<or> 56 \<le> n \<and> n < 64"
    by code_simp
  then show ?thesis using True by simp
next
  case False
  then show ?thesis using bit_imp_le_length [of entry_writable n] by auto
qed

lemma writable_set_field:
  assumes "\<And>n. k \<le> n \<Longrightarrow> n < k + w \<Longrightarrow> bit entry_writable n"
  shows "set_field k w v e AND entry_writable = set_field k w v (e AND entry_writable)"
  using assms by (intro bit_word_eqI) (auto simp: bit_and_iff bit_set_field)

text \<open>The fields the driver changes are read-write ones.\<close>

lemma writable_fields:
  "set_EntryVector v e AND entry_writable = set_EntryVector v (e AND entry_writable)"
  "set_EntryPolarity v e AND entry_writable = set_EntryPolarity v (e AND entry_writable)"
  "set_EntryTrigger v e AND entry_writable = set_EntryTrigger v (e AND entry_writable)"
  "set_EntryMask v e AND entry_writable = set_EntryMask v (e AND entry_writable)"
  unfolding entry_fields by (auto intro!: writable_set_field simp: bit_entry_writable)

lemma writable_Mask: "Entry_Mask (e AND entry_writable) = Entry_Mask e"
  unfolding entry_fields by (rule bit_word_eqI) (auto simp: bit_get_field bit_and_iff bit_entry_writable)

lemma low32_ucast [simp]: "low32 (ucast (v :: u32)) = v"
  by (rule bit_word_eqI) (simp add: low32_def bit_unsigned_iff)

lemma pin_register_nat:
  assumes "p < PIN_COUNT"
  shows "unat (REDIRECTION_TABLE + 2 * ucast p) = 16 + 2 * unat p"
    "unat (REDIRECTION_TABLE + 2 * ucast p + 1) = 17 + 2 * unat p"
proof -
  have p: "unat p < 24" using assms by (simp add: PIN_COUNT_def word_less_nat_alt)
  have u: "unat (ucast p :: u32) = unat p"
    using unat_bound [of p] by (simp add: unsigned_ucast_eq take_bit_nat_eq_self)
  have m: "unat (2 * ucast p :: u32) = 2 * unat p" using p by (subst unat_mult_no_wrap) (simp_all add: u)
  show a: "unat (REDIRECTION_TABLE + 2 * ucast p) = 16 + 2 * unat p"
    using p by (subst unat_add_no_wrap) (simp_all add: m REDIRECTION_TABLE_def)
  show "unat (REDIRECTION_TABLE + 2 * ucast p + 1) = 17 + 2 * unat p"
    using p by (subst unat_add_no_wrap) (simp_all add: a)
qed

lemma pin_registers:
  assumes "p < PIN_COUNT" "q < PIN_COUNT"
  shows "REDIRECTION_TABLE + 2 * ucast p \<noteq> (REDIRECTION_TABLE + 2 * ucast q + 1 :: u32)"
    and "REDIRECTION_TABLE + 2 * ucast p + 1 \<noteq> (REDIRECTION_TABLE + 2 * ucast q :: u32)"
    and "(REDIRECTION_TABLE + 2 * ucast p = (REDIRECTION_TABLE + 2 * ucast q :: u32)) \<longleftrightarrow> p = q"
    and "(REDIRECTION_TABLE + 2 * ucast p + 1 = (REDIRECTION_TABLE + 2 * ucast q + 1 :: u32)) \<longleftrightarrow> p = q"
  using pin_register_nat [OF assms(1)] pin_register_nat [OF assms(2)]
  by (simp_all only: word_unat_eq_iff) presburger+

definition ioapic_at :: "'a ioapic_scheme \<Rightarrow> (u32 \<Rightarrow> u32) \<Rightarrow> hardware \<Rightarrow> bool" where
  "ioapic_at s init hw \<longleftrightarrow> ioapic_device (s_RegisterSelect s) (s_RegisterWindow s) init hw
     \<and> s_RegisterSelect s \<noteq> s_RegisterWindow s"

abbreviation held_entry :: "'a ioapic_scheme \<Rightarrow> (u32 \<Rightarrow> u32) \<Rightarrow> u8 \<Rightarrow> u64" where
  "held_entry s init pin \<equiv> ioapic_entry (s_RegisterSelect s) (s_RegisterWindow s) init (trace s) pin"

lemma pin_writable:
  assumes "p < PIN_COUNT"
  shows "register_writable (REDIRECTION_TABLE + 2 * ucast p) = low32 entry_writable"
    "register_writable (REDIRECTION_TABLE + 2 * ucast p + 1) = high32 entry_writable"
proof -
  have p: "unat p < 24" using assms by (simp add: PIN_COUNT_def word_less_nat_alt)
  show "register_writable (REDIRECTION_TABLE + 2 * ucast p) = low32 entry_writable"
    "register_writable (REDIRECTION_TABLE + 2 * ucast p + 1) = high32 entry_writable"
    using p unfolding register_writable_def word_less_nat_alt pin_register_nat [OF assms] by simp_all
qed

text \<open>
  Reading an entry gives the read-write bits the device holds, whatever the others are, and only moves
  the select register.
\<close>

lemma ReadEntry_run:
  assumes "ioapic_at s init hw" "pin < PIN_COUNT"
  obtains e s' where "run_state (IoApic_ReadEntry hw pin) s = (e, s')" "e AND entry_writable = held_entry s init pin"
    "s_RegisterSelect s' = s_RegisterSelect s" "s_RegisterWindow s' = s_RegisterWindow s"
    "\<And>r. ioapic_register (s_RegisterSelect s) (s_RegisterWindow s) init (trace s') r
       = ioapic_register (s_RegisterSelect s) (s_RegisterWindow s) init (trace s) r"
proof -
  have dev: "low32 (hw t (Mmio32 (s_RegisterWindow s))) AND register_writable r =
      ioapic_register (s_RegisterSelect s) (s_RegisterWindow s) init t r AND register_writable r"
    if "ioapic_selected (s_RegisterSelect s) t = r" for t r
    using assms that by (auto simp: ioapic_at_def ioapic_device_def Let_def)
  have ne: "s_RegisterSelect s \<noteq> s_RegisterWindow s" using assms by (simp add: ioapic_at_def)
  note w = pin_writable [OF assms(2), symmetric]
  have "fst (run_state (IoApic_ReadEntry hw pin) s) AND entry_writable = held_entry s init pin"
    using ne by (simp add: IoApic_ReadEntry_def IoApic_ReadRegister_def run_simps Let_def ioapic_entry_def
        low32_def [symmetric] join32_and w dev)
  then show thesis
    using ne by (intro that [of "fst (run_state (IoApic_ReadEntry hw pin) s)" "snd (run_state (IoApic_ReadEntry hw pin) s)"])
      (simp_all add: IoApic_ReadEntry_def IoApic_ReadRegister_def run_simps Let_def prod_eq_iff)
qed

lemma WriteEntry_run:
  assumes "s_RegisterSelect s \<noteq> s_RegisterWindow s" "p < PIN_COUNT" "q < PIN_COUNT"
  shows "held_entry (snd (run_state (IoApic_WriteEntry p e) s)) init q =
    (if q = p then e AND entry_writable else held_entry s init q)"
  using assms(1) pin_registers [OF assms(2,3)] pin_registers [OF assms(3,2)]
  by (simp add: IoApic_WriteEntry_def IoApic_WriteRegister_def run_simps Let_def ioapic_entry_def)

lemma held_entry_cong:
  assumes "s_RegisterSelect s' = s_RegisterSelect s" "s_RegisterWindow s' = s_RegisterWindow s"
    "\<And>r. ioapic_register (s_RegisterSelect s) (s_RegisterWindow s) init (trace s') r
       = ioapic_register (s_RegisterSelect s) (s_RegisterWindow s) init (trace s) r"
  shows "held_entry s' init q = held_entry s init q"
  using assms by (simp add: ioapic_entry_def Let_def)

text \<open>Reading an entry, changing its read-write bits and writing it back changes those of that entry only.\<close>

lemma modify_entry:
  assumes "ioapic_at s init hw" "p < PIN_COUNT" "q < PIN_COUNT"
    and f: "\<And>e. f e AND entry_writable = f (e AND entry_writable)"
  shows "held_entry (snd (run_state (do { e \<leftarrow> IoApic_ReadEntry hw p; IoApic_WriteEntry p (f e) }) s)) init q =
    (if q = p then f (held_entry s init p) else held_entry s init q)"
proof -
  obtain e s' where r: "run_state (IoApic_ReadEntry hw p) s = (e, s')" "e AND entry_writable = held_entry s init p"
    "s_RegisterSelect s' = s_RegisterSelect s" "s_RegisterWindow s' = s_RegisterWindow s"
    "\<And>r. ioapic_register (s_RegisterSelect s) (s_RegisterWindow s) init (trace s') r
       = ioapic_register (s_RegisterSelect s) (s_RegisterWindow s) init (trace s) r"
    using ReadEntry_run [OF assms(1,2)] by metis
  have "s_RegisterSelect s' \<noteq> s_RegisterWindow s'" using assms(1) r by (simp add: ioapic_at_def)
  from WriteEntry_run [OF this assms(2,3)] r(1) held_entry_cong [OF r(3-5)] f [of e] r(2) show ?thesis by simp
qed

text \<open>
  C27: routing a device interrupt. On a device whose read-write bits of the redirection registers read
  back what was written through the select and window registers, while the delivery status, the remote
  IRR and the reserved bits may read as anything at any time, configuring a pin sets the vector, trigger
  mode and polarity of that pin's redirection entry and leaves its other read-write bits: a masked pin
  stays masked and, other than the comment in \<open>IoApic.h\<close> has it, an allowed one stays allowed. Allowing
  and forbidding change the mask bit only, \<open>IsAllowed\<close> reports it, and the read-write bits of the
  other pins are never touched. A pin number outside the table has no effect on the entries.
\<close>
theorem IoApic_routing:
  assumes "ioapic_at s init hw" "q < PIN_COUNT"
  shows "held_entry (snd (run_state (IoApic_Configure hw p v trig pol) s)) init q =
      (if q = p then set_field 13 1 (IoPolarity_value pol) (set_field 15 1 (IoTriggerMode_value trig)
         (set_field 0 8 (ucast v) (held_entry s init q))) else held_entry s init q)
    \<and> held_entry (snd (run_state (IoApic_Allow hw p) s)) init q =
      (if q = p then set_field 16 1 0 (held_entry s init q) else held_entry s init q)
    \<and> held_entry (snd (run_state (IoApic_Forbid hw p) s)) init q =
      (if q = p then set_field 16 1 1 (held_entry s init q) else held_entry s init q)
    \<and> (fst (run_state (IoApic_IsAllowed hw q) s) \<longleftrightarrow> get_field 16 1 (held_entry s init q) = 0)"
proof -
  obtain e s' where "run_state (IoApic_ReadEntry hw q) s = (e, s')" "e AND entry_writable = held_entry s init q"
    using ReadEntry_run [OF assms] by metis
  then have "fst (run_state (IoApic_IsAllowed hw q) s) \<longleftrightarrow> get_field 16 1 (held_entry s init q) = 0"
    using assms(2) writable_Mask [of e] by (simp add: IoApic_IsAllowed_def Entry_Mask_def)
  moreover note modify = modify_entry [OF assms(1) _ assms(2)]
  have "held_entry (snd (run_state (IoApic_Configure hw p v trig pol) s)) init q =
      (if q = p then set_field 13 1 (IoPolarity_value pol) (set_field 15 1 (IoTriggerMode_value trig)
         (set_field 0 8 (ucast v) (held_entry s init q))) else held_entry s init q)"
    using assms(2) modify [of p "\<lambda>e. set_EntryPolarity (IoPolarity_value pol) (set_EntryTrigger (IoTriggerMode_value trig)
       (set_EntryVector (ucast v) e))", simplified writable_fields]
    by (cases "p < PIN_COUNT") (auto simp: IoApic_Configure_def Let_def entry_fields)
  moreover have "held_entry (snd (run_state (IoApic_Allow hw p) s)) init q =
      (if q = p then set_field 16 1 0 (held_entry s init q) else held_entry s init q)"
    using assms(2) modify [of p "set_EntryMask (InterruptMask_value UNMASKED)", simplified writable_fields]
    by (cases "p < PIN_COUNT") (auto simp: IoApic_Allow_def entry_fields)
  moreover have "held_entry (snd (run_state (IoApic_Forbid hw p) s)) init q =
      (if q = p then set_field 16 1 1 (held_entry s init q) else held_entry s init q)"
    using assms(2) modify [of p "set_EntryMask (InterruptMask_value MASKED)", simplified writable_fields]
    by (cases "p < PIN_COUNT") (auto simp: IoApic_Forbid_def entry_fields)
  ultimately show ?thesis by blast
qed

text \<open>
  A device at \<open>0xfec00000\<close> that shows every entry as pending and unacknowledged, with the entry of pin 1
  masked on the panic vector.
\<close>

definition ioapic_hw :: hardware where
  "ioapic_hw t c = (if c = Mmio32 0xfec00010
     then ucast (ioapic_register 0xfec00000 0xfec00010 (\<lambda>r. if r = 0x12 then 0x100f2 else 0) t (ioapic_selected 0xfec00000 t) OR 0x5000)
     else 0)"

definition ioapic_start :: ioapic where
  "ioapic_start = gdt.extend gdt_start \<lparr>s_CoreIdByLapicId = replicate 256 0, s_CoreCount = 1, s_OnlineCount = 1,
     s_CoreOnline = replicate 8 False, s_Area = replicate 8 \<lparr>Area_KernelStack = 0, Area_UserStack = 0\<rparr>,
     s_RegisterSelect = 0xfec00000, s_RegisterWindow = 0xfec00010\<rparr>"

lemma volatile_bits: "(x OR 0x5000) AND register_writable r = x AND register_writable r"
proof -
  have "0x5000 AND register_writable r = 0" unfolding register_writable_def by (simp, code_simp)
  then show ?thesis by (simp add: bit.conj_disj_distrib2)
qed

theorem IoApic_routing_witness:
  "held_entry (snd (run_state (IoApic_Configure ioapic_hw 1 0x21 TRIGGER_LEVEL POLARITY_HIGH) ioapic_start))
     (\<lambda>r. if r = 0x12 then 0x100f2 else 0) 1 = 0x18021"
proof -
  let ?init = "\<lambda>r. if r = 0x12 then 0x100f2 else (0 :: u32)"
  have "ioapic_at ioapic_start ?init ioapic_hw"
    by (simp add: ioapic_at_def ioapic_device_def ioapic_hw_def ioapic_start_def gdt.defs gdt_start_def Let_def
        volatile_bits)
  moreover have "(1 :: u8) < PIN_COUNT" by (simp add: PIN_COUNT_def)
  ultimately have "held_entry (snd (run_state (IoApic_Configure ioapic_hw 1 0x21 TRIGGER_LEVEL POLARITY_HIGH) ioapic_start)) ?init 1 =
     set_field 13 1 0 (set_field 15 1 1 (set_field 0 8 0x21 (held_entry ioapic_start ?init 1)))"
    using IoApic_routing [of ioapic_start ?init ioapic_hw 1 1 "0x21" TRIGGER_LEVEL POLARITY_HIGH] by simp
  moreover have "held_entry ioapic_start ?init 1 = 0x100f2"
    by (simp add: ioapic_entry_def ioapic_start_def gdt.defs gdt_start_def REDIRECTION_TABLE_def join32_def
        entry_writable_def)
  moreover have "set_field 13 1 0 (set_field 15 1 1 (set_field 0 8 0x21 (0x100f2 :: u64))) = 0x18021" by code_simp
  ultimately show ?thesis by simp
qed

end
