(* ===== verification/HK_Key.thy ===== *)
theory HK_Key
  imports HK_Bus
begin

text \<open>
  \<open>Kernel/Device/Key.h\<close> and \<open>Key.cpp\<close>: a decoded keystroke and its character. The decoder turns any
  7 bit value into a \<open>ScanCode\<close>, so a key carries the underlying byte, and \<open>ScanCode\<close> gives the byte
  of a named code.
\<close>

section \<open>Key.h\<close>

text \<open>
  The enumeration in its order; the value of an enumerator is its position. The five names of the
  cursor block share the codes of the keypad.
\<close>

definition SCAN_CODES :: "string list" where
  "SCAN_CODES =
    [''INVALID'', ''ESCAPE'', ''DIGIT_1'', ''DIGIT_2'', ''DIGIT_3'', ''DIGIT_4'', ''DIGIT_5'', ''DIGIT_6'',
     ''DIGIT_7'', ''DIGIT_8'', ''DIGIT_9'', ''DIGIT_0'', ''MINUS'', ''EQUAL'', ''BACKSPACE'', ''TAB'',
     ''Q'', ''W'', ''E'', ''R'', ''T'', ''Y'', ''U'', ''I'', ''O'', ''P'', ''OPEN_BRACKET'',
     ''CLOSE_BRACKET'', ''ENTER'', ''LEFT_CTRL'', ''A'', ''S'', ''D'', ''F'', ''G'', ''H'', ''J'', ''K'',
     ''L'', ''SEMICOLON'', ''APOSTROPHE'', ''GRAVE'', ''LEFT_SHIFT'', ''BACKSLASH'', ''Z'', ''X'', ''C'',
     ''V'', ''B'', ''N'', ''M'', ''COMMA'', ''PERIOD'', ''SLASH'', ''RIGHT_SHIFT'', ''KP_STAR'',
     ''LEFT_ALT'', ''SPACE'', ''CAPS_LOCK'', ''F1'', ''F2'', ''F3'', ''F4'', ''F5'', ''F6'', ''F7'', ''F8'',
     ''F9'', ''F10'', ''NUM_LOCK'', ''SCROLL_LOCK'', ''KP_7'', ''KP_8'', ''KP_9'', ''KP_MINUS'', ''KP_4'',
     ''KP_5'', ''KP_6'', ''KP_PLUS'', ''KP_1'', ''KP_2'', ''KP_3'', ''KP_0'', ''KP_PERIOD'', ''SYSREQ'',
     ''EUROPE_2'', ''F11'', ''F12'', ''KP_EQUAL'']"

definition SCAN_CODE_ALIASES :: "(string \<times> string) list" where
  "SCAN_CODE_ALIASES = [(''DELETE'', ''KP_PERIOD''), (''UP'', ''KP_8''), (''DOWN'', ''KP_2''), (''LEFT'', ''KP_4''),
     (''RIGHT'', ''KP_6'')]"

definition ScanCode :: "string \<Rightarrow> u8" where
  "ScanCode name =
     (let name = (case map_of SCAN_CODE_ALIASES name of Some other \<Rightarrow> other | None \<Rightarrow> name)
      in of_nat (length (takeWhile (\<lambda>n. n \<noteq> name) SCAN_CODES)))"

definition SC_COUNT :: u8 where "SC_COUNT = of_nat (length SCAN_CODES)"

record Key =
  Code :: u8
  Shift :: bool
  AltLeft :: bool
  AltRight :: bool
  CtrlLeft :: bool
  CtrlRight :: bool
  CapsLock :: bool
  NumLock :: bool
  ScrollLock :: bool

definition Key_default :: Key where
  "Key_default = \<lparr>Code = ScanCode ''INVALID'', Shift = False, AltLeft = False, AltRight = False,
     CtrlLeft = False, CtrlRight = False, CapsLock = False, NumLock = False, ScrollLock = False\<rparr>"

definition Key_IsValid :: "Key \<Rightarrow> bool" where
  "Key_IsValid k = (Code k \<noteq> ScanCode ''INVALID'' \<and> Code k < SC_COUNT)"

definition Key_Invalidate :: "Key \<Rightarrow> Key" where
  "Key_Invalidate k = k\<lparr>Code := ScanCode ''INVALID''\<rparr>"

definition Key_Alt :: "Key \<Rightarrow> bool" where "Key_Alt k = (AltLeft k \<or> AltRight k)"
definition Key_Ctrl :: "Key \<Rightarrow> bool" where "Key_Ctrl k = (CtrlLeft k \<or> CtrlRight k)"

section \<open>Key.cpp\<close>

text \<open>The US layout: the plain and the shifted character of every scan code.\<close>

definition ASCII_TABLE :: "(u8 \<times> u8) list" where
  "ASCII_TABLE =
    [(0, 0), (27, 27), (49, 33), (50, 64), (51, 35), (52, 36), (53, 37), (54, 94), (55, 38), (56, 42),
     (57, 40), (48, 41), (45, 95), (61, 43), (8, 8), (9, 9), (113, 81), (119, 87), (101, 69), (114, 82),
     (116, 84), (121, 89), (117, 85), (105, 73), (111, 79), (112, 80), (91, 123), (93, 125), (10, 10),
     (0, 0), (97, 65), (115, 83), (100, 68), (102, 70), (103, 71), (104, 72), (106, 74), (107, 75),
     (108, 76), (59, 58), (39, 34), (96, 126), (0, 0), (92, 124), (122, 90), (120, 88), (99, 67), (118, 86),
     (98, 66), (110, 78), (109, 77), (44, 60), (46, 62), (47, 63), (0, 0), (42, 42), (0, 0), (32, 32),
     (0, 0), (0, 0), (0, 0), (0, 0), (0, 0), (0, 0), (0, 0), (0, 0), (0, 0), (0, 0), (0, 0), (0, 0), (0, 0),
     (0, 55), (0, 56), (0, 57), (45, 45), (0, 52), (0, 53), (0, 54), (43, 43), (0, 49), (0, 50), (0, 51),
     (0, 48), (127, 46), (0, 0), (92, 124), (0, 0), (0, 0), (61, 61)]"

definition IsLetter :: "u8 \<Rightarrow> bool" where
  "IsLetter InCode \<longleftrightarrow>
     (InCode \<ge> ScanCode ''Q'' \<and> InCode \<le> ScanCode ''P'') \<or>
     (InCode \<ge> ScanCode ''A'' \<and> InCode \<le> ScanCode ''L'') \<or>
     (InCode \<ge> ScanCode ''Z'' \<and> InCode \<le> ScanCode ''M'')"

definition IsKeypadDigit :: "u8 \<Rightarrow> bool" where
  "IsKeypadDigit InCode \<longleftrightarrow> InCode \<ge> ScanCode ''KP_7'' \<and> InCode \<le> ScanCode ''KP_PERIOD''"

definition Key_Ascii :: "Key \<Rightarrow> u8" where
  "Key_Ascii k =
     (if \<not> Key_IsValid k then 0
      else
        (let useShifted = Shift k \<or> (CapsLock k \<and> IsLetter (Code k)) \<or> (NumLock k \<and> IsKeypadDigit (Code k));
             entry = ASCII_TABLE ! unat (Code k)
         in if useShifted then snd entry else fst entry))"

section \<open>Facts\<close>

lemma ScanCode_values [simp]:
  "ScanCode ''A'' = 0x1e"
  "ScanCode ''CAPS_LOCK'' = 0x3a"
  "ScanCode ''DELETE'' = 0x53"
  "ScanCode ''ESCAPE'' = 0x1"
  "ScanCode ''EUROPE_2'' = 0x55"
  "ScanCode ''F11'' = 0x56"
  "ScanCode ''F12'' = 0x57"
  "ScanCode ''INVALID'' = 0x0"
  "ScanCode ''KP_7'' = 0x47"
  "ScanCode ''KP_EQUAL'' = 0x58"
  "ScanCode ''KP_PERIOD'' = 0x53"
  "ScanCode ''L'' = 0x26"
  "ScanCode ''LEFT_ALT'' = 0x38"
  "ScanCode ''LEFT_CTRL'' = 0x1d"
  "ScanCode ''LEFT_SHIFT'' = 0x2a"
  "ScanCode ''M'' = 0x32"
  "ScanCode ''NUM_LOCK'' = 0x45"
  "ScanCode ''P'' = 0x19"
  "ScanCode ''Q'' = 0x10"
  "ScanCode ''RIGHT_SHIFT'' = 0x36"
  "ScanCode ''SCROLL_LOCK'' = 0x46"
  "ScanCode ''SLASH'' = 0x35"
  "ScanCode ''Z'' = 0x2c"
  "SC_COUNT = 0x59"
  by code_simp+

lemma ASCII_TABLE_length: "length ASCII_TABLE = unat SC_COUNT"
  by (simp add: ASCII_TABLE_def)

text \<open>The table is indexed inside its bounds for every key.\<close>

lemma Ascii_index: "Key_IsValid k \<Longrightarrow> unat (Code k) < length ASCII_TABLE"
  by (simp add: Key_IsValid_def ASCII_TABLE_length word_less_nat_alt)

end
