(* ===== verification/HK_Ps2.thy ===== *)
theory HK_Ps2
  imports HK_IoApic HK_Key HK_RingBuffer
begin

text \<open>
  The keyboard: \<open>Kernel/Device/Ps2Controller.cpp\<close> and \<open>KeyDecoder.cpp\<close>. The controller is hardware
  behind two ports; every wait on it is bounded. The bytes the interrupt prologue reads go through
  the raw byte ring to the epilogue, which decodes them. Operations under the raw lock are atomic.
\<close>

section \<open>Ps2Controller: registers and commands\<close>

datatype Led = LED_SCROLL_LOCK | LED_NUM_LOCK | LED_CAPS_LOCK

primrec Led_value :: "Led \<Rightarrow> u8" where
  "Led_value LED_SCROLL_LOCK = 1"
| "Led_value LED_NUM_LOCK = 2"
| "Led_value LED_CAPS_LOCK = 4"

datatype Speed = CPS_30 | CPS_20 | CPS_10 | CPS_2

primrec Speed_value :: "Speed \<Rightarrow> u8" where
  "Speed_value CPS_30 = 0x00"
| "Speed_value CPS_20 = 0x04"
| "Speed_value CPS_10 = 0x0c"
| "Speed_value CPS_2 = 0x1f"

datatype RepeatDelay = MS_250 | MS_500 | MS_750 | MS_1000

primrec RepeatDelay_value :: "RepeatDelay \<Rightarrow> u8" where
  "RepeatDelay_value MS_250 = 0"
| "RepeatDelay_value MS_500 = 1"
| "RepeatDelay_value MS_750 = 2"
| "RepeatDelay_value MS_1000 = 3"

definition s_ControlPort :: IoPort where "s_ControlPort = 0x64"
definition s_DataPort :: IoPort where "s_DataPort = 0x60"

datatype Ps2Status = HAS_OUTPUT | INPUT_PENDING | SYSTEM_FLAG | IS_COMMAND | IS_MOUSE | STATUS_TIMEOUT_ERROR
  | STATUS_PARITY_ERROR

primrec Ps2Status_value :: "Ps2Status \<Rightarrow> u8" where
  "Ps2Status_value HAS_OUTPUT = 1"
| "Ps2Status_value INPUT_PENDING = 2"
| "Ps2Status_value SYSTEM_FLAG = 4"
| "Ps2Status_value IS_COMMAND = 8"
| "Ps2Status_value IS_MOUSE = 32"
| "Ps2Status_value STATUS_TIMEOUT_ERROR = 64"
| "Ps2Status_value STATUS_PARITY_ERROR = 128"

datatype ControllerCommand = READ_CONFIGURATION | WRITE_CONFIGURATION | DISABLE_MOUSE_PORT | ENABLE_MOUSE_PORT
  | DISABLE_KEYBOARD_PORT | ENABLE_KEYBOARD_PORT

primrec ControllerCommand_value :: "ControllerCommand \<Rightarrow> u8" where
  "ControllerCommand_value READ_CONFIGURATION = 0x20"
| "ControllerCommand_value WRITE_CONFIGURATION = 0x60"
| "ControllerCommand_value DISABLE_MOUSE_PORT = 0xa7"
| "ControllerCommand_value ENABLE_MOUSE_PORT = 0xa8"
| "ControllerCommand_value DISABLE_KEYBOARD_PORT = 0xad"
| "ControllerCommand_value ENABLE_KEYBOARD_PORT = 0xae"

datatype Ps2Configuration = KEYBOARD_INTERRUPT | MOUSE_INTERRUPT | KEYBOARD_CLOCK_OFF | MOUSE_CLOCK_OFF
  | TRANSLATE_TO_SET1

primrec Ps2Configuration_value :: "Ps2Configuration \<Rightarrow> u8" where
  "Ps2Configuration_value KEYBOARD_INTERRUPT = 1"
| "Ps2Configuration_value MOUSE_INTERRUPT = 2"
| "Ps2Configuration_value KEYBOARD_CLOCK_OFF = 16"
| "Ps2Configuration_value MOUSE_CLOCK_OFF = 32"
| "Ps2Configuration_value TRANSLATE_TO_SET1 = 64"

datatype KeyboardCommand = SET_LED | ECHO | SET_REPEAT_RATE | ENABLE_SCANNING | DISABLE_SCANNING | SET_DEFAULT

primrec KeyboardCommand_value :: "KeyboardCommand \<Rightarrow> u8" where
  "KeyboardCommand_value SET_LED = 0xed"
| "KeyboardCommand_value ECHO = 0xee"
| "KeyboardCommand_value SET_REPEAT_RATE = 0xf3"
| "KeyboardCommand_value ENABLE_SCANNING = 0xf4"
| "KeyboardCommand_value DISABLE_SCANNING = 0xf5"
| "KeyboardCommand_value SET_DEFAULT = 0xf6"

datatype Reply = ACKNOWLEDGE | RESEND

primrec Reply_value :: "Reply \<Rightarrow> u8" where
  "Reply_value ACKNOWLEDGE = 0xfa"
| "Reply_value RESEND = 0xfe"

record KeyDecoder =
  m_Prefix :: u8
  m_Modifiers :: Key
  m_Pressed :: "bool list"

definition KeyDecoder_init :: KeyDecoder where
  "KeyDecoder_init = \<lparr>m_Prefix = 0, m_Modifiers = Key_default, m_Pressed = replicate (unat SC_COUNT) False\<rparr>"

definition RAW_BYTES :: u32 where "RAW_BYTES = 64"

record ps2 = ioapic +
  s_Decoder :: KeyDecoder
  s_Leds :: u8
  s_RawBytes :: "u8 ring"

definition SPIN_LIMIT :: int where "SPIN_LIMIT = 100000"

function WaitWritable_loop :: "hardware \<Rightarrow> int \<Rightarrow> ('a bus_scheme, bool) state" where
  "WaitWritable_loop hw attempt =
     (if attempt < SPIN_LIMIT then do {
        status \<leftarrow> InB hw s_ControlPort;
        if status AND Ps2Status_value INPUT_PENDING = 0 then State_Monad.return True
        else WaitWritable_loop hw (attempt + 1) }
      else State_Monad.return False)"
  by pat_completeness auto
termination
  by (relation "measure (\<lambda>(hw, attempt). nat (SPIN_LIMIT - attempt))") auto

definition WaitWritable :: "hardware \<Rightarrow> ('a bus_scheme, bool) state" where
  "WaitWritable hw = WaitWritable_loop hw 0"

function WaitReadable_loop :: "hardware \<Rightarrow> int \<Rightarrow> ('a bus_scheme, bool) state" where
  "WaitReadable_loop hw attempt =
     (if attempt < SPIN_LIMIT then do {
        status \<leftarrow> InB hw s_ControlPort;
        if status AND Ps2Status_value HAS_OUTPUT \<noteq> 0 then State_Monad.return True
        else WaitReadable_loop hw (attempt + 1) }
      else State_Monad.return False)"
  by pat_completeness auto
termination
  by (relation "measure (\<lambda>(hw, attempt). nat (SPIN_LIMIT - attempt))") auto

declare WaitWritable_loop.simps [simp del] WaitReadable_loop.simps [simp del]

definition WaitReadable :: "hardware \<Rightarrow> ('a bus_scheme, bool) state" where
  "WaitReadable hw = WaitReadable_loop hw 0"

definition SendCommand :: "hardware \<Rightarrow> u8 \<Rightarrow> ('a bus_scheme, unit) state" where
  "SendCommand hw InCommand = do {
     ok \<leftarrow> WaitWritable hw;
     if ok then OutB s_ControlPort InCommand else State_Monad.return () }"

definition SendData :: "hardware \<Rightarrow> u8 \<Rightarrow> ('a bus_scheme, unit) state" where
  "SendData hw InValue = do {
     ok \<leftarrow> WaitWritable hw;
     if ok then OutB s_DataPort InValue else State_Monad.return () }"

text \<open>\<open>ReadData\<close> returns the byte, or -1 as \<open>None\<close>.\<close>

definition ReadData :: "hardware \<Rightarrow> ('a bus_scheme, u8 option) state" where
  "ReadData hw = do {
     ok \<leftarrow> WaitReadable hw;
     if ok then do { v \<leftarrow> InB hw s_DataPort; State_Monad.return (Some v) } else State_Monad.return None }"

fun SendToKeyboard_loop :: "hardware \<Rightarrow> u8 \<Rightarrow> nat \<Rightarrow> ('a bus_scheme, bool) state" where
  "SendToKeyboard_loop hw InByte 0 = State_Monad.return False"
| "SendToKeyboard_loop hw InByte (Suc left) = do {
     SendData hw InByte;
     reply \<leftarrow> ReadData hw;
     if reply = Some (Reply_value ACKNOWLEDGE) then State_Monad.return True
     else if reply \<noteq> Some (Reply_value RESEND) then State_Monad.return False
     else SendToKeyboard_loop hw InByte left }"

definition SendToKeyboard :: "hardware \<Rightarrow> u8 \<Rightarrow> ('a bus_scheme, bool) state" where
  "SendToKeyboard hw InByte = SendToKeyboard_loop hw InByte 3"

definition SetLed :: "hardware \<Rightarrow> Led \<Rightarrow> bool \<Rightarrow> ('a ps2_scheme, unit) state" where
  "SetLed hw InLed InOn = do {
     State_Monad.update (s_Leds_update (\<lambda>leds. if InOn then leds OR Led_value InLed else leds AND NOT (Led_value InLed)));
     SendData hw (KeyboardCommand_value SET_LED);
     s \<leftarrow> State_Monad.get;
     SendData hw (s_Leds s) }"

definition SetRepeatRate :: "hardware \<Rightarrow> Speed \<Rightarrow> RepeatDelay \<Rightarrow> ('a bus_scheme, unit) state" where
  "SetRepeatRate hw InSpeed InDelay = do {
     let parameter = Speed_value InSpeed OR push_bit 5 (RepeatDelay_value InDelay);
     _ \<leftarrow> SendToKeyboard hw (KeyboardCommand_value SET_REPEAT_RATE);
     _ \<leftarrow> SendToKeyboard hw parameter;
     State_Monad.return () }"

fun DrainBuffer_loop :: "hardware \<Rightarrow> nat \<Rightarrow> ('a bus_scheme, unit) state" where
  "DrainBuffer_loop hw 0 = State_Monad.return ()"
| "DrainBuffer_loop hw (Suc left) = do {
     status \<leftarrow> InB hw s_ControlPort;
     if status AND Ps2Status_value HAS_OUTPUT = 0 then State_Monad.return ()
     else do { _ \<leftarrow> InB hw s_DataPort; DrainBuffer_loop hw left } }"

definition DrainBuffer :: "hardware \<Rightarrow> ('a bus_scheme, unit) state" where
  "DrainBuffer hw = DrainBuffer_loop hw 32"

definition VECTOR_KEYBOARD :: u8 where "VECTOR_KEYBOARD = 0x21"

definition Ps2_Initialize :: "hardware \<Rightarrow> ('a ps2_scheme, unit) state" where
  "Ps2_Initialize hw = do {
     SendCommand hw (ControllerCommand_value DISABLE_KEYBOARD_PORT);
     SendCommand hw (ControllerCommand_value DISABLE_MOUSE_PORT);
     DrainBuffer hw;
     SendCommand hw (ControllerCommand_value READ_CONFIGURATION);
     configuration \<leftarrow> ReadData hw;
     case configuration of
       None \<Rightarrow> State_Monad.return ()
     | Some c \<Rightarrow> do {
         let c = c OR (Ps2Configuration_value KEYBOARD_INTERRUPT OR Ps2Configuration_value TRANSLATE_TO_SET1
                    OR Ps2Configuration_value MOUSE_CLOCK_OFF);
         let c = c AND NOT (Ps2Configuration_value KEYBOARD_CLOCK_OFF OR Ps2Configuration_value MOUSE_INTERRUPT);
         SendCommand hw (ControllerCommand_value WRITE_CONFIGURATION);
         SendData hw c;
         SendCommand hw (ControllerCommand_value ENABLE_KEYBOARD_PORT);
         _ \<leftarrow> SendToKeyboard hw (KeyboardCommand_value ENABLE_SCANNING);
         SetRepeatRate hw CPS_30 MS_250;
         State_Monad.update (s_Leds_update (\<lambda>_. 0));
         _ \<leftarrow> SendToKeyboard hw (KeyboardCommand_value SET_LED);
         s \<leftarrow> State_Monad.get;
         _ \<leftarrow> SendToKeyboard hw (s_Leds s);
         DrainBuffer hw;
         s \<leftarrow> State_Monad.get;
         let pin = GetIoApicPin s DEVICE_KEYBOARD;
         IoApic_Configure hw pin VECTOR_KEYBOARD TRIGGER_LEVEL POLARITY_HIGH;
         IoApic_Allow hw pin } }"

section \<open>KeyDecoder\<close>

definition BREAK_BIT :: u8 where "BREAK_BIT = 0x80"
definition PREFIX_EXTENDED :: u8 where "PREFIX_EXTENDED = 0xe0"
definition PREFIX_PAUSE :: u8 where "PREFIX_PAUSE = 0xe1"

definition IsPressed :: "KeyDecoder \<Rightarrow> u8 \<Rightarrow> bool" where
  "IsPressed d InCode = (InCode < SC_COUNT \<and> m_Pressed d ! unat InCode)"

text \<open>The first switch of \<open>Decode\<close>: the modifiers after the byte, or \<open>None\<close> where it is not a modifier.\<close>

definition decode_modifier :: "bool \<Rightarrow> u8 \<Rightarrow> u8 \<Rightarrow> Key \<Rightarrow> Key option" where
  "decode_modifier pressed code pre mods =
     (if code = ScanCode ''LEFT_SHIFT'' \<or> code = ScanCode ''RIGHT_SHIFT'' then Some (mods\<lparr>Shift := pressed\<rparr>)
      else if code = ScanCode ''LEFT_ALT''
      then Some (if pre = PREFIX_EXTENDED then mods\<lparr>AltRight := pressed\<rparr> else mods\<lparr>AltLeft := pressed\<rparr>)
      else if code = ScanCode ''LEFT_CTRL''
      then Some (if pre = PREFIX_EXTENDED then mods\<lparr>CtrlRight := pressed\<rparr> else mods\<lparr>CtrlLeft := pressed\<rparr>)
      else None)"

text \<open>The second switch: the key to report, the modifiers, and the indicator to set, if any.\<close>

definition decode_press :: "u8 \<Rightarrow> u8 \<Rightarrow> Key \<Rightarrow> Key \<Rightarrow> Key \<times> Key \<times> (Led \<times> bool) option" where
  "decode_press code pre key mods =
     (if code = ScanCode ''CAPS_LOCK''
      then (key, mods\<lparr>CapsLock := \<not> CapsLock mods\<rparr>, Some (LED_CAPS_LOCK, \<not> CapsLock mods))
      else if code = ScanCode ''SCROLL_LOCK''
      then (key, mods\<lparr>ScrollLock := \<not> ScrollLock mods\<rparr>, Some (LED_SCROLL_LOCK, \<not> ScrollLock mods))
      else if code = ScanCode ''NUM_LOCK''
      then (if CtrlLeft mods then (key\<lparr>Code := code\<rparr>, mods, None)
            else (key, mods\<lparr>NumLock := \<not> NumLock mods\<rparr>, Some (LED_NUM_LOCK, \<not> NumLock mods)))
      else if code = ScanCode ''SLASH''
      then (let key = key\<lparr>Code := code\<rparr> in (if pre = PREFIX_EXTENDED then key\<lparr>Shift := False\<rparr> else key, mods, None))
      else (let key = key\<lparr>Code := code\<rparr>
            in (if NumLock mods \<and> pre = PREFIX_EXTENDED then key\<lparr>NumLock := False\<rparr> else key, mods, None)))"

definition decode_byte :: "u8 \<Rightarrow> KeyDecoder \<Rightarrow> Key \<times> KeyDecoder \<times> (Led \<times> bool) option" where
  "decode_byte InCode d =
     (let key = m_Modifiers d in
      if InCode = PREFIX_EXTENDED \<or> InCode = PREFIX_PAUSE then (key, d\<lparr>m_Prefix := InCode\<rparr>, None)
      else
        (let pressed = (InCode AND BREAK_BIT = 0); code = InCode AND NOT BREAK_BIT in
         if code < SC_COUNT
         then (let d = d\<lparr>m_Pressed := (m_Pressed d)[unat code := pressed]\<rparr> in
               case decode_modifier pressed code (m_Prefix d) (m_Modifiers d) of
                 Some mods \<Rightarrow> (key, d\<lparr>m_Modifiers := mods, m_Prefix := 0\<rparr>, None)
               | None \<Rightarrow>
                   if pressed
                   then (case decode_press code (m_Prefix d) key (m_Modifiers d) of
                           (key, mods, led) \<Rightarrow> (key, d\<lparr>m_Modifiers := mods, m_Prefix := 0\<rparr>, led))
                   else (key, d\<lparr>m_Prefix := 0\<rparr>, None))
         else (key, d\<lparr>m_Prefix := 0\<rparr>, None)))"

definition Decode :: "hardware \<Rightarrow> u8 \<Rightarrow> ('a ps2_scheme, Key) state" where
  "Decode hw InCode = do {
     s \<leftarrow> State_Monad.get;
     let (key, d, led) = decode_byte InCode (s_Decoder s);
     State_Monad.set (s\<lparr>s_Decoder := d\<rparr>);
     (case led of None \<Rightarrow> State_Monad.return () | Some (l, on) \<Rightarrow> SetLed hw l on);
     State_Monad.return key }"

section \<open>Ps2Controller: the byte stream\<close>

fun DrainToQueue_loop :: "hardware \<Rightarrow> nat \<Rightarrow> ('a ps2_scheme, unit) state" where
  "DrainToQueue_loop hw 0 = State_Monad.return ()"
| "DrainToQueue_loop hw (Suc left) = do {
     status \<leftarrow> InB hw s_ControlPort;
     if status AND Ps2Status_value HAS_OUTPUT = 0 then State_Monad.return ()
     else do {
       code \<leftarrow> InB hw s_DataPort;
       (if status AND Ps2Status_value IS_MOUSE = 0
        then State_Monad.update (s_RawBytes_update (\<lambda>rb. snd (Ring_Produce RAW_BYTES rb code)))
        else State_Monad.return ());
       DrainToQueue_loop hw left } }"

definition DrainToQueue :: "hardware \<Rightarrow> ('a ps2_scheme, unit) state" where
  "DrainToQueue hw = DrainToQueue_loop hw 16"

text \<open>The loop of \<open>Fetch\<close> that skips the acknowledgements; \<open>None\<close> where it never ends.\<close>

partial_function (option) Fetch_code :: "'a ps2_scheme \<Rightarrow> (u8 option \<times> 'a ps2_scheme) option" where
  "Fetch_code s =
     (case Ring_Consume RAW_BYTES (s_RawBytes s) of
        (None, _) \<Rightarrow> Some (None, s)
      | (Some code, rb) \<Rightarrow>
          (let s = s\<lparr>s_RawBytes := rb\<rparr> in
           if code = Reply_value ACKNOWLEDGE \<or> code = Reply_value RESEND then Fetch_code s
           else Some (Some code, s)))"

declare Fetch_code.simps [code]

definition Fetch :: "hardware \<Rightarrow> 'a ps2_scheme \<Rightarrow> (Key option \<times> 'a ps2_scheme) option" where
  "Fetch hw s =
     (case Fetch_code s of
        None \<Rightarrow> None
      | Some (None, s) \<Rightarrow> Some (None, s)
      | Some (Some code, s) \<Rightarrow> (case run_state (Decode hw code) s of (key, s) \<Rightarrow> Some (Some key, s)))"

definition InjectForTest :: "u8 \<Rightarrow> ('a ps2_scheme, unit) state" where
  "InjectForTest InCode = State_Monad.update (s_RawBytes_update (\<lambda>rb. snd (Ring_Produce RAW_BYTES rb InCode)))"

end
