(* ===== verification/HK_Ps2Props.thy ===== *)
theory HK_Ps2Props
  imports HK_Ps2
begin

text \<open>
  What the keyboard path guarantees: which bytes become keys, that no register of the controller is
  touched unless its status allows it, and that the epilogue sees the bytes of the prologue in order.
\<close>

section \<open>What the decoder reports\<close>

definition decoder_ok :: "KeyDecoder \<Rightarrow> bool" where
  "decoder_ok d \<longleftrightarrow> Code (m_Modifiers d) = 0 \<and> length (m_Pressed d) = 0x59"

text \<open>The make codes that stand for a key of their own in a decoder state.\<close>

definition reportable :: "KeyDecoder \<Rightarrow> u8 \<Rightarrow> bool" where
  "reportable d c \<longleftrightarrow> 0 < c \<and> c < SC_COUNT
     \<and> c \<notin> {ScanCode ''LEFT_SHIFT'', ScanCode ''RIGHT_SHIFT'', ScanCode ''LEFT_ALT'', ScanCode ''LEFT_CTRL'',
             ScanCode ''CAPS_LOCK'', ScanCode ''SCROLL_LOCK''}
     \<and> (c = ScanCode ''NUM_LOCK'' \<longrightarrow> CtrlLeft (m_Modifiers d))"

lemma decoder_init_ok: "decoder_ok KeyDecoder_init"
  by (simp add: decoder_ok_def KeyDecoder_init_def Key_default_def)

lemma break_bit: "b AND BREAK_BIT = 0 \<longleftrightarrow> \<not> bit b 7" for b :: u8
  using and_exp_eq_0_iff_not_bit [of b 7] by (simp add: BREAK_BIT_def)

lemma bit_7_iff: "bit b 7 \<longleftrightarrow> 0x80 \<le> b" for b :: u8
proof -
  have "bit b 7 \<longleftrightarrow> bit (unat b) 7" by (simp add: bit_unsigned_iff)
  also have "\<dots> \<longleftrightarrow> odd (unat b div 128)" by (simp add: bit_iff_odd)
  also have "\<dots> \<longleftrightarrow> 128 \<le> unat b"
  proof -
    have "unat b < 256" using unat_bound [of b] by simp
    then consider "unat b < 128" | "128 \<le> unat b" "unat b < 256" by linarith
    then show ?thesis by cases (auto simp: div_if)
  qed
  finally show ?thesis by (simp add: word_le_nat_alt)
qed

lemma bit_BREAK_BIT: "bit BREAK_BIT n \<longleftrightarrow> n = 7"
proof -
  have "BREAK_BIT = 2 ^ 7" by (simp add: BREAK_BIT_def)
  then have "bit BREAK_BIT n \<longleftrightarrow> bit (2 ^ 7 :: u8) n" by (rule arg_cong)
  then show ?thesis by (auto simp only: bit_exp_iff possible_bit_word) simp
qed

lemma clear_break: "\<not> bit b 7 \<Longrightarrow> b AND NOT BREAK_BIT = b" for b :: u8
  by (rule bit_word_eqI) (metis bit_BREAK_BIT bit_and_iff bit_imp_possible_bit bit_not_iff)

lemma decode_press_valid:
  assumes "Code key = 0" "decode_modifier True c pre mods = None" "0 < c" "c < SC_COUNT"
    "decode_press c pre key mods = (key', mods', led)"
  shows "Key_IsValid key' \<longleftrightarrow> c \<notin> {ScanCode ''CAPS_LOCK'', ScanCode ''SCROLL_LOCK''} \<and> (c = ScanCode ''NUM_LOCK'' \<longrightarrow> CtrlLeft mods)"
    and "Key_IsValid key' \<Longrightarrow> Code key' = c" and "Code mods' = Code mods"
  using assms by (auto simp: decode_press_def Key_IsValid_def Let_def split: if_splits)

lemma decode_modifier_code: "decode_modifier pressed c pre mods = Some mods' \<Longrightarrow> Code mods' = Code mods"
  by (auto simp: decode_modifier_def split: if_splits)

lemma decode_press_code: "decode_press c pre key mods = (key', mods', led) \<Longrightarrow> Code mods' = Code mods"
  by (auto simp: decode_press_def Let_def split: if_splits)

lemma decode_byte_state:
  assumes "b \<notin> {PREFIX_EXTENDED, PREFIX_PAUSE}" "decode_byte b d = (key, d', led)"
  shows "m_Pressed d' = (if b AND NOT BREAK_BIT < SC_COUNT
      then (m_Pressed d)[unat (b AND NOT BREAK_BIT) := \<not> bit b 7] else m_Pressed d)"
    and "Code (m_Modifiers d') = Code (m_Modifiers d)"
  using assms
  by (auto simp: decode_byte_def Let_def break_bit split: if_splits option.splits prod.splits
      dest: decode_modifier_code decode_press_code)

lemma decode_byte_release:
  assumes "bit b 7" "decode_byte b d = (key, d', led)"
  shows "key = m_Modifiers d"
  using assms by (auto simp: decode_byte_def Let_def break_bit split: if_splits option.splits)

lemma decode_byte_press:
  assumes "decoder_ok d" "\<not> bit b 7" "decode_byte b d = (key, d', led)"
  shows "(Key_IsValid key \<longleftrightarrow> reportable d b) \<and> (Key_IsValid key \<longrightarrow> Code key = b)"
proof (cases "0 < b \<and> b < SC_COUNT \<and> decode_modifier True b (m_Prefix d) (m_Modifiers d) = None")
  case True
  have np: "b \<noteq> PREFIX_EXTENDED \<and> b \<noteq> PREFIX_PAUSE"
    using assms(2) by (auto simp: bit_7_iff PREFIX_EXTENDED_def PREFIX_PAUSE_def)
  obtain key' mods' led' where p: "decode_press b (m_Prefix d) (m_Modifiers d) (m_Modifiers d) = (key', mods', led')"
    by (metis prod_cases3)
  then have "key = key'"
    using assms(2,3) True np by (simp add: decode_byte_def Let_def break_bit clear_break)
  with decode_press_valid [OF _ _ _ _ p] True assms(1) show ?thesis
    by (auto simp: decoder_ok_def reportable_def decode_modifier_def split: if_splits)
next
  case False
  have inv: "\<not> Key_IsValid (m_Modifiers d)" using assms(1) by (simp add: Key_IsValid_def decoder_ok_def)
  have nr: "\<not> reportable d b" using False by (auto simp: reportable_def decode_modifier_def split: if_splits)
  show ?thesis
  proof (cases "b = 0")
    case True
    have "decode_byte 0 d = (m_Modifiers d\<lparr>Code := 0\<rparr>, d', led)
        \<or> decode_byte 0 d = (m_Modifiers d\<lparr>Code := 0, NumLock := False\<rparr>, d', led)"
      using assms True by (auto simp: decode_byte_def Let_def break_bit decode_modifier_def decode_press_def
          PREFIX_EXTENDED_def PREFIX_PAUSE_def split: if_splits)
    with assms(3) True nr show ?thesis by (auto simp: Key_IsValid_def)
  next
    case nz: False
    then have "key = m_Modifiers d"
      using False assms(2,3) by (auto simp: decode_byte_def Let_def break_bit clear_break unat_gt_0 word_neq_0_conv
          split: if_splits option.splits)
    with inv nr show ?thesis by simp
  qed
qed

lemma pressed_update:
  assumes "length xs = 0x59" "k < SC_COUNT"
  shows "xs[unat k := v] ! unat c = (if c = k then v else xs ! unat c)"
  using assms by (simp add: nth_list_update word_less_nat_alt word_unat_eq_iff [of k c])
    (auto simp: word_unat_eq_iff)

text \<open>
  C24: the decoder reports exactly the presses of keys. From a well formed decoder, one byte leads to
  a well formed decoder; the key it returns is valid if and only if the byte is the make code of a
  key that is not a modifier or a lock key (Num Lock counts as a key while left Ctrl is held, which
  is how Pause arrives), and then the key carries that very scan code. A byte that is no prefix
  marks its key as pressed or released according to its top bit and leaves every other key alone.
\<close>
theorem Decode_reports_presses:
  assumes "decoder_ok d" and "decode_byte b d = (key, d', led)"
  shows "decoder_ok d' \<and> (Key_IsValid key \<longleftrightarrow> b < 0x80 \<and> reportable d b) \<and> (Key_IsValid key \<longrightarrow> Code key = b)
    \<and> (\<forall>c < SC_COUNT. IsPressed d' c \<longleftrightarrow>
         (if b \<notin> {PREFIX_EXTENDED, PREFIX_PAUSE} \<and> c = b AND NOT BREAK_BIT then b < 0x80 else IsPressed d c))"
proof (cases "b \<in> {PREFIX_EXTENDED, PREFIX_PAUSE}")
  case True
  then have "0x80 \<le> b" by (auto simp: PREFIX_EXTENDED_def PREFIX_PAUSE_def word_le_nat_alt)
  with True assms show ?thesis by (auto simp: decode_byte_def decoder_ok_def Key_IsValid_def IsPressed_def)
next
  case False
  let ?c = "b AND NOT BREAK_BIT"
  note st = decode_byte_state [OF False assms(2)]
  have "decoder_ok d'" using st assms(1) by (simp add: decoder_ok_def)
  moreover have "(Key_IsValid key \<longleftrightarrow> b < 0x80 \<and> reportable d b) \<and> (Key_IsValid key \<longrightarrow> Code key = b)"
  proof (cases "bit b 7")
    case True
    with decode_byte_release [OF True assms(2)] assms(1) show ?thesis
      by (auto simp: bit_7_iff Key_IsValid_def decoder_ok_def)
  next
    case up: False
    with decode_byte_press [OF assms(1) up assms(2)] show ?thesis by (auto simp: bit_7_iff)
  qed
  moreover have "IsPressed d' c \<longleftrightarrow> (if c = ?c then b < 0x80 else IsPressed d c)" if "c < SC_COUNT" for c
    using st(1) that assms(1) pressed_update [of "m_Pressed d" ?c] by (auto simp: IsPressed_def decoder_ok_def bit_7_iff)
  ultimately show ?thesis using False by simp
qed

theorem Decode_reports_presses_witness:
  "decoder_ok KeyDecoder_init \<and> (\<exists>key d' led. decode_byte 0x1e KeyDecoder_init = (key, d', led) \<and> decoder_ok d' \<and>
     Key_IsValid key \<and> Code key = ScanCode ''A'' \<and> IsPressed d' 0x1e)"
proof -
  obtain key d' led where r: "decode_byte 0x1e KeyDecoder_init = (key, d', led)" by (metis prod_cases3)
  have "reportable KeyDecoder_init 0x1e" by (simp add: reportable_def word_less_nat_alt)
  moreover have "(0x1e :: u8) AND NOT BREAK_BIT = 0x1e" "(0x1e :: u8) < SC_COUNT" by (simp_all add: BREAK_BIT_def)
  ultimately show ?thesis
    using Decode_reports_presses [OF decoder_init_ok r] r decoder_init_ok
    by (auto simp: PREFIX_EXTENDED_def PREFIX_PAUSE_def)
qed

text \<open>
  Scan code set 1 leaves 0x55 unused: its F11 and F12 are 0x57 and 0x58. The enumeration has no gap
  there, so the decoder takes F11 for F12, and F12 for the keypad's equals key, which types a character.
\<close>

lemma function_keys_shifted:
  "Code (fst (decode_byte 0x57 KeyDecoder_init)) = ScanCode ''F12''"
  "Code (fst (decode_byte 0x58 KeyDecoder_init)) = ScanCode ''KP_EQUAL''"
  "Key_Ascii (fst (decode_byte 0x58 KeyDecoder_init)) = 61"
  by code_simp+

text \<open>Releasing one shift key while the other is held clears the shift state.\<close>

definition decode_bytes :: "u8 list \<Rightarrow> KeyDecoder \<Rightarrow> KeyDecoder" where
  "decode_bytes bs d = fold (\<lambda>b d. fst (snd (decode_byte b d))) bs d"

lemma one_shift_released:
  "IsPressed (decode_bytes [0x2a, 0x36, 0xb6] KeyDecoder_init) (ScanCode ''LEFT_SHIFT'')"
  "\<not> Shift (m_Modifiers (decode_bytes [0x2a, 0x36, 0xb6] KeyDecoder_init))"
  by code_simp+

section \<open>The controller protocol\<close>

text \<open>
  The 8042 may be written only after its status says the input buffer is empty, and its output
  buffer read only after the status says it is full. A trace is polite if each such access comes
  right after a status read that allows it.
\<close>

fun may_write :: "bus_event list \<Rightarrow> bool" where
  "may_write (Rd (Port8 p) v # t) = (p = 0x64 \<and> (ucast v :: u8) AND 2 = 0)"
| "may_write _ = False"

fun may_read :: "bus_event list \<Rightarrow> bool" where
  "may_read (Rd (Port8 p) v # t) = (p = 0x64 \<and> (ucast v :: u8) AND 1 \<noteq> 0)"
| "may_read _ = False"

fun allowed :: "bus_event \<Rightarrow> bus_event list \<Rightarrow> bool" where
  "allowed (Wr (Port8 p) v) t = (p = 0x60 \<or> p = 0x64 \<longrightarrow> may_write t)"
| "allowed (Rd (Port8 p) v) t = (p = 0x60 \<longrightarrow> may_read t)"
| "allowed _ t = True"

fun polite :: "bus_event list \<Rightarrow> bool" where
  "polite [] = True"
| "polite (e # t) = (allowed e t \<and> polite t)"

abbreviation polite_state :: "'a bus_scheme \<Rightarrow> bool" where
  "polite_state s \<equiv> polite (trace s)"

lemma hoare_return: "(\<And>s. P s \<Longrightarrow> Q a s) \<Longrightarrow> hoare P (State_Monad.return a) Q"
  by (simp add: hoare_def)

lemma WaitWritable_polite:
  "hoare polite_state (WaitWritable_loop hw n) (\<lambda>ok s. polite_state s \<and> (ok \<longrightarrow> may_write (trace s)))"
proof (induction hw n rule: WaitWritable_loop.induct)
  case (1 hw n)
  show ?case
  proof (rule hoareI)
    fix s :: "'a bus_scheme" assume p: "polite_state s"
    let ?v = "hw (trace s) (Port8 0x64)"
    let ?s = "s\<lparr>trace := Rd (Port8 0x64) ?v # trace s\<rparr>"
    show "polite_state (snd (run_state (WaitWritable_loop hw n) s)) \<and>
      (fst (run_state (WaitWritable_loop hw n) s) \<longrightarrow> may_write (trace (snd (run_state (WaitWritable_loop hw n) s))))"
      using p 1 [of "ucast ?v"]
      by (subst (1 2 3) WaitWritable_loop.simps)
        (auto simp: run_simps s_ControlPort_def hoare_def)
  qed
qed

lemma WaitReadable_polite:
  "hoare polite_state (WaitReadable_loop hw n) (\<lambda>ok s. polite_state s \<and> (ok \<longrightarrow> may_read (trace s)))"
proof (induction hw n rule: WaitReadable_loop.induct)
  case (1 hw n)
  show ?case
  proof (rule hoareI)
    fix s :: "'a bus_scheme" assume p: "polite_state s"
    let ?v = "hw (trace s) (Port8 0x64)"
    show "polite_state (snd (run_state (WaitReadable_loop hw n) s)) \<and>
      (fst (run_state (WaitReadable_loop hw n) s) \<longrightarrow> may_read (trace (snd (run_state (WaitReadable_loop hw n) s))))"
      using p 1 [of "ucast ?v"]
      by (subst (1 2 3) WaitReadable_loop.simps)
        (auto simp: run_simps s_ControlPort_def hoare_def)
  qed
qed

lemma SendCommand_polite [keeps_intros]: "keeps polite_state (SendCommand hw c)"
  unfolding keeps_def SendCommand_def WaitWritable_def
  by (rule hoare_bind [OF WaitWritable_polite]) (auto simp: hoare_def run_simps s_ControlPort_def)

lemma SendData_polite [keeps_intros]: "keeps polite_state (SendData hw c)"
  unfolding keeps_def SendData_def WaitWritable_def
  by (rule hoare_bind [OF WaitWritable_polite]) (auto simp: hoare_def run_simps s_DataPort_def)

lemma ReadData_polite [keeps_intros]: "keeps polite_state (ReadData hw)"
  unfolding keeps_def ReadData_def WaitReadable_def
  by (rule hoare_bind [OF WaitReadable_polite]) (auto simp: hoare_def run_simps s_DataPort_def)

lemma SendToKeyboard_polite [keeps_intros]: "keeps polite_state (SendToKeyboard hw c)"
proof -
  have "keeps polite_state (SendToKeyboard_loop hw c n)" for n
    by (induction n) (auto intro!: keeps_intros)
  then show ?thesis by (simp add: SendToKeyboard_def)
qed

lemma keeps_update [keeps_intros]: "(\<And>s. P s \<Longrightarrow> P (f s)) \<Longrightarrow> keeps P (State_Monad.update f)"
  by (simp add: keeps_def hoare_def)

lemma SetRepeatRate_polite [keeps_intros]: "keeps polite_state (SetRepeatRate hw v d)"
  unfolding SetRepeatRate_def by (auto intro!: keeps_intros)

lemma SetLed_polite [keeps_intros]: "keeps polite_state (SetLed hw l on)"
  unfolding SetLed_def by (auto intro!: keeps_intros)

lemma DrainBuffer_polite [keeps_intros]: "keeps polite_state (DrainBuffer hw)"
proof -
  have "keeps polite_state (DrainBuffer_loop hw n :: ('a bus_scheme, unit) state)" for n
  proof (induction n)
    case (Suc n)
    then show ?case
      by (auto simp: keeps_def hoare_def run_simps s_ControlPort_def s_DataPort_def)
  qed (simp add: keeps_return)
  then show ?thesis by (simp add: DrainBuffer_def)
qed

lemma DrainToQueue_polite: "keeps polite_state (DrainToQueue hw)"
proof -
  have "keeps polite_state (DrainToQueue_loop hw n :: ('a ps2_scheme, unit) state)" for n
  proof (induction n)
    case (Suc n)
    then show ?case
      by (auto simp: keeps_def hoare_def run_simps s_ControlPort_def s_DataPort_def)
  qed (simp add: keeps_return)
  then show ?thesis by (simp add: DrainToQueue_def)
qed

lemma IoApic_polite [keeps_intros]:
  "keeps polite_state (IoApic_Configure hw p v trig pol)" "keeps polite_state (IoApic_Allow hw p)"
  by (auto simp: keeps_def hoare_def IoApic_Configure_def IoApic_Allow_def IoApic_ReadEntry_def IoApic_WriteEntry_def
      IoApic_ReadRegister_def IoApic_WriteRegister_def run_simps Let_def)

lemma Decode_run:
  "run_state (Decode hw b) s = (case decode_byte b (s_Decoder s) of (key, d, led) \<Rightarrow>
     (key, case led of None \<Rightarrow> s\<lparr>s_Decoder := d\<rparr> | Some (l, on) \<Rightarrow> snd (run_state (SetLed hw l on) (s\<lparr>s_Decoder := d\<rparr>))))"
  by (cases "decode_byte b (s_Decoder s)") (auto simp: Decode_def Let_def split: option.splits prod.splits)

lemma Decode_polite: "keeps polite_state (Decode hw b)"
  unfolding keeps_def
  by (rule hoareI) (auto simp: Decode_run split: prod.splits option.splits intro!: keepsD [OF SetLed_polite])

lemma Ps2_Initialize_polite: "keeps polite_state (Ps2_Initialize hw)"
  unfolding Ps2_Initialize_def by (auto intro!: keeps_intros split: option.split)

section \<open>The byte stream\<close>

definition is_reply :: "u8 \<Rightarrow> bool" where
  "is_reply c \<longleftrightarrow> c = Reply_value ACKNOWLEDGE \<or> c = Reply_value RESEND"

definition first_code :: "u8 list \<Rightarrow> u8 option" where
  "first_code bs = (case dropWhile is_reply bs of [] \<Rightarrow> None | c # _ \<Rightarrow> Some c)"

lemma Fetch_code_spec:
  assumes "ring_rep RAW_BYTES (s_RawBytes s) bs"
  shows "\<exists>rb. Fetch_code s = Some (first_code bs, s\<lparr>s_RawBytes := rb\<rparr>) \<and> ring_rep RAW_BYTES rb (tl (dropWhile is_reply bs))"
  using assms
proof (induction bs arbitrary: s)
  case Nil
  then have "Ring_Consume RAW_BYTES (s_RawBytes s) = (None, s_RawBytes s)" by (rule ring.get_empty)
  with Nil show ?case
    by (intro exI [of _ "s_RawBytes s"]) (subst Fetch_code.simps, simp add: first_code_def)
next
  case (Cons c bs)
  from Consume_first [OF Cons.prems] obtain rb where
    rb: "Ring_Consume RAW_BYTES (s_RawBytes s) = (Some c, rb)" "ring_rep RAW_BYTES rb bs" by blast
  show ?case
  proof (cases "is_reply c")
    case True
    have "Fetch_code s = Fetch_code (s\<lparr>s_RawBytes := rb\<rparr>)"
      using rb True by (subst Fetch_code.simps) (auto simp: is_reply_def)
    with Cons.IH [of "s\<lparr>s_RawBytes := rb\<rparr>"] rb(2) True show ?thesis by (simp add: first_code_def)
  next
    case False
    have "Fetch_code s = Some (Some c, s\<lparr>s_RawBytes := rb\<rparr>)"
      using rb False by (subst Fetch_code.simps) (auto simp: is_reply_def)
    with rb(2) False show ?thesis by (auto simp: first_code_def)
  qed
qed

text \<open>The decoder's writes to the controller leave the raw bytes and the decoder alone.\<close>

abbreviation stream_is :: "u8 ring \<Rightarrow> KeyDecoder \<Rightarrow> 'a ps2_scheme \<Rightarrow> bool" where
  "stream_is rb d s \<equiv> s_RawBytes s = rb \<and> s_Decoder s = d"

lemma WaitWritable_stream: "keeps (stream_is rb d) (WaitWritable_loop hw n)"
proof (induction hw n rule: WaitWritable_loop.induct)
  case (1 hw n)
  have "stream_is rb d (snd (run_state (WaitWritable_loop hw n) s))" if "stream_is rb d s" for s :: "'a ps2_scheme"
    using that 1 [of "ucast (hw (trace s) (Port8 s_ControlPort))"]
    by (subst (1 2) WaitWritable_loop.simps) (auto simp: run_simps keeps_def hoare_def)
  then show ?case by (simp add: keeps_def hoare_def)
qed

lemma SendData_stream: "keeps (stream_is rb d) (SendData hw c)"
  unfolding SendData_def WaitWritable_def
  by (auto intro!: keeps_intros WaitWritable_stream) (simp add: keeps_def hoare_def run_simps)

lemma SetLed_stream: "keeps (stream_is rb d) (SetLed hw l on)"
  unfolding SetLed_def by (auto intro!: keeps_intros SendData_stream)

lemma Decode_stream:
  "s_RawBytes (snd (run_state (Decode hw b) s)) = s_RawBytes s"
  "s_Decoder (snd (run_state (Decode hw b) s)) = fst (snd (decode_byte b (s_Decoder s)))"
  "fst (run_state (Decode hw b) s) = fst (decode_byte b (s_Decoder s))"
proof -
  obtain key d led where r: "decode_byte b (s_Decoder s) = (key, d, led)" by (metis prod_cases3)
  have "stream_is (s_RawBytes s) d (snd (run_state (SetLed hw l on) (s\<lparr>s_Decoder := d\<rparr>)))" for l on
    by (rule keepsD [OF SetLed_stream]) simp
  then show "s_RawBytes (snd (run_state (Decode hw b) s)) = s_RawBytes s"
    "s_Decoder (snd (run_state (Decode hw b) s)) = fst (snd (decode_byte b (s_Decoder s)))"
    "fst (run_state (Decode hw b) s) = fst (decode_byte b (s_Decoder s))"
    by (cases led; auto simp: Decode_run r)+
qed

text \<open>
  C25: \<open>Fetch\<close> always returns and consumes the raw bytes in order. It skips the acknowledgements at
  the front; if nothing else is buffered it reports that the queue ran dry and the buffer is empty;
  otherwise it returns the decoder's key for the first remaining byte, the decoder has consumed
  exactly that byte, and the bytes behind it are still buffered in order.
\<close>
theorem Fetch_in_order:
  assumes "ring_rep RAW_BYTES (s_RawBytes s) bs"
  shows "\<exists>key s'. Fetch hw s = Some (key, s') \<and>
    (case dropWhile is_reply bs of
       [] \<Rightarrow> key = None \<and> ring_rep RAW_BYTES (s_RawBytes s') [] \<and> s_Decoder s' = s_Decoder s
     | c # rest \<Rightarrow> key = Some (fst (decode_byte c (s_Decoder s))) \<and> ring_rep RAW_BYTES (s_RawBytes s') rest
         \<and> s_Decoder s' = fst (snd (decode_byte c (s_Decoder s))))"
proof -
  from Fetch_code_spec [OF assms] obtain rb where
    f: "Fetch_code s = Some (first_code bs, s\<lparr>s_RawBytes := rb\<rparr>)" "ring_rep RAW_BYTES rb (tl (dropWhile is_reply bs))"
    by blast
  show ?thesis
  proof (cases "dropWhile is_reply bs")
    case Nil
    with f show ?thesis by (simp add: Fetch_def first_code_def del: dropWhile_eq_Nil_conv)
  next
    case (Cons c rest)
    with f Decode_stream [of hw c "s\<lparr>s_RawBytes := rb\<rparr>"] show ?thesis
      by (cases "run_state (Decode hw c) (s\<lparr>s_RawBytes := rb\<rparr>)") (simp add: Fetch_def first_code_def)
  qed
qed

text \<open>Any use of the driver: what the rest of the kernel can call, in any order.\<close>

datatype ps2_call = CallInitialize | CallDrainToQueue | CallFetch | CallSetLed Led bool | CallSetRepeatRate Speed RepeatDelay
  | CallDrainBuffer

fun ps2_step :: "hardware \<Rightarrow> ps2_call \<Rightarrow> 'a ps2_scheme \<Rightarrow> 'a ps2_scheme option" where
  "ps2_step hw CallInitialize s = Some (snd (run_state (Ps2_Initialize hw) s))"
| "ps2_step hw CallDrainToQueue s = Some (snd (run_state (DrainToQueue hw) s))"
| "ps2_step hw CallFetch s = map_option snd (Fetch hw s)"
| "ps2_step hw (CallSetLed l on) s = Some (snd (run_state (SetLed hw l on) s))"
| "ps2_step hw (CallSetRepeatRate v d) s = Some (snd (run_state (SetRepeatRate hw v d) s))"
| "ps2_step hw CallDrainBuffer s = Some (snd (run_state (DrainBuffer hw) s))"

fun ps2_run :: "hardware \<Rightarrow> ps2_call list \<Rightarrow> 'a ps2_scheme \<Rightarrow> 'a ps2_scheme option" where
  "ps2_run hw [] s = Some s"
| "ps2_run hw (c # cs) s = (case ps2_step hw c s of None \<Rightarrow> None | Some s \<Rightarrow> ps2_run hw cs s)"

text \<open>Only the prologue and \<open>Fetch\<close> touch the raw bytes.\<close>

abbreviation raw_is :: "u8 ring \<Rightarrow> 'a ps2_scheme \<Rightarrow> bool" where
  "raw_is rb s \<equiv> s_RawBytes s = rb"

lemma ports_raw: "keeps (raw_is rb) (InB hw p)" "keeps (raw_is rb) (OutB p v)" "keeps (raw_is rb) (Mmio_Read hw a)"
  "keeps (raw_is rb) (Mmio_Write a w)"
  by (simp_all add: keeps_def hoare_def run_simps)

lemma waits_raw: "keeps (raw_is rb) (WaitWritable hw)" "keeps (raw_is rb) (WaitReadable hw)"
proof -
  have "keeps (raw_is rb) (WaitWritable_loop hw n)" for n
    by (induction hw n rule: WaitWritable_loop.induct)
      (subst WaitWritable_loop.simps, auto intro!: keeps_intros ports_raw)
  moreover have "keeps (raw_is rb) (WaitReadable_loop hw n)" for n
    by (induction hw n rule: WaitReadable_loop.induct)
      (subst WaitReadable_loop.simps, auto intro!: keeps_intros ports_raw)
  ultimately show "keeps (raw_is rb) (WaitWritable hw)" "keeps (raw_is rb) (WaitReadable hw)"
    by (simp_all add: WaitWritable_def WaitReadable_def)
qed

lemma sends_raw: "keeps (raw_is rb) (SendCommand hw c)" "keeps (raw_is rb) (SendData hw c)" "keeps (raw_is rb) (ReadData hw)"
  unfolding SendCommand_def SendData_def ReadData_def by (auto intro!: keeps_intros ports_raw waits_raw)

lemma SendToKeyboard_raw: "keeps (raw_is rb) (SendToKeyboard hw c)"
proof -
  have "keeps (raw_is rb) (SendToKeyboard_loop hw c n)" for n
    by (induction n) (auto intro!: keeps_intros sends_raw)
  then show ?thesis by (simp add: SendToKeyboard_def)
qed

lemma settings_raw: "keeps (raw_is rb) (SetRepeatRate hw v d)" "keeps (raw_is rb) (SetLed hw l on)"
  "keeps (raw_is rb) (DrainBuffer hw)"
proof -
  have "keeps (raw_is rb) (DrainBuffer_loop hw n)" for n
    by (induction n) (auto intro!: keeps_intros ports_raw)
  then show "keeps (raw_is rb) (DrainBuffer hw)" by (simp add: DrainBuffer_def)
qed (auto simp: SetRepeatRate_def SetLed_def intro!: keeps_intros sends_raw SendToKeyboard_raw)

lemma IoApic_raw: "keeps (raw_is rb) (IoApic_Configure hw p v trig pol)" "keeps (raw_is rb) (IoApic_Allow hw p)"
  by (auto simp: IoApic_Configure_def IoApic_Allow_def IoApic_ReadEntry_def IoApic_WriteEntry_def
      IoApic_ReadRegister_def IoApic_WriteRegister_def Let_def intro!: keeps_intros ports_raw)

lemma Ps2_Initialize_raw: "keeps (raw_is rb) (Ps2_Initialize hw)"
  unfolding Ps2_Initialize_def
  by (auto intro!: keeps_intros sends_raw SendToKeyboard_raw settings_raw IoApic_raw split: option.split)

definition raw_ok :: "'a ps2_scheme \<Rightarrow> bool" where
  "raw_ok s \<longleftrightarrow> (\<exists>bs. ring_rep RAW_BYTES (s_RawBytes s) bs)"

lemma raw_ok_Produce: "ring_rep RAW_BYTES rb bs \<Longrightarrow> \<exists>bs'. ring_rep RAW_BYTES (snd (Ring_Produce RAW_BYTES rb c)) bs'"
  by (metis ring.put_cases snd_conv)

lemma DrainToQueue_raw_ok: "keeps raw_ok (DrainToQueue hw)"
proof -
  have up: "keeps raw_ok (State_Monad.update (s_RawBytes_update (\<lambda>rb. snd (Ring_Produce RAW_BYTES rb c))))" for c
    using raw_ok_Produce by (fastforce simp: keeps_def hoare_def raw_ok_def)
  have inb: "keeps raw_ok (InB hw p)" for p by (simp add: keeps_def hoare_def run_simps raw_ok_def)
  have "keeps raw_ok (DrainToQueue_loop hw n)" for n
    by (induction n) (auto intro!: keeps_intros up inb)
  then show ?thesis by (simp add: DrainToQueue_def)
qed

lemma raw_ok_keeps: "(\<And>rb. keeps (raw_is rb) m) \<Longrightarrow> raw_ok s \<Longrightarrow> raw_ok (snd (run_state m s))"
  by (simp add: keeps_def hoare_def raw_ok_def)

lemma Fetch_ok:
  assumes "polite_state s" "raw_ok s"
  shows "\<exists>key s'. Fetch hw s = Some (key, s') \<and> polite_state s' \<and> raw_ok s'"
proof -
  obtain bs where "ring_rep RAW_BYTES (s_RawBytes s) bs" using assms by (auto simp: raw_ok_def)
  from Fetch_code_spec [OF this] obtain rb where
    f: "Fetch_code s = Some (first_code bs, s\<lparr>s_RawBytes := rb\<rparr>)" "ring_rep RAW_BYTES rb (tl (dropWhile is_reply bs))"
    by blast
  show ?thesis
  proof (cases "first_code bs")
    case None
    with f assms show ?thesis by (auto simp: Fetch_def raw_ok_def)
  next
    case (Some c)
    have "polite_state (snd (run_state (Decode hw c) (s\<lparr>s_RawBytes := rb\<rparr>)))"
      using assms by (intro keepsD [OF Decode_polite]) simp
    with Some f Decode_stream(1) [of hw c "s\<lparr>s_RawBytes := rb\<rparr>"] show ?thesis
      by (cases "run_state (Decode hw c) (s\<lparr>s_RawBytes := rb\<rparr>)") (auto simp: Fetch_def raw_ok_def)
  qed
qed

lemma ps2_step_ok:
  assumes "polite_state s" "raw_ok s"
  shows "\<exists>s'. ps2_step hw c s = Some s' \<and> polite_state s' \<and> raw_ok s'"
proof (cases c)
  case CallFetch
  with Fetch_ok [OF assms] show ?thesis by fastforce
qed (use assms in \<open>auto intro: keepsD [OF Ps2_Initialize_polite] keepsD [OF DrainToQueue_polite] keepsD [OF SetLed_polite]
    keepsD [OF SetRepeatRate_polite] keepsD [OF DrainBuffer_polite] keepsD [OF DrainToQueue_raw_ok]
    raw_ok_keeps Ps2_Initialize_raw settings_raw\<close>)

text \<open>
  C23: the driver respects the controller whatever the hardware does. Over any sequence of driver
  calls, each run to its end before the next, on any hardware, every byte written to the command or data port directly follows a status
  read with the input buffer empty, and every byte read from the data port directly follows a status
  read with the output buffer full; every call returns, because each wait is bounded, and the raw
  byte buffer stays well formed.
\<close>
theorem Ps2_driver_polite:
  assumes "polite (trace s)" "raw_ok s"
  shows "\<exists>s'. ps2_run hw calls s = Some s' \<and> polite (trace s') \<and> raw_ok s'"
  using assms
proof (induction calls arbitrary: s)
  case (Cons c calls)
  from ps2_step_ok [OF Cons.prems] obtain s' where s': "ps2_step hw c s = Some s'" "polite_state s'" "raw_ok s'" by blast
  from Cons.IH [OF s'(2,3)] s'(1) show ?case by simp
qed simp

definition ps2_start :: ps2 where
  "ps2_start = ioapic.extend ioapic_start \<lparr>s_Decoder = KeyDecoder_init, s_Leds = 0, s_RawBytes = Ring_init RAW_BYTES 0\<rparr>"

lemma ps2_start_ok: "polite (trace ps2_start)" "raw_ok ps2_start"
  using ring_rep_init [of RAW_BYTES 0]
  by (auto simp: ps2_start_def ioapic.defs ioapic_start_def gdt.defs gdt_start_def raw_ok_def RAW_BYTES_def)

theorem Ps2_driver_polite_witness:
  "\<exists>s'. ps2_run (\<lambda>t c. 0x21) [CallInitialize, CallDrainToQueue, CallFetch, CallSetLed LED_NUM_LOCK True, CallFetch] ps2_start
     = Some s' \<and> polite (trace s') \<and> raw_ok s'"
  by (rule Ps2_driver_polite [OF ps2_start_ok])

theorem Fetch_in_order_witness:
  "\<exists>key s'. Fetch (\<lambda>t c. 0) (ps2_start\<lparr>s_RawBytes := snd (Ring_Produce RAW_BYTES (snd (Ring_Produce RAW_BYTES
     (Ring_init RAW_BYTES 0) 0xfa)) 0x1e)\<rparr>) = Some (Some key, s') \<and> Code key = 0x1e \<and> ring_rep RAW_BYTES (s_RawBytes s') []"
proof -
  let ?rb = "snd (Ring_Produce RAW_BYTES (snd (Ring_Produce RAW_BYTES (Ring_init RAW_BYTES 0) 0xfa)) 0x1e)"
  let ?s = "ps2_start\<lparr>s_RawBytes := ?rb\<rparr>"
  have n: "unat RAW_BYTES = 64" "1 < RAW_BYTES" by (simp_all add: RAW_BYTES_def)
  obtain r1 :: "u8 ring" where "Ring_Produce RAW_BYTES (Ring_init RAW_BYTES 0) 0xfa = (True, r1)" "ring_rep RAW_BYTES r1 [0xfa]"
    using Produce_room [OF ring_rep_init [OF n(2)]] n by fastforce
  moreover from this obtain r2 where "Ring_Produce RAW_BYTES r1 0x1e = (True, r2)" "ring_rep RAW_BYTES r2 [0xfa, 0x1e]"
    using Produce_room [of RAW_BYTES r1 "[0xfa]" "0x1e"] n by auto
  ultimately have rep: "ring_rep RAW_BYTES (s_RawBytes ?s) [0xfa, 0x1e]" by simp
  have code: "Code (fst (decode_byte 0x1e KeyDecoder_init)) = 0x1e" by code_simp
  have "dropWhile is_reply [0xfa, 0x1e] = [0x1e]" by (simp add: is_reply_def)
  moreover have "s_Decoder ?s = KeyDecoder_init" by (simp add: ps2_start_def ioapic.defs)
  ultimately show ?thesis using Fetch_in_order [OF rep, of "\<lambda>t c. 0"] code by auto
qed

end
