(* ===== verification/Spec2Isabelle.thy ===== *)
theory Spec2Isabelle
  imports HK_Queue HK_RingBuffer HK_Math HK_KernelStack HK_HeapProps HK_Chipset HK_Ps2Props
begin

text \<open>
  A model of the x64HK kernel (\<open>src/Kernel\<close>) and what is proved about it.

  \<^bold>\<open>The program.\<close> x64HK is a small multi-core kernel for x86-64. The boot loader hands over a memory
  map; from it the kernel builds its frame allocator, page tables and heap, reads the machine's
  topology from the ACPI tables, programs the interrupt controllers, timer and keyboard, and runs
  threads on all cores.

  \<^bold>\<open>How code becomes definitions.\<close> A function of the source is a definition of the same name
  (prefixed with its namespace where names clash); the statics of a module are a record; a method
  that changes state takes and returns the record. Integers have the width of the source, as words,
  so they wrap where the source wraps. \<open>PANIC\<close>, a failing \<open>ASSERT\<close>, a divide or protection fault and a
  loop that never ends are the left values of the type \<open>result\<close> (\<open>HK_Prelude\<close>). \<open>ASSERT\<close> is that of the
  ordinary build; the \<open>-opt\<close> build defines \<open>NDEBUG\<close> and has none, and what that means for freeing frames
  twice is modelled too. A loop whose end depends on
  pointers or on hardware is a \<open>partial_function\<close>, with \<open>None\<close> for not returning; bounded loops are
  total functions. No fuel is used. Memory the kernel walks by pointer is a function from addresses
  to bytes. Hardware is a parameter \<open>hw\<close>, the answer of a channel (port, memory mapped register,
  model specific register) as a function of the whole access history, which is part of the state;
  drivers are programs of the state monad over it (\<open>HK_Bus\<close>), and what a property needs of the
  hardware is one of its hypotheses. A call runs to its end before the next one starts: spin locks and
  interrupt guards, which make it so, leave no trace in the model. An enumeration is a datatype with a function to its numbers.

  \<^bold>\<open>Memory.\<close>
  \<^item> \<open>HK_Multiboot\<close> models \<open>Boot/Multiboot.cpp\<close>: parsing ends on every tag chain, the module table is
    never overrun, the newer ACPI pointer wins.
  \<^item> \<open>HK_Frame\<close>, \<open>HK_FrameInit\<close> model \<open>Memory/Frame.cpp\<close>: allocations are disjoint from each other and
    from everything in use, succeed whenever a run exists, and after start-up exactly the unused
    frames of available memory are free. The bitmap is a list of words of its own, apart from the
    memory the loader's tables are read from. \<open>frame_allocator\<close> is the interface the page tables use.
  \<^item> \<open>HK_Paging\<close>, \<open>HK_PageTree\<close>, \<open>HK_PagingSafety\<close>, \<open>HK_PagingProgress\<close>, \<open>HK_PagingInit\<close> model
    \<open>Memory/Paging.cpp\<close>: a mapping translates as asked, changes nothing else and succeeds while there are
    frames; the kernel's tables map memory, image and devices where they should be, give ring 3 nothing
    and never map memory both writable and executable.
  \<^item> \<open>HK_KernelStack\<close> models \<open>Memory/KernelStack.cpp\<close>: stacks are mapped behind guard pages.
  \<^item> \<open>HK_Buddy\<close>, \<open>HK_Heap\<close>, \<open>HK_HeapInv\<close>, \<open>HK_HeapSafety\<close>, \<open>HK_HeapClient\<close>, \<open>HK_HeapProps\<close> model
    \<open>Memory/Heap.cpp\<close>: the heap refines a tiling by buddy blocks and implements \<open>malloc_interface\<close>.
  \<^item> \<open>HK_Queue\<close>, \<open>HK_RingBuffer\<close>, \<open>HK_Fifo\<close>, \<open>HK_Math\<close>, \<open>HK_String\<close> model \<open>Lib\<close>; both queues implement
    the interface \<open>fifo\<close>.

  \<^bold>\<open>Devices.\<close>
  \<^item> \<open>HK_Bits\<close>, \<open>HK_Bus\<close>: bit fields, ports and registers, and the reasoning rules for drivers.
  \<^item> \<open>HK_Pit\<close>, \<open>HK_Chipset\<close>: the interval timer, legacy interrupt controller, clock chip, reset and
    serial line.
  \<^item> \<open>HK_Acpi\<close>, \<open>HK_Apic\<close>, \<open>HK_LocalApic\<close>, \<open>HK_IoApic\<close>: the description tables, the topology, and the
    interrupt controllers of the cores and of the devices.
  \<^item> \<open>HK_Gdt\<close>, \<open>HK_Cpu\<close>: segment, task state and gate descriptors, core numbering and start-up.
  \<^item> \<open>HK_Key\<close>, \<open>HK_Ps2\<close>, \<open>HK_Ps2Props\<close>: the keyboard from its bytes to decoded keys.

  \<^bold>\<open>Not modelled.\<close> Assembly files, printing of diagnostics, and the parts listed as such in the
  manifest.
\<close>

end
